(* ===== verification/Prelude.thy ===== *)
theory Prelude
  imports Main "HOL-Library.Word"
begin

text \<open>
  Shared vocabulary of the development.

  \<^item> The machine types of the C++ code: bytes, \<open>uint16_t\<close>, \<open>uint32_t\<close> as words.
    A \<open>size_t\<close> counts bytes that are resident in memory and is a \<open>nat\<close>.
  \<^item> The result type of the model: every operation of the library returns
    \<open>error + 'a\<close>; the left injection carries the way in which the C++ execution goes
    wrong (a failed \<open>assert\<close>, a null or dangling pointer, an access outside an array, a
    loop that does not end).
  \<^item> The object representation of integers on the little-endian hosts the project builds for
    (the Visual Studio projects target Win32 and x64), and the byte-order functions
    \<open>htonl\<close>, \<open>htons\<close>, \<open>ntohl\<close>, \<open>ntohs\<close> on it.
\<close>

section \<open>Collections of facts\<close>

named_theorems mem_simps \<open>rewrite rules for reading and writing pieces in memory\<close>
named_theorems rep_intros \<open>introduction rules for representation predicates\<close>

section \<open>Types\<close>

type_synonym byte = "8 word"
type_synonym uint16 = "16 word"
type_synonym uint32 = "32 word"
type_synonym uint64 = "64 word"
type_synonym addr = nat

datatype error =
    AssertFailed      \<comment> \<open>\<open>assert(...)\<close> with a false argument\<close>
  | NullDeref         \<comment> \<open>access through a null pointer\<close>
  | UseAfterFree      \<comment> \<open>access to, or release of, an object that is not alive\<close>
  | OutOfBounds       \<comment> \<open>access outside the bounds of an object\<close>
  | Diverges          \<comment> \<open>the loop has not ended within its fuel\<close>
  | BadFunctionCall   \<comment> \<open>call of an empty \<open>std::function\<close>\<close>
  | Terminated        \<comment> \<open>\<open>std::terminate\<close>: a joinable \<open>std::thread\<close> is destroyed\<close>
  | SystemError       \<comment> \<open>\<open>boost::system::system_error\<close> thrown by a call of asio\<close>

section \<open>Results\<close>

definition rbind :: "error + 'a \<Rightarrow> ('a \<Rightarrow> error + 'b) \<Rightarrow> error + 'b" where
  "rbind r f = (case r of Inl e \<Rightarrow> Inl e | Inr x \<Rightarrow> f x)"

definition cassert :: "bool \<Rightarrow> error + unit" where
  "cassert b = (if b then Inr () else Inl AssertFailed)"

lemma rbind_Inl [simp]: "rbind (Inl e) f = Inl e"
  by (simp add: rbind_def)

lemma rbind_Inr [simp]: "rbind (Inr x) f = f x"
  by (simp add: rbind_def)

lemma rbind_eq_Inr_iff: "rbind r f = Inr y \<longleftrightarrow> (\<exists>x. r = Inr x \<and> f x = Inr y)"
  by (cases r) auto

lemma Inr_eq_rbind_iff: "Inr y = rbind r f \<longleftrightarrow> (\<exists>x. r = Inr x \<and> f x = Inr y)"
  by (cases r) auto

lemma rbind_assoc: "rbind (rbind r f) g = rbind r (\<lambda>x. rbind (f x) g)"
  by (cases r) auto

lemma cassert_True [simp]: "cassert True = Inr ()"
  by (simp add: cassert_def)

lemma cassert_False [simp]: "cassert False = Inl AssertFailed"
  by (simp add: cassert_def)

lemma rbind_cassert [simp]: "b \<Longrightarrow> rbind (cassert b) f = f ()"
  by simp

section \<open>Words\<close>

lemma unat_add_of_nat16 [simp]:
  fixes w :: uint16
  assumes "unat w + n < 65536"
  shows "unat (w + word_of_nat n) = unat w + n"
  using assms by (simp add: unat_word_ariths unat_of_nat)

lemma unat_sub_of_nat16 [simp]:
  fixes w :: uint16
  assumes "n \<le> unat w"
  shows "unat (w - word_of_nat n) = unat w - n"
proof -
  have n: "n < 65536" using assms unsigned_less [of w, where 'a = nat] by simp
  then have "unat (word_of_nat n :: uint16) = n" by (simp add: unat_of_nat)
  with assms show ?thesis by (simp add: unat_sub word_le_nat_alt)
qed

lemma unat_of_nat16 [simp]: "n < 65536 \<Longrightarrow> unat (word_of_nat n :: uint16) = n"
  by (simp add: unat_of_nat)

lemma unat_of_nat32 [simp]: "n < 4294967296 \<Longrightarrow> unat (word_of_nat n :: uint32) = n"
  by (simp add: unat_of_nat)

lemma sint_of_nat64 [simp]:
  assumes "n < 2 ^ 63"
  shows "sint (word_of_nat n :: uint64) = int n"
proof -
  have "sint (word_of_int (int n) :: uint64) = signed_take_bit 63 (int n)"
    using sint_sbintrunc' [of "int n", where 'a = 64] by simp
  also have "\<dots> = int n" using assms by (intro signed_take_bit_int_eq_self) auto
  finally show ?thesis by simp
qed

lemma sint_of_nat32 [simp]:
  assumes "n < 2 ^ 31"
  shows "sint (word_of_nat n :: uint32) = int n"
proof -
  have "sint (word_of_int (int n) :: uint32) = signed_take_bit 31 (int n)"
    using sint_sbintrunc' [of "int n", where 'a = 32] by simp
  also have "\<dots> = int n" using assms by (intro signed_take_bit_int_eq_self) auto
  finally show ?thesis by simp
qed

section \<open>Reachable states\<close>

text \<open>
  A component with a state machine has states it starts in and a step relation whose result is an
  error or the next state. Its reachable states are those of runs without an error.
\<close>

inductive reach :: "('s \<Rightarrow> bool) \<Rightarrow> ('s \<Rightarrow> error + 's \<Rightarrow> bool) \<Rightarrow> 's \<Rightarrow> bool" for start step where
  init: "start s \<Longrightarrow> reach start step s"
| step: "reach start step s \<Longrightarrow> step s (Inr s') \<Longrightarrow> reach start step s'"

text \<open>The contract of an invariant: every start state has it, every step keeps it.\<close>

locale inductive_invariant =
  fixes start :: "'s \<Rightarrow> bool" and step :: "'s \<Rightarrow> error + 's \<Rightarrow> bool" and inv :: "'s \<Rightarrow> bool"
  assumes inv_start: "start s \<Longrightarrow> inv s"
    and inv_step: "inv s \<Longrightarrow> step s (Inr s') \<Longrightarrow> inv s'"
begin

lemma reach_inv: "reach start step s \<Longrightarrow> inv s"
  by (induction rule: reach.induct) (auto intro: inv_start inv_step)

lemma steps_inv: "(\<lambda>s s'. step s (Inr s'))\<^sup>*\<^sup>* s s' \<Longrightarrow> inv s \<Longrightarrow> inv s'"
  by (induction rule: rtranclp_induct) (auto intro: inv_step)

end

lemma reach_steps:
  "(\<lambda>s s'. step s (Inr s'))\<^sup>*\<^sup>* s s' \<Longrightarrow> reach start step s \<Longrightarrow> reach start step s'"
  by (induction rule: rtranclp_induct) (auto intro: reach.step)

text \<open>
  Every run of the steps ends well: after any number of steps, which is at most \<open>n\<close>, no step fails, and
  either a further step is possible or the goal is reached. The contract behind it: every step from a
  state with the invariant succeeds, keeps it and makes the work left smaller, and a state without
  steps is a goal.
\<close>

definition ends_well :: "('s \<Rightarrow> error + 's \<Rightarrow> bool) \<Rightarrow> nat \<Rightarrow> ('s \<Rightarrow> bool) \<Rightarrow> 's \<Rightarrow> bool" where
  "ends_well step n goal s \<longleftrightarrow> (\<forall>k s'. ((\<lambda>a b. step a (Inr b)) ^^ k) s s' \<longrightarrow>
     k \<le> n \<and> (\<forall>err. \<not> step s' (Inl err)) \<and> ((\<exists>s''. step s' (Inr s'')) \<or> goal s'))"

locale finite_runs =
  fixes step :: "'s \<Rightarrow> error + 's \<Rightarrow> bool" and inv :: "'s \<Rightarrow> bool" and left :: "'s \<Rightarrow> nat" and goal :: "'s \<Rightarrow> bool"
  assumes run_step: "inv s \<Longrightarrow> step s r \<Longrightarrow> \<exists>s'. r = Inr s' \<and> inv s' \<and> left s' < left s"
    and run_goal: "inv s \<Longrightarrow> (\<And>r. \<not> step s r) \<Longrightarrow> goal s"
begin

lemma runs_shrink: "((\<lambda>a b. step a (Inr b)) ^^ k) s s' \<Longrightarrow> inv s \<Longrightarrow> inv s' \<and> k + left s' \<le> left s"
proof (induction k arbitrary: s')
  case (Suc k)
  then obtain t where t: "((\<lambda>a b. step a (Inr b)) ^^ k) s t" "step t (Inr s')" by auto
  then show ?case using Suc.IH [OF t(1) Suc.prems(2)] run_step [of t "Inr s'"] by auto
qed simp

lemma runs_end_well:
  assumes "inv s"
  shows "ends_well step (left s) goal s"
  unfolding ends_well_def
proof (intro allI impI)
  fix k s' assume "((\<lambda>a b. step a (Inr b)) ^^ k) s s'"
  then have s': "inv s'" "k + left s' \<le> left s" using runs_shrink assms by blast+
  moreover have "\<not> step s' (Inl err)" for err using run_step [OF s'(1)] by blast
  ultimately show "k \<le> left s \<and> (\<forall>err. \<not> step s' (Inl err)) \<and> ((\<exists>s''. step s' (Inr s'')) \<or> goal s')"
    using run_goal [OF s'(1)] by (metis add_leD1 sum.exhaust)
qed

end

lemma ends_well_weaken: "ends_well step n goal s \<Longrightarrow> n \<le> m \<Longrightarrow> ends_well step m goal s"
  unfolding ends_well_def by (meson order_trans)

text \<open>
  The contract of a refinement: a start state of the detailed component matches one of the abstract component, and what
  the detailed one does in a step the abstract one does in a number of steps. Then every reachable state of
  the detailed component matches a reachable state of the abstract one.
\<close>

locale forward_simulation =
  fixes start :: "'c \<Rightarrow> bool" and step :: "'c \<Rightarrow> error + 'c \<Rightarrow> bool"
    and astart :: "'a \<Rightarrow> bool" and astep :: "'a \<Rightarrow> error + 'a \<Rightarrow> bool" and matches :: "'c \<Rightarrow> 'a \<Rightarrow> bool"
  assumes sim_start: "start c \<Longrightarrow> \<exists>a. astart a \<and> matches c a"
    and sim_step: "reach astart astep a \<Longrightarrow> matches c a \<Longrightarrow> step c (Inr c') \<Longrightarrow>
      \<exists>a'. (\<lambda>a b. astep a (Inr b))\<^sup>*\<^sup>* a a' \<and> matches c' a'"
begin

lemma reach_matches: "reach start step c \<Longrightarrow> \<exists>a. reach astart astep a \<and> matches c a"
proof (induction rule: reach.induct)
  case (init c)
  then obtain a where "astart a" "matches c a" using sim_start by blast
  then show ?case by (intro exI [of _ a] conjI reach.init)
next
  case (step c c')
  then obtain a where a: "reach astart astep a" "matches c a" by blast
  obtain a' where "(\<lambda>a b. astep a (Inr b))\<^sup>*\<^sup>* a a'" "matches c' a'" using sim_step [OF a step.hyps(2)] by blast
  then show ?case using reach_steps [OF _ a(1)] by (intro exI [of _ a']) simp
qed

end

section \<open>Object representation and byte order\<close>

definition le_bytes :: "nat \<Rightarrow> 'a::len word \<Rightarrow> byte list" where
  "le_bytes n w = map (\<lambda>i. ucast (drop_bit (8 * i) w)) [0..<n]"

primrec of_le_bytes :: "byte list \<Rightarrow> 'a::len word" where
  "of_le_bytes [] = 0"
| "of_le_bytes (b # bs) = or (ucast b) (push_bit 8 (of_le_bytes bs))"

lemma length_le_bytes [simp]: "length (le_bytes n w) = n"
  by (simp add: le_bytes_def)

lemma bit_of_le_bytes:
  "bit (of_le_bytes bs :: 'a::len word) k \<longleftrightarrow>
     k < LENGTH('a) \<and> k div 8 < length bs \<and> bit (bs ! (k div 8)) (k mod 8)"
proof (induction bs arbitrary: k)
  case Nil
  then show ?case by simp
next
  case (Cons b bs)
  show ?case
  proof (cases "k < 8")
    case True
    then show ?thesis
      by (auto simp add: bit_or_iff bit_push_bit_iff bit_unsigned_iff)
  next
    case False
    then have d: "k div 8 = Suc ((k - 8) div 8)" and m: "k mod 8 = (k - 8) mod 8"
      by (auto simp add: le_div_geq le_mod_geq)
    have "\<not> bit (ucast b :: 'a word) k"
      using False bit_imp_le_length [of b k] by (auto simp add: bit_unsigned_iff)
    then show ?thesis
      using False by (auto simp add: bit_or_iff bit_push_bit_iff Cons.IH d m)
  qed
qed

lemma of_le_bytes_le_bytes:
  assumes "LENGTH('a) = 8 * n"
  shows "of_le_bytes (le_bytes n w) = (w :: 'a::len word)"
proof (rule bit_word_eqI)
  fix k assume k: "k < LENGTH('a)"
  then have "k div 8 < n" using assms by auto
  moreover have "k mod 8 < LENGTH(8)" by (simp add: less_Suc_eq_le [symmetric] mod_less_divisor)
  ultimately show "bit (of_le_bytes (le_bytes n w) :: 'a word) k \<longleftrightarrow> bit w k"
    using k by (auto simp add: bit_of_le_bytes le_bytes_def bit_unsigned_iff bit_drop_bit_eq
        add.commute mult.commute [of 8])
qed

lemma le_bytes_of_le_bytes:
  assumes "LENGTH('a) = 8 * n" and "length bs = n"
  shows "le_bytes n (of_le_bytes bs :: 'a::len word) = bs"
proof (rule nth_equalityI)
  show "length (le_bytes n (of_le_bytes bs :: 'a word)) = length bs"
    using assms by simp
next
  fix i assume "i < length (le_bytes n (of_le_bytes bs :: 'a word))"
  then have i: "i < n" by simp
  show "le_bytes n (of_le_bytes bs :: 'a word) ! i = bs ! i"
  proof (rule bit_word_eqI)
    fix k assume "k < LENGTH(8)"
    then have k: "k < 8" by simp
    then have "(8 * i + k) div 8 = i" and "(8 * i + k) mod 8 = k" and "8 * i + k < LENGTH('a)"
      using i assms(1) by auto
    then show "bit (le_bytes n (of_le_bytes bs :: 'a word) ! i) k \<longleftrightarrow> bit (bs ! i) k"
      using i k assms by (simp add: le_bytes_def bit_unsigned_iff bit_drop_bit_eq bit_of_le_bytes)
  qed
qed

text \<open>
  On a little-endian host \<open>htonl\<close> and \<open>htons\<close> reverse the bytes of their argument, and
  \<open>ntohl\<close>, \<open>ntohs\<close> are the same functions.
\<close>

definition htonl :: "uint32 \<Rightarrow> uint32" where
  "htonl w = of_le_bytes (rev (le_bytes 4 w))"

definition htons :: "uint16 \<Rightarrow> uint16" where
  "htons w = of_le_bytes (rev (le_bytes 2 w))"

definition ntohl :: "uint32 \<Rightarrow> uint32" where
  "ntohl w = htonl w"

definition ntohs :: "uint16 \<Rightarrow> uint16" where
  "ntohs w = htons w"

lemma le_bytes_htonl: "le_bytes 4 (htonl w) = rev (le_bytes 4 w)"
  by (simp add: htonl_def le_bytes_of_le_bytes)

lemma le_bytes_htons: "le_bytes 2 (htons w) = rev (le_bytes 2 w)"
  by (simp add: htons_def le_bytes_of_le_bytes)

lemma ntohl_htonl [simp]: "ntohl (htonl w) = w"
  by (simp add: ntohl_def htonl_def le_bytes_of_le_bytes of_le_bytes_le_bytes)

lemma ntohs_htons [simp]: "ntohs (htons w) = w"
  by (simp add: ntohs_def htons_def le_bytes_of_le_bytes of_le_bytes_le_bytes)

lemma of_le_bytes_htonl [simp]: "of_le_bytes (le_bytes 4 w) = (w :: uint32)"
  by (simp add: of_le_bytes_le_bytes)

lemma of_le_bytes_htons [simp]: "of_le_bytes (le_bytes 2 w) = (w :: uint16)"
  by (simp add: of_le_bytes_le_bytes)

lemma of_le_bytes_8 [simp]: "of_le_bytes (le_bytes 1 w) = (w :: byte)"
  by (simp add: of_le_bytes_le_bytes)

section \<open>Lists\<close>

lemma take_le_append: "n \<le> length xs \<Longrightarrow> take n (xs @ ys) = take n xs"
  by simp

lemma drop_le_append: "n \<le> length xs \<Longrightarrow> drop n (xs @ ys) = drop n xs @ ys"
  by simp

end
