(* ===== verification/Piece_Heap.thy ===== *)
theory Piece_Heap
  imports Prelude
begin

text \<open>
  The data of \<^verbatim>\<open>src/netpp/net/piece/piece_allocator.h\<close>: the \<open>Piece\<close>, a fixed array of
  4096 bytes with the window \<open>[off, off + len)\<close> in use, linked by \<open>next\<close>. Pieces live in
  an explicit heap, because the library moves them between queues, buffers and the pool by
  pointer, and several of its properties depend on who holds a pointer to what.

  The field \<open>next\<close> is called \<open>nxt\<close> here, since \<^theory_text>\<open>next\<close> is an Isar keyword.
  The off/len fields keep their width: they are 16-bit words.
\<close>

section \<open>Pieces\<close>

definition kPieceCapacity :: nat where
  "kPieceCapacity = 1024 * 4"

record piece =
  nxt :: "addr option"
  off :: uint16
  len :: uint16
  data :: "byte list"

type_synonym heap = "addr \<Rightarrow> piece option"

text \<open>
  A piece as \<open>new Piece\<close> leaves it before its fields are assigned: the array has its full
  size. Its bytes are indeterminate in C++; the model puts zeros there, and no theorem reads
  a byte outside the window in use.
\<close>

definition raw_piece :: piece where
  "raw_piece = \<lparr>nxt = None, off = 0, len = 0, data = replicate kPieceCapacity 0\<rparr>"

text \<open>Access through a pointer.\<close>

definition deref :: "addr option \<Rightarrow> heap \<Rightarrow> error + piece" where
  "deref p h = (case p of None \<Rightarrow> Inl NullDeref
     | Some a \<Rightarrow> (case h a of None \<Rightarrow> Inl UseAfterFree | Some c \<Rightarrow> Inr c))"

definition store :: "addr option \<Rightarrow> piece \<Rightarrow> heap \<Rightarrow> error + heap" where
  "store p c h = rbind (deref p h) (\<lambda>_. Inr (h(the p \<mapsto> c)))"

text \<open>\<open>delete p\<close>: nothing for a null pointer, an error for an object that is not alive.\<close>

definition free :: "addr option \<Rightarrow> heap \<Rightarrow> error + heap" where
  "free p h = (case p of None \<Rightarrow> Inr h
     | Some a \<Rightarrow> (case h a of None \<Rightarrow> Inl UseAfterFree | Some _ \<Rightarrow> Inr (h(a := None))))"

text \<open>
  \<open>memcpy\<close> out of and into the array of a piece, at a byte position, with the bounds of the
  array checked.
\<close>

definition copy_out :: "piece \<Rightarrow> nat \<Rightarrow> nat \<Rightarrow> error + byte list" where
  "copy_out c pos n = (if pos + n \<le> length (data c) then Inr (take n (drop pos (data c)))
     else Inl OutOfBounds)"

definition copy_in :: "nat \<Rightarrow> byte list \<Rightarrow> piece \<Rightarrow> error + piece" where
  "copy_in pos bs c = (if pos + length bs \<le> length (data c)
     then Inr (c\<lparr>data := take pos (data c) @ bs @ drop (pos + length bs) (data c)\<rparr>)
     else Inl OutOfBounds)"

section \<open>The bytes a piece carries\<close>

definition piece_ok :: "piece \<Rightarrow> bool" where
  "piece_ok c \<longleftrightarrow> length (data c) = kPieceCapacity \<and> unat (off c) + unat (len c) \<le> kPieceCapacity"

definition piece_bytes :: "piece \<Rightarrow> byte list" where
  "piece_bytes c = take (unat (len c)) (drop (unat (off c)) (data c))"

definition cell_ok :: "heap \<Rightarrow> addr \<Rightarrow> bool" where
  "cell_ok h a = (case h a of None \<Rightarrow> False | Some c \<Rightarrow> piece_ok c)"

definition cell_bytes :: "heap \<Rightarrow> addr \<Rightarrow> byte list" where
  "cell_bytes h a = (case h a of None \<Rightarrow> [] | Some c \<Rightarrow> piece_bytes c)"

definition chain_bytes :: "heap \<Rightarrow> addr list \<Rightarrow> byte list" where
  "chain_bytes h as = concat (map (cell_bytes h) as)"

text \<open>Everything of a heap but the links.\<close>

definition unlinked :: "heap \<Rightarrow> addr \<Rightarrow> piece option" where
  "unlinked h a = map_option (nxt_update (\<lambda>_. None)) (h a)"

section \<open>Lemmas\<close>

lemma deref_Some [mem_simps]: "h a = Some c \<Longrightarrow> deref (Some a) h = Inr c"
  by (simp add: deref_def)

lemma store_Some [mem_simps]: "h a = Some c \<Longrightarrow> store (Some a) c' h = Inr (h(a \<mapsto> c'))"
  by (simp add: store_def deref_def)

lemma free_Some [mem_simps]: "h a = Some c \<Longrightarrow> free (Some a) h = Inr (h(a := None))"
  by (simp add: free_def)

lemma copy_out_ok [mem_simps]:
  "pos + n \<le> length (data c) \<Longrightarrow> copy_out c pos n = Inr (take n (drop pos (data c)))"
  by (simp add: copy_out_def)

lemma copy_in_ok [mem_simps]:
  "pos + length bs \<le> length (data c) \<Longrightarrow>
   copy_in pos bs c = Inr (c\<lparr>data := take pos (data c) @ bs @ drop (pos + length bs) (data c)\<rparr>)"
  by (simp add: copy_in_def)

lemma length_piece_bytes [simp]: "piece_ok c \<Longrightarrow> length (piece_bytes c) = unat (len c)"
  by (auto simp add: piece_bytes_def piece_ok_def)

lemma piece_ok_nxt [simp]: "piece_ok (c\<lparr>nxt := p\<rparr>) = piece_ok c"
  by (simp add: piece_ok_def)

lemma piece_bytes_nxt [simp]: "piece_bytes (c\<lparr>nxt := p\<rparr>) = piece_bytes c"
  by (simp add: piece_bytes_def)

lemma unlink_eq_iff: "(c :: piece)\<lparr>nxt := None\<rparr> = d\<lparr>nxt := None\<rparr> \<longleftrightarrow>
    off c = off d \<and> len c = len d \<and> data c = data d"
  by (cases c; cases d) simp

lemma cell_ok_iff: "cell_ok h a \<longleftrightarrow> (\<exists>c. h a = Some c \<and> piece_ok c)"
  by (simp add: cell_ok_def split: option.splits)

lemma chain_bytes_Nil [simp]: "chain_bytes h [] = []"
  by (simp add: chain_bytes_def)

lemma chain_bytes_Cons [simp]: "chain_bytes h (a # as) = cell_bytes h a @ chain_bytes h as"
  by (simp add: chain_bytes_def)

lemma chain_bytes_append [simp]: "chain_bytes h (as @ bs) = chain_bytes h as @ chain_bytes h bs"
  by (simp add: chain_bytes_def)

lemma chain_bytes_cong: "(\<And>a. a \<in> set as \<Longrightarrow> h' a = h a) \<Longrightarrow> chain_bytes h' as = chain_bytes h as"
  by (simp add: chain_bytes_def cell_bytes_def cong: map_cong)

lemma cell_bytes_upd [simp]: "cell_bytes (h(a \<mapsto> c)) b = (if b = a then piece_bytes c else cell_bytes h b)"
  by (simp add: cell_bytes_def)

lemma cell_ok_upd [simp]: "cell_ok (h(a \<mapsto> c)) b = (if b = a then piece_ok c else cell_ok h b)"
  by (simp add: cell_ok_def)

lemma chain_bytes_upd_other [simp]: "a \<notin> set as \<Longrightarrow> chain_bytes (h(a := x)) as = chain_bytes h as"
  by (rule chain_bytes_cong) auto

lemma piece_ok_unlinked: "map_option (nxt_update (\<lambda>_. None)) x = map_option (nxt_update (\<lambda>_. None)) y \<Longrightarrow>
    (case x of None \<Rightarrow> False | Some c \<Rightarrow> piece_ok c) = (case y of None \<Rightarrow> False | Some c \<Rightarrow> piece_ok c) \<and>
    (case x of None \<Rightarrow> [] | Some c \<Rightarrow> piece_bytes c) = (case y of None \<Rightarrow> [] | Some c \<Rightarrow> piece_bytes c)"
  by (cases x; cases y) (auto, (metis piece_ok_nxt piece_bytes_nxt)+)

lemma cell_ok_unlinked: "unlinked h' a = unlinked h a \<Longrightarrow> cell_ok h' a = cell_ok h a"
  unfolding unlinked_def cell_ok_def by (drule piece_ok_unlinked) simp

lemma cell_bytes_unlinked: "unlinked h' a = unlinked h a \<Longrightarrow> cell_bytes h' a = cell_bytes h a"
  unfolding unlinked_def cell_bytes_def by (drule piece_ok_unlinked) simp

lemma chain_bytes_unlinked:
  "(\<And>a. a \<in> set as \<Longrightarrow> unlinked h' a = unlinked h a) \<Longrightarrow> chain_bytes h' as = chain_bytes h as"
  unfolding chain_bytes_def by (intro arg_cong [where f = concat] map_cong refl cell_bytes_unlinked)

lemma unlinked_upd_nxt: "h a = Some c \<Longrightarrow> unlinked (h(a \<mapsto> c\<lparr>nxt := p\<rparr>)) = unlinked h"
  by (rule ext) (simp add: unlinked_def)

lemma piece_ok_raw [simp]: "piece_ok raw_piece"
  by (simp add: piece_ok_def raw_piece_def)

text \<open>The effect of the three window updates the buffer code performs.\<close>

lemma piece_append:
  assumes ok: "piece_ok c" and room: "unat (off c) + unat (len c) + length bs \<le> kPieceCapacity"
  defines "pos \<equiv> unat (off c) + unat (len c)"
  defines "c' \<equiv> c\<lparr>data := take pos (data c) @ bs @ drop (pos + length bs) (data c),
                  len := len c + word_of_nat (length bs)\<rparr>"
  shows "piece_ok c'" and "piece_bytes c' = piece_bytes c @ bs"
proof -
  have cap: "kPieceCapacity = 4096" by (simp add: kPieceCapacity_def)
  have l: "unat (len c') = unat (len c) + length bs"
    using room by (simp add: c'_def cap)
  show "piece_ok c'"
    using ok room l by (simp add: piece_ok_def c'_def pos_def)
  show "piece_bytes c' = piece_bytes c @ bs"
    using ok room l by (simp add: piece_bytes_def piece_ok_def c'_def pos_def drop_take)
qed

lemma piece_consume:
  assumes ok: "piece_ok c" and n: "n \<le> unat (len c)"
  defines "c' \<equiv> c\<lparr>off := off c + word_of_nat n, len := len c - word_of_nat n\<rparr>"
  shows "piece_ok c'" and "piece_bytes c' = drop n (piece_bytes c)"
proof -
  have cap: "kPieceCapacity = 4096" by (simp add: kPieceCapacity_def)
  have o: "unat (off c') = unat (off c) + n"
    using ok n by (simp add: c'_def cap piece_ok_def)
  have l: "unat (len c') = unat (len c) - n"
    using n by (simp add: c'_def)
  show "piece_ok c'"
    using ok n o l by (simp add: piece_ok_def c'_def)
  show "piece_bytes c' = drop n (piece_bytes c)"
    using n o l by (simp add: piece_bytes_def c'_def drop_take add.commute)
qed

lemma piece_prepend:
  assumes ok: "piece_ok c" and room: "length bs \<le> unat (off c)"
  defines "pos \<equiv> unat (off c) - length bs"
  defines "c' \<equiv> c\<lparr>off := off c - word_of_nat (length bs),
                  data := take pos (data c) @ bs @ drop (pos + length bs) (data c),
                  len := len c + word_of_nat (length bs)\<rparr>"
  shows "piece_ok c'" and "piece_bytes c' = bs @ piece_bytes c"
proof -
  have cap: "kPieceCapacity = 4096" by (simp add: kPieceCapacity_def)
  have o: "unat (off c') = pos" using room by (simp add: c'_def pos_def)
  have l: "unat (len c') = unat (len c) + length bs"
    using ok room by (simp add: c'_def cap piece_ok_def)
  show "piece_ok c'"
    using ok room o l by (auto simp add: piece_ok_def c'_def pos_def)
  have len_pos: "length (take pos (data c)) = pos"
    using ok room by (auto simp add: pos_def piece_ok_def)
  have "piece_bytes c' = take (unat (len c) + length bs) (bs @ drop (pos + length bs) (data c))"
    using o l len_pos by (simp add: piece_bytes_def c'_def)
  also have "pos + length bs = unat (off c)" using room by (simp add: pos_def)
  finally show "piece_bytes c' = bs @ piece_bytes c"
    by (simp add: piece_bytes_def)
qed

end
