(* ===== verification/Piece_Queue.thy ===== *)
theory Piece_Queue
  imports Piece_Heap
begin

text \<open>
  The intrusive singly linked queue of \<^verbatim>\<open>src/netpp/net/piece/queue.h\<close>. The record
  \<open>queue\<close> has the three fields of the class (\<open>head_\<close>, \<open>tail_\<close> and \<open>size_\<close>); \<open>Buffer\<close> extends it, as the C++ class
  derives from \<open>Queue<Piece>\<close>. The operations take and return the heap that holds the
  links. \<open>queue_rep h q as\<close> says that in heap \<open>h\<close> the queue \<open>q\<close> is the list of
  piece addresses \<open>as\<close>; the locale \<open>linked_fifo\<close> is the contract the buffer and the
  pool rely on.
\<close>

section \<open>The class\<close>

record queue =
  qhead :: "addr option"
  qtail :: "addr option"
  qsize :: uint32

definition Queue_new :: queue where
  "Queue_new = \<lparr>qhead = None, qtail = None, qsize = 0\<rparr>"

definition Queue_empty :: "'a queue_scheme \<Rightarrow> bool" where
  "Queue_empty q = (qsize q = 0)"

definition Queue_size :: "'a queue_scheme \<Rightarrow> uint32" where
  "Queue_size q = qsize q"

definition Queue_front :: "'a queue_scheme \<Rightarrow> addr option" where
  "Queue_front q = qhead q"

definition Queue_back :: "'a queue_scheme \<Rightarrow> addr option" where
  "Queue_back q = qtail q"

definition Queue_push :: "addr option \<Rightarrow> 'a queue_scheme \<Rightarrow> heap \<Rightarrow> error + ('a queue_scheme \<times> heap)" where
  "Queue_push item q h =
     rbind (cassert (item \<noteq> None)) (\<lambda>_.
     rbind (deref item h) (\<lambda>c.
     rbind (store item (c\<lparr>nxt := None\<rparr>) h) (\<lambda>h1.
     rbind (case qtail q of
              Some t \<Rightarrow> rbind (deref (Some t) h1) (\<lambda>d.
                        rbind (store (Some t) (d\<lparr>nxt := item\<rparr>) h1) (\<lambda>h2. Inr (q, h2)))
            | None \<Rightarrow> rbind (cassert (qhead q = None)) (\<lambda>_. Inr (q\<lparr>qhead := item\<rparr>, h1)))
       (\<lambda>(q1, h2). Inr (q1\<lparr>qtail := item, qsize := qsize q1 + 1\<rparr>, h2)))))"

definition Queue_pop :: "'a queue_scheme \<Rightarrow> heap \<Rightarrow> error + (addr option \<times> 'a queue_scheme)" where
  "Queue_pop q h = (case qhead q of
     None \<Rightarrow> Inr (None, q)
   | Some a \<Rightarrow> rbind (deref (Some a) h) (\<lambda>c.
       Inr (Some a, q\<lparr>qhead := nxt c, qtail := (if nxt c = None then None else qtail q),
                      qsize := qsize q - 1\<rparr>)))"

section \<open>The list a queue represents\<close>

primrec chain :: "heap \<Rightarrow> addr option \<Rightarrow> addr list \<Rightarrow> addr option \<Rightarrow> bool" where
  "chain h p [] q = (p = q)"
| "chain h p (a # as) q = (p = Some a \<and> (case h a of None \<Rightarrow> False | Some c \<Rightarrow> chain h (nxt c) as q))"

definition queue_rep :: "heap \<Rightarrow> 'a queue_scheme \<Rightarrow> addr list \<Rightarrow> bool" where
  "queue_rep h q as \<longleftrightarrow> chain h (qhead q) as None
     \<and> qtail q = (if as = [] then None else Some (last as))
     \<and> qsize q = word_of_nat (length as)"

lemma chain_append [simp]: "chain h p (as @ bs) q = (\<exists>r. chain h p as r \<and> chain h r bs q)"
  by (induction as arbitrary: p) (auto split: option.splits)

lemma chain_None [simp]: "chain h None as q = (as = [] \<and> q = None)"
  by (cases as) auto

lemma chain_alive: "chain h p as q \<Longrightarrow> a \<in> set as \<Longrightarrow> \<exists>c. h a = Some c"
  by (induction as arbitrary: p) (auto split: option.splits)

lemma chain_cong:
  "(\<And>a. a \<in> set as \<Longrightarrow> map_option nxt (h' a) = map_option nxt (h a)) \<Longrightarrow> chain h' p as q = chain h p as q"
proof (induction as arbitrary: p)
  case Nil
  then show ?case by simp
next
  case (Cons a as)
  have "map_option nxt (h' a) = map_option nxt (h a)" using Cons.prems by simp
  moreover have "chain h' r as q = chain h r as q" for r
    by (rule Cons.IH) (rule Cons.prems, simp)
  ultimately show ?case by (cases "h a"; cases "h' a") simp_all
qed

lemma chain_unique: "chain h p as None \<Longrightarrow> chain h p bs None \<Longrightarrow> as = bs"
proof (induction as arbitrary: p bs)
  case Nil
  then show ?case by simp
next
  case (Cons a as)
  then show ?case by (cases bs) (auto split: option.splits)
qed

lemma chain_distinct: "chain h p as None \<Longrightarrow> distinct as"
proof (induction as arbitrary: p)
  case Nil
  then show ?case by simp
next
  case (Cons a as)
  then obtain c where c: "h a = Some c" "chain h (nxt c) as None" by (auto split: option.splits)
  have "a \<notin> set as"
  proof
    assume "a \<in> set as"
    then obtain xs ys where "as = xs @ a # ys" by (auto simp: in_set_conv_decomp)
    with c have "chain h (nxt c) ys None" by (auto split: option.splits)
    with c(2) have "as = ys" by (rule chain_unique)
    with \<open>as = xs @ a # ys\<close> show False by simp
  qed
  with Cons.IH c show ?case by auto
qed

lemma queue_rep_distinct: "queue_rep h q as \<Longrightarrow> distinct as"
  by (auto simp: queue_rep_def dest: chain_distinct)

lemma queue_rep_alive: "queue_rep h q as \<Longrightarrow> a \<in> set as \<Longrightarrow> \<exists>c. h a = Some c"
  by (auto simp: queue_rep_def dest: chain_alive)

lemma queue_rep_cong:
  "(\<And>a. a \<in> set as \<Longrightarrow> map_option nxt (h' a) = map_option nxt (h a)) \<Longrightarrow> queue_rep h' q as = queue_rep h q as"
  by (simp add: queue_rep_def cong: chain_cong)

lemma queue_rep_upd [simp]:
  "h a = Some c \<Longrightarrow> nxt c' = nxt c \<Longrightarrow> queue_rep (h(a \<mapsto> c')) q as = queue_rep h q as"
  by (rule queue_rep_cong) auto

lemma queue_rep_upd_other [simp]: "a \<notin> set as \<Longrightarrow> queue_rep (h(a := x)) q as = queue_rep h q as"
  by (rule queue_rep_cong) auto

lemma queue_rep_fields: "qhead q' = qhead q \<Longrightarrow> qtail q' = qtail q \<Longrightarrow> qsize q' = qsize q \<Longrightarrow>
    queue_rep h q' as = queue_rep h q as"
  by (simp add: queue_rep_def)

lemma queue_rep_new [simp]: "queue_rep h Queue_new as = (as = [])"
  by (auto simp: queue_rep_def Queue_new_def)

lemma Queue_front_rep: "queue_rep h q as \<Longrightarrow> Queue_front q = (case as of [] \<Rightarrow> None | a # _ \<Rightarrow> Some a)"
  by (cases as) (auto simp: queue_rep_def Queue_front_def)

lemma Queue_back_rep: "queue_rep h q as \<Longrightarrow> Queue_back q = (if as = [] then None else Some (last as))"
  by (auto simp: queue_rep_def Queue_back_def)

lemma Queue_empty_rep: "queue_rep h q as \<Longrightarrow> length as < 2 ^ 32 \<Longrightarrow> Queue_empty q = (as = [])"
  by (auto simp: queue_rep_def Queue_empty_def word_of_nat_eq_0_iff dest: dvd_imp_le)

section \<open>Push and pop\<close>

lemma Queue_pop_Nil: "queue_rep h q [] \<Longrightarrow> Queue_pop q h = Inr (None, q)"
  by (simp add: queue_rep_def Queue_pop_def)

lemma Queue_pop_Cons:
  assumes "queue_rep h q (a # as)"
  shows "\<exists>q'. Queue_pop q h = Inr (Some a, q') \<and> queue_rep h q' as \<and> queue.more q' = queue.more q"
proof -
  from assms obtain c where "h a = Some c" "chain h (nxt c) as None" "qhead q = Some a"
    by (auto simp: queue_rep_def split: option.splits)
  with assms show ?thesis
    by (cases as) (auto simp: queue_rep_def Queue_pop_def mem_simps)
qed

lemma chain_snoc:
  assumes "chain h p (as @ [b]) None" and "a \<notin> set (as @ [b])" and "h b = Some d"
  shows "chain (h(a \<mapsto> c\<lparr>nxt := None\<rparr>, b \<mapsto> d\<lparr>nxt := Some a\<rparr>)) p (as @ [b, a]) None"
proof -
  let ?h = "h(a \<mapsto> c\<lparr>nxt := None\<rparr>, b \<mapsto> d\<lparr>nxt := Some a\<rparr>)"
  have "distinct (as @ [b])" using assms(1) by (rule chain_distinct)
  then have "chain ?h p as r = chain h p as r" for r
    using assms(2) by (intro chain_cong) auto
  moreover have "chain h p as (Some b)" using assms(1) by auto
  ultimately show ?thesis using assms(2) by auto
qed

lemma Queue_push_rep:
  assumes rep: "queue_rep h q as" and a: "h a = Some c" and new: "a \<notin> set as"
  shows "\<exists>q' h'. Queue_push (Some a) q h = Inr (q', h') \<and> queue_rep h' q' (as @ [a])
     \<and> unlinked h' = unlinked h \<and> (\<forall>x. x \<notin> insert a (set as) \<longrightarrow> h' x = h x)
     \<and> queue.more q' = queue.more q"
proof (cases as rule: rev_cases)
  case Nil
  with rep a show ?thesis
    by (auto simp: queue_rep_def Queue_push_def mem_simps unlinked_upd_nxt)
next
  case (snoc bs b)
  with rep obtain d where d: "h b = Some d"
    by (metis queue_rep_alive last_in_set snoc_eq_iff_butlast last_snoc)
  have ab: "a \<noteq> b" using new snoc by auto
  let ?h = "h(a \<mapsto> c\<lparr>nxt := None\<rparr>, b \<mapsto> d\<lparr>nxt := Some a\<rparr>)"
  have "qtail q = Some b" using rep snoc by (simp add: queue_rep_def)
  then have run: "Queue_push (Some a) q h = Inr (q\<lparr>qtail := Some a, qsize := qsize q + 1\<rparr>, ?h)"
    using a d ab by (simp add: Queue_push_def mem_simps)
  have "chain ?h (qhead q) (bs @ [b, a]) None"
    using rep snoc new d by (intro chain_snoc) (auto simp: queue_rep_def)
  then have "queue_rep ?h (q\<lparr>qtail := Some a, qsize := qsize q + 1\<rparr>) (as @ [a])"
    using rep snoc by (simp add: queue_rep_def)
  moreover have "unlinked ?h = unlinked h"
    using a d ab by (auto simp: unlinked_def)
  ultimately show ?thesis using run snoc by auto
qed

section \<open>The contract of a queue\<close>

text \<open>
  What the pool and the buffers rely on: push adds at the back, pop removes at the front, an
  empty queue pops a null pointer. \<open>pops\<close> is the loop of \<open>n\<close> consecutive pops.
\<close>

primrec pops :: "('q \<Rightarrow> 'h \<Rightarrow> error + ('a option \<times> 'q)) \<Rightarrow> nat \<Rightarrow> 'q \<Rightarrow> 'h \<Rightarrow> error + ('a option list \<times> 'q)" where
  "pops pop 0 q h = Inr ([], q)"
| "pops pop (Suc n) q h = rbind (pop q h) (\<lambda>(x, q1).
     rbind (pops pop n q1 h) (\<lambda>(xs, q2). Inr (x # xs, q2)))"

locale linked_fifo =
  fixes rep :: "'h \<Rightarrow> 'q \<Rightarrow> 'a list \<Rightarrow> bool"
    and alive :: "'h \<Rightarrow> 'a \<Rightarrow> bool"
    and push :: "'a option \<Rightarrow> 'q \<Rightarrow> 'h \<Rightarrow> error + ('q \<times> 'h)"
    and pop :: "'q \<Rightarrow> 'h \<Rightarrow> error + ('a option \<times> 'q)"
  assumes push_law: "rep h q xs \<Longrightarrow> alive h x \<Longrightarrow> x \<notin> set xs \<Longrightarrow>
      \<exists>q' h'. push (Some x) q h = Inr (q', h') \<and> rep h' q' (xs @ [x]) \<and> (\<forall>y. alive h' y = alive h y)"
    and pop_Nil_law: "rep h q [] \<Longrightarrow> pop q h = Inr (None, q)"
    and pop_Cons_law: "rep h q (x # xs) \<Longrightarrow> \<exists>q'. pop q h = Inr (Some x, q') \<and> rep h q' xs"
begin

lemma pops_take:
  "rep h q xs \<Longrightarrow> n \<le> length xs \<Longrightarrow>
   \<exists>q'. pops pop n q h = Inr (map Some (take n xs), q') \<and> rep h q' (drop n xs)"
proof (induction n arbitrary: q xs)
  case 0
  then show ?case by simp
next
  case (Suc n)
  then obtain x ys where xs: "xs = x # ys" by (cases xs) auto
  with Suc.prems obtain q1 where q1: "pop q h = Inr (Some x, q1)" "rep h q1 ys"
    using pop_Cons_law by blast
  then obtain q2 where "pops pop n q1 h = Inr (map Some (take n ys), q2)" "rep h q2 (drop n ys)"
    using Suc xs by fastforce
  with q1 xs show ?case by simp
qed

lemma push_then_drain:
  assumes "rep h q xs" and "alive h x" and "x \<notin> set xs"
  shows "\<exists>q' h' q''. push (Some x) q h = Inr (q', h')
     \<and> pops pop (Suc (length xs)) q' h' = Inr (map Some (xs @ [x]), q'') \<and> rep h' q'' []"
proof -
  obtain q' h' where push: "push (Some x) q h = Inr (q', h')" and rep': "rep h' q' (xs @ [x])"
    using push_law [OF assms] by blast
  from pops_take [OF rep', of "Suc (length xs)"] push show ?thesis by force
qed

end

interpretation piece_fifo: linked_fifo queue_rep "\<lambda>h a. a \<in> dom h" Queue_push Queue_pop
proof
  show "\<exists>q' h'. Queue_push (Some x) q h = Inr (q', h') \<and> queue_rep h' q' (xs @ [x])
      \<and> (\<forall>y. (y \<in> dom h') = (y \<in> dom h))"
    if "queue_rep h q xs" "x \<in> dom h" "x \<notin> set xs"
    for h and q :: "'a queue_scheme" and xs x
  proof -
    obtain c where "h x = Some c" using \<open>x \<in> dom h\<close> by (auto simp: dom_def)
    with that obtain q' h' where run: "Queue_push (Some x) q h = Inr (q', h')" "queue_rep h' q' (xs @ [x])"
      and u: "unlinked h' = unlinked h"
      using Queue_push_rep by blast
    have "(y \<in> dom h') = (y \<in> dom h)" for y
      using fun_cong [OF u, of y] by (cases "h y"; cases "h' y") (simp_all add: unlinked_def dom_def)
    with run show ?thesis by blast
  qed
  show "Queue_pop q h = Inr (None, q)" if "queue_rep h q []" for h and q :: "'a queue_scheme"
    using that by (rule Queue_pop_Nil)
  show "\<exists>q'. Queue_pop q h = Inr (Some x, q') \<and> queue_rep h q' xs"
    if "queue_rep h q (x # xs)" for h and q :: "'a queue_scheme" and x xs
    using Queue_pop_Cons [OF that] by blast
qed

end
