(* ===== verification/Piece_Pool.thy ===== *)
theory Piece_Pool
  imports Piece_Queue
begin

text \<open>
  The piece allocator of \<^verbatim>\<open>src/netpp/net/piece/piece_allocator.cpp\<close>: the class
  \<open>PiecePool\<close> and its global instance \<open>pool_\<close>. The state \<open>mem\<close> is the heap of
  pieces, the bump pointer from which \<open>new Piece\<close> takes addresses that were never used
  before, and the pool. Each member function runs under the pool's mutex, so one step of the
  model is one call; the deletions after the critical section touch only pieces that no one
  else holds.

  \<open>mem_inv m F\<close> is the invariant of the allocator when the client holds exactly the pieces
  \<open>F\<close>: the cache is a well-formed queue, disjoint from what the client holds, every piece in
  either has a full-size array, and addresses above the bump pointer are free.
\<close>

section \<open>State and operations\<close>

record piecepool =
  pqueue :: queue
  using_count :: uint32

record mem =
  cells :: heap
  brk :: addr
  pool :: piecepool

definition MAX_DELETE_ONCE :: uint32 where "MAX_DELETE_ONCE = 8"
definition BASE_CACHE_COUNT :: uint32 where "BASE_CACHE_COUNT = 8"

definition PiecePool_new :: piecepool where
  "PiecePool_new = \<lparr>pqueue = Queue_new, using_count = 0\<rparr>"

definition mem_start :: mem where
  "mem_start = \<lparr>cells = (\<lambda>_. None), brk = 0, pool = PiecePool_new\<rparr>"

definition newPiece :: "mem \<Rightarrow> error + (addr option \<times> mem)" where
  "newPiece m =
     rbind (Queue_pop (pqueue (pool m)) (cells m)) (\<lambda>(item, q).
     let m1 = m\<lparr>pool := \<lparr>pqueue = q, using_count = using_count (pool m) + 1\<rparr>\<rparr> in
     if item \<noteq> None
     then rbind (deref item (cells m1)) (\<lambda>c.
          rbind (store item (c\<lparr>nxt := None, off := 0, len := 0\<rparr>) (cells m1)) (\<lambda>h.
          Inr (item, m1\<lparr>cells := h\<rparr>)))
     else Inr (Some (brk m1), m1\<lparr>cells := (cells m1)(brk m1 \<mapsto> raw_piece\<lparr>nxt := None, off := 0, len := 0\<rparr>),
                                 brk := Suc (brk m1)\<rparr>))"

primrec free_all :: "addr option list \<Rightarrow> heap \<Rightarrow> error + heap" where
  "free_all [] h = Inr h"
| "free_all (p # ps) h = rbind (free p h) (free_all ps)"

definition deletePiece :: "addr option \<Rightarrow> mem \<Rightarrow> error + mem" where
  "deletePiece item m =
     (let u = using_count (pool m) - 1;
          q = pqueue (pool m);
          limit = u + BASE_CACHE_COUNT
      in if qsize q < limit
         then rbind (Queue_push item q (cells m)) (\<lambda>(q1, h).
              Inr (m\<lparr>cells := h, pool := \<lparr>pqueue = q1, using_count = u\<rparr>\<rparr>))
         else let n = qsize q - limit + 1;
                  del_count = (if n > MAX_DELETE_ONCE then MAX_DELETE_ONCE else n)
              in rbind (pops Queue_pop (unat del_count - 1) q (cells m)) (\<lambda>(popped, q1).
                 let del_array = item # popped in
                 rbind (free_all (take (unat del_count) del_array) (cells m)) (\<lambda>h.
                 Inr (m\<lparr>cells := h, pool := \<lparr>pqueue = q1, using_count = u\<rparr>\<rparr>))))"

text \<open>\<open>PiecePool::clear\<close>: pop and delete until the queue is empty, at most \<open>size_\<close> times.\<close>

primrec PiecePool_clear_loop :: "nat \<Rightarrow> mem \<Rightarrow> error + mem" where
  "PiecePool_clear_loop 0 m = (if Queue_empty (pqueue (pool m)) then Inr m else Inl Diverges)"
| "PiecePool_clear_loop (Suc n) m =
     (if Queue_empty (pqueue (pool m)) then Inr m
      else rbind (Queue_pop (pqueue (pool m)) (cells m)) (\<lambda>(item, q).
           rbind (free item (cells m)) (\<lambda>h.
           PiecePool_clear_loop n (m\<lparr>cells := h, pool := (pool m)\<lparr>pqueue := q\<rparr>\<rparr>))))"

definition PiecePool_clear :: "mem \<Rightarrow> error + mem" where
  "PiecePool_clear m = PiecePool_clear_loop (unat (qsize (pqueue (pool m)))) m"

definition PiecePool_delete :: "mem \<Rightarrow> error + mem" where
  "PiecePool_delete m = PiecePool_clear m"

section \<open>The invariant\<close>

definition full_size :: "heap \<Rightarrow> addr \<Rightarrow> bool" where
  "full_size h a = (case h a of None \<Rightarrow> False | Some c \<Rightarrow> length (data c) = kPieceCapacity)"

definition cache_rep :: "mem \<Rightarrow> addr set \<Rightarrow> addr list \<Rightarrow> bool" where
  "cache_rep m F ps \<longleftrightarrow> queue_rep (cells m) (pqueue (pool m)) ps
     \<and> length ps < 2 ^ 32 \<and> set ps \<inter> F = {}
     \<and> (\<forall>a \<in> F \<union> set ps. full_size (cells m) a)
     \<and> (\<forall>a. brk m \<le> a \<longrightarrow> cells m a = None)"

definition mem_inv :: "mem \<Rightarrow> addr set \<Rightarrow> bool" where
  "mem_inv m F \<longleftrightarrow> (\<exists>ps. cache_rep m F ps)"

definition frame :: "mem \<Rightarrow> mem \<Rightarrow> addr set \<Rightarrow> bool" where
  "frame m m' F \<longleftrightarrow> (\<forall>a \<in> F. cells m' a = cells m a)"

text \<open>The cache never holds more pieces than the client, but for a slack of eight.\<close>

definition pool_bounded :: "mem \<Rightarrow> bool" where
  "pool_bounded m \<longleftrightarrow> unat (qsize (pqueue (pool m))) \<le> unat (using_count (pool m)) + 8"

lemma frame_refl [simp]: "frame m m F"
  by (simp add: frame_def)

lemma frame_trans [trans]: "frame m m' F \<Longrightarrow> frame m' m'' F \<Longrightarrow> frame m m'' F"
  by (simp add: frame_def)

lemma frame_mono: "frame m m' F \<Longrightarrow> G \<subseteq> F \<Longrightarrow> frame m m' G"
  by (auto simp: frame_def)

lemma full_size_iff: "full_size h a \<longleftrightarrow> (\<exists>c. h a = Some c \<and> length (data c) = kPieceCapacity)"
  by (simp add: full_size_def split: option.splits)

lemma full_size_unlinked: "unlinked h' a = unlinked h a \<Longrightarrow> full_size h' a = full_size h a"
  by (cases "h a"; cases "h' a") (simp_all add: full_size_def unlinked_def unlink_eq_iff)

lemma unlinked_None: "unlinked h a = None \<longleftrightarrow> h a = None"
  by (simp add: unlinked_def)

lemma mem_inv_start: "mem_inv mem_start {}"
  unfolding mem_inv_def cache_rep_def
  by (rule exI [of _ "[]"]) (simp add: mem_start_def PiecePool_new_def)

lemma mem_inv_alive: "mem_inv m F \<Longrightarrow> a \<in> F \<Longrightarrow> \<exists>c. cells m a = Some c \<and> length (data c) = kPieceCapacity"
  by (auto simp: mem_inv_def cache_rep_def full_size_iff)

lemma mem_inv_mono: "mem_inv m F \<Longrightarrow> G \<subseteq> F \<Longrightarrow> mem_inv m G"
  unfolding mem_inv_def cache_rep_def by blast

text \<open>The client may write the pieces it holds, as long as the arrays keep their size.\<close>

lemma mem_inv_upd:
  assumes "mem_inv m F" and "a \<in> F" and "length (data c) = kPieceCapacity"
  shows "mem_inv (m\<lparr>cells := (cells m)(a \<mapsto> c)\<rparr>) F"
proof -
  obtain ps where ps: "cache_rep m F ps" using assms(1) by (auto simp: mem_inv_def)
  moreover obtain d where "cells m a = Some d" using assms(1,2) mem_inv_alive by blast
  moreover have "a \<notin> set ps" using ps assms(2) by (auto simp: cache_rep_def)
  ultimately have "cache_rep (m\<lparr>cells := (cells m)(a \<mapsto> c)\<rparr>) F ps"
    using assms(2,3) by (auto simp: cache_rep_def full_size_def)
  then show ?thesis by (auto simp: mem_inv_def)
qed

section \<open>Allocation\<close>

lemma newPiece_ok:
  assumes "mem_inv m F"
  shows "\<exists>a m' c. newPiece m = Inr (Some a, m') \<and> a \<notin> F \<and> mem_inv m' (insert a F)
     \<and> cells m' a = Some c \<and> nxt c = None \<and> off c = 0 \<and> len c = 0 \<and> length (data c) = kPieceCapacity
     \<and> frame m m' F"
proof -
  obtain ps where ps: "cache_rep m F ps" using assms by (auto simp: mem_inv_def)
  show ?thesis
  proof (cases ps)
    case Nil
    let ?c = "raw_piece\<lparr>nxt := None, off := 0, len := 0\<rparr>"
    let ?m = "m\<lparr>cells := (cells m)(brk m \<mapsto> ?c), brk := Suc (brk m),
        pool := \<lparr>pqueue = pqueue (pool m), using_count = using_count (pool m) + 1\<rparr>\<rparr>"
    have fresh: "brk m \<notin> F"
    proof
      assume "brk m \<in> F"
      with ps have "full_size (cells m) (brk m)" and "cells m (brk m) = None" by (auto simp: cache_rep_def)
      then show False by (simp add: full_size_def)
    qed
    have run: "newPiece m = Inr (Some (brk m), ?m)"
      using ps Nil by (simp add: cache_rep_def newPiece_def Queue_pop_Nil)
    have "cache_rep ?m (insert (brk m) F) []"
      using ps Nil fresh by (auto simp: cache_rep_def full_size_def raw_piece_def)
    moreover have "frame m ?m F" using fresh by (auto simp: frame_def)
    ultimately show ?thesis
      using run fresh by (auto simp: mem_inv_def raw_piece_def)
  next
    case (Cons a qs)
    with ps have rep: "queue_rep (cells m) (pqueue (pool m)) (a # qs)" by (simp add: cache_rep_def)
    then obtain q where q: "Queue_pop (pqueue (pool m)) (cells m) = Inr (Some a, q)"
      and rep': "queue_rep (cells m) q qs"
      using Queue_pop_Cons by blast
    obtain d where d: "cells m a = Some d" "length (data d) = kPieceCapacity"
      using ps Cons by (auto simp: cache_rep_def full_size_iff)
    let ?c = "d\<lparr>nxt := None, off := 0, len := 0\<rparr>"
    let ?m = "m\<lparr>cells := (cells m)(a \<mapsto> ?c),
        pool := \<lparr>pqueue = q, using_count = using_count (pool m) + 1\<rparr>\<rparr>"
    have run: "newPiece m = Inr (Some a, ?m)"
      using q d by (simp add: newPiece_def mem_simps)
    have aqs: "a \<notin> set qs" using rep by (auto dest: queue_rep_distinct)
    have aF: "a \<notin> F" using ps Cons by (auto simp: cache_rep_def)
    have "brk m \<le> x \<longrightarrow> x \<noteq> a" for x using ps d by (auto simp: cache_rep_def)
    then have "cache_rep ?m (insert a F) qs"
      using ps Cons rep' aqs d by (auto simp: cache_rep_def full_size_def)
    moreover have "frame m ?m F" using aF by (auto simp: frame_def)
    ultimately show ?thesis using run aF d by (auto simp: mem_inv_def)
  qed
qed

section \<open>Release\<close>

lemma free_all_ok:
  "distinct xs \<Longrightarrow> (\<forall>a \<in> set xs. \<exists>c. h a = Some c) \<Longrightarrow>
   free_all (map Some xs) h = Inr (\<lambda>x. if x \<in> set xs then None else h x)"
proof (induction xs arbitrary: h)
  case Nil
  then show ?case by simp
next
  case (Cons a xs)
  then obtain c where c: "h a = Some c" by auto
  have "free_all (map Some xs) (h(a := None)) = Inr (\<lambda>x. if x \<in> set xs then None else (h(a := None)) x)"
    using Cons.prems by (intro Cons.IH) auto
  then show ?case using c by (auto simp: mem_simps fun_eq_iff)
qed

lemma delete_count_le:
  fixes s l :: uint32
  assumes "\<not> s < l"
  shows "unat (if s - l + 1 > MAX_DELETE_ONCE then MAX_DELETE_ONCE else s - l + 1) - 1 \<le> unat s - unat l"
proof -
  have le: "l \<le> s" using assms by simp
  then have sub: "unat (s - l) = unat s - unat l" by (simp add: unat_sub)
  have "unat (s - l + 1) \<le> unat (s - l) + 1" by (simp add: unat_word_ariths)
  moreover have "unat (if s - l + 1 > MAX_DELETE_ONCE then MAX_DELETE_ONCE else s - l + 1) \<le> unat (s - l + 1)"
    by (simp add: word_less_nat_alt)
  ultimately show ?thesis using sub by linarith
qed

lemma deletePiece_cached:
  assumes ps: "cache_rep m (insert a F) ps" and aF: "a \<notin> F" and c: "cells m a = Some c"
    and room: "qsize (pqueue (pool m)) < using_count (pool m) - 1 + BASE_CACHE_COUNT"
  shows "\<exists>m' d. deletePiece (Some a) m = Inr m' \<and> cache_rep m' F (ps @ [a]) \<and> frame m m' F
     \<and> cells m' a = Some d \<and> len d = len c
     \<and> using_count (pool m') = using_count (pool m) - 1"
proof -
  have aps: "a \<notin> set ps" using ps by (auto simp: cache_rep_def)
  obtain q' h' where run: "Queue_push (Some a) (pqueue (pool m)) (cells m) = Inr (q', h')"
    and rep: "queue_rep h' q' (ps @ [a])" and u: "unlinked h' = unlinked (cells m)"
    and fr: "\<forall>x. x \<notin> insert a (set ps) \<longrightarrow> h' x = cells m x"
    using Queue_push_rep [of "cells m" "pqueue (pool m)" ps a c] c aps ps by (auto simp: cache_rep_def)
  let ?m = "m\<lparr>cells := h', pool := \<lparr>pqueue = q', using_count = using_count (pool m) - 1\<rparr>\<rparr>"
  have "unat (qsize (pqueue (pool m))) = length ps"
    using ps by (simp add: cache_rep_def queue_rep_def)
  then have "length ps < unat (using_count (pool m) - 1 + BASE_CACHE_COUNT)"
    using room by (simp add: word_less_nat_alt)
  moreover have "unat (using_count (pool m) - 1 + BASE_CACHE_COUNT) < 2 ^ 32"
    using unsigned_less [where 'a = nat and 'b = 32] by simp
  ultimately have len: "length (ps @ [a]) < 2 ^ 32" by simp
  have fs: "full_size h' x = full_size (cells m) x" for x
    by (rule full_size_unlinked) (simp add: u)
  have dead: "h' x = None \<longleftrightarrow> cells m x = None" for x
    by (metis u unlinked_None)
  have "cache_rep ?m F (ps @ [a])"
    using ps rep len fs dead aF by (auto simp: cache_rep_def)
  moreover have "frame m ?m F" using ps fr aF by (auto simp: frame_def cache_rep_def)
  moreover have "\<exists>d. h' a = Some d \<and> len d = len c"
    using fun_cong [OF u, of a] c by (cases "h' a") (simp_all add: unlinked_def unlink_eq_iff)
  moreover have "deletePiece (Some a) m = Inr ?m"
    using room run by (simp add: deletePiece_def Let_def)
  ultimately show ?thesis by auto
qed

text \<open>The cache without its first \<open>n\<close> pieces, when these and the released piece \<open>a\<close> may have been deleted.\<close>

lemma cache_rep_shrink:
  fixes u :: uint32
  assumes ps: "cache_rep m (insert a F) ps" and aF: "a \<notin> F" and rep: "queue_rep (cells m) q (drop n ps)"
    and sub: "X \<subseteq> insert a (set (take n ps))"
  defines "m' \<equiv> m\<lparr>cells := (\<lambda>x. if x \<in> X then None else cells m x), pool := \<lparr>pqueue = q, using_count = u\<rparr>\<rparr>"
  shows "cache_rep m' F (drop n ps)" and "frame m m' F"
proof -
  have aps: "a \<notin> set ps" and dps: "distinct ps"
    using ps by (auto simp: cache_rep_def dest: queue_rep_distinct)
  have keep: "cells m' x = cells m x" if "x \<in> F \<union> set (drop n ps)" for x
  proof -
    have "x \<notin> set (take n ps)" if "x \<in> set (drop n ps)"
      using that set_take_disj_set_drop_if_distinct [OF dps order.refl [of n]] by auto
    then have "x \<notin> X" using that sub ps aF aps by (auto simp: cache_rep_def dest: in_set_takeD in_set_dropD)
    then show ?thesis by (simp add: m'_def)
  qed
  have "queue_rep (cells m') q (drop n ps) = queue_rep (cells m) q (drop n ps)"
    by (rule queue_rep_cong) (simp only: keep [OF UnI2])
  moreover have "full_size (cells m') x" if "x \<in> F \<union> set (drop n ps)" for x
    using keep [OF that] that ps by (auto simp: cache_rep_def full_size_def dest: in_set_dropD)
  ultimately show "cache_rep m' F (drop n ps)" using ps rep by (auto simp: cache_rep_def m'_def dest: in_set_dropD)
  show "frame m m' F" using keep by (auto simp: frame_def)
qed

lemma deletePiece_freed:
  assumes ps: "cache_rep m (insert a F) ps" and aF: "a \<notin> F"
    and full: "\<not> qsize (pqueue (pool m)) < using_count (pool m) - 1 + BASE_CACHE_COUNT"
  defines "limit \<equiv> using_count (pool m) - 1 + BASE_CACHE_COUNT"
  defines "s \<equiv> qsize (pqueue (pool m))"
  defines "dc \<equiv> (if s - limit + 1 > MAX_DELETE_ONCE then MAX_DELETE_ONCE else s - limit + 1)"
  shows "\<exists>m'. deletePiece (Some a) m = Inr m' \<and> cache_rep m' F (drop (unat dc - 1) ps) \<and> frame m m' F
     \<and> (0 < dc \<longrightarrow> cells m' a = None)
     \<and> using_count (pool m') = using_count (pool m) - 1"
proof -
  let ?n = "unat dc - 1"
  have rep: "queue_rep (cells m) (pqueue (pool m)) ps" using ps by (simp add: cache_rep_def)
  have aps: "a \<notin> set ps" and dps: "distinct ps"
    using ps rep by (auto simp: cache_rep_def dest: queue_rep_distinct)
  have "unat s = length ps" using ps by (simp add: cache_rep_def queue_rep_def s_def)
  then have n: "?n \<le> length ps"
    using delete_count_le [of s limit] full by (simp add: dc_def limit_def s_def)
  obtain q' where pops: "pops Queue_pop ?n (pqueue (pool m)) (cells m) = Inr (map Some (take ?n ps), q')"
    and rep': "queue_rep (cells m) q' (drop ?n ps)"
    using piece_fifo.pops_take [OF rep n] by blast
  let ?xs = "if dc = 0 then [] else a # take ?n ps"
  have take: "take (unat dc) (Some a # map Some (take ?n ps)) = map Some ?xs"
  proof (cases "dc = 0")
    case False
    then obtain k where "unat dc = Suc k" by (metis not0_implies_Suc unat_eq_0)
    with n False show ?thesis by (simp add: take_map min_def)
  qed simp
  have sub: "set ?xs \<subseteq> insert a (set ps)" by (auto dest: in_set_takeD)
  have "\<forall>x \<in> set ?xs. \<exists>c. cells m x = Some c"
  proof
    fix x assume "x \<in> set ?xs"
    then have "x \<in> insert a F \<union> set ps" using sub by blast
    then show "\<exists>c. cells m x = Some c" using ps by (auto simp: cache_rep_def full_size_iff)
  qed
  moreover have "distinct ?xs" using dps aps by (auto dest: in_set_takeD)
  ultimately have fr: "free_all (map Some ?xs) (cells m) = Inr (\<lambda>x. if x \<in> set ?xs then None else cells m x)"
    by (intro free_all_ok)
  let ?m = "m\<lparr>cells := (\<lambda>x. if x \<in> set ?xs then None else cells m x), pool := \<lparr>pqueue = q', using_count = using_count (pool m) - 1\<rparr>\<rparr>"
  note sh = cache_rep_shrink [OF ps aF rep', of "set ?xs" "using_count (pool m) - 1"]
  have "deletePiece (Some a) m = Inr ?m"
  proof -
    have "deletePiece (Some a) m =
        rbind (pops Queue_pop ?n (pqueue (pool m)) (cells m)) (\<lambda>(popped, q1).
        rbind (free_all (take (unat dc) (Some a # popped)) (cells m)) (\<lambda>h.
        Inr (m\<lparr>cells := h, pool := \<lparr>pqueue = q1, using_count = using_count (pool m) - 1\<rparr>\<rparr>)))"
      using full by (simp only: deletePiece_def Let_def dc_def s_def limit_def if_False)
    then show ?thesis using pops take fr by simp
  qed
  moreover have "set ?xs \<subseteq> insert a (set (take ?n ps))" by auto
  ultimately show ?thesis using sh by (auto simp: word_gt_0)
qed

lemma deletePiece_ok:
  assumes "mem_inv m (insert a F)" and "a \<notin> F"
  shows "\<exists>m'. deletePiece (Some a) m = Inr m' \<and> mem_inv m' F \<and> frame m m' F"
proof -
  obtain ps where ps: "cache_rep m (insert a F) ps" using assms(1) by (auto simp: mem_inv_def)
  then obtain c where "cells m a = Some c" by (auto simp: cache_rep_def full_size_iff)
  with ps show ?thesis
    using deletePiece_cached [OF ps assms(2)] deletePiece_freed [OF ps assms(2)]
    unfolding mem_inv_def by (metis (no_types, lifting))
qed

section \<open>The cache is bounded\<close>

lemma cache_rep_size: "cache_rep m F ps \<Longrightarrow> unat (qsize (pqueue (pool m))) = length ps"
  by (simp add: cache_rep_def queue_rep_def)

lemma newPiece_pool:
  assumes ps: "cache_rep m F ps" and run: "newPiece m = Inr (p, m')"
  shows "using_count (pool m') = using_count (pool m) + 1"
    and "unat (qsize (pqueue (pool m'))) = length ps - 1"
proof -
  have "using_count (pool m') = using_count (pool m) + 1 \<and> unat (qsize (pqueue (pool m'))) = length ps - 1"
  proof (cases ps)
    case Nil
    then show ?thesis using ps run cache_rep_size [OF ps] by (auto simp: newPiece_def cache_rep_def Queue_pop_Nil)
  next
    case (Cons a qs)
    with ps obtain q where q: "Queue_pop (pqueue (pool m)) (cells m) = Inr (Some a, q)"
      and rep': "queue_rep (cells m) q qs"
      using Queue_pop_Cons unfolding cache_rep_def by blast
    obtain d where "cells m a = Some d" using ps Cons by (auto simp: cache_rep_def full_size_iff)
    with q run have "pool m' = \<lparr>pqueue = q, using_count = using_count (pool m) + 1\<rparr>"
      by (auto simp: newPiece_def mem_simps)
    moreover have "unat (qsize q) = length qs" using rep' ps Cons by (simp add: queue_rep_def cache_rep_def)
    ultimately show ?thesis using Cons by simp
  qed
  then show "using_count (pool m') = using_count (pool m) + 1" "unat (qsize (pqueue (pool m'))) = length ps - 1" by auto
qed

lemma newPiece_bounded:
  assumes "mem_inv m F" and "pool_bounded m" and "unat (using_count (pool m)) < 2 ^ 32 - 1"
    and "newPiece m = Inr (p, m')"
  shows "pool_bounded m' \<and> unat (using_count (pool m')) = unat (using_count (pool m)) + 1"
proof -
  obtain ps where ps: "cache_rep m F ps" using assms(1) by (auto simp: mem_inv_def)
  have u: "unat (using_count (pool m) + 1) = unat (using_count (pool m)) + 1"
    using assms(3) by (simp add: unat_word_ariths)
  then show ?thesis
    using newPiece_pool [OF ps assms(4)] cache_rep_size [OF ps] assms(2) by (simp add: pool_bounded_def)
qed

lemma deletePiece_bounded:
  assumes "mem_inv m (insert a F)" and "a \<notin> F" and "pool_bounded m"
    and used: "0 < using_count (pool m)" "unat (using_count (pool m)) + 8 < 2 ^ 32"
    and run: "deletePiece (Some a) m = Inr m'"
  shows "pool_bounded m' \<and> unat (using_count (pool m')) = unat (using_count (pool m)) - 1"
proof -
  obtain ps where ps: "cache_rep m (insert a F) ps" using assms(1) by (auto simp: mem_inv_def)
  then obtain c where c: "cells m a = Some c" by (auto simp: cache_rep_def full_size_iff)
  let ?u = "using_count (pool m)" and ?s = "qsize (pqueue (pool m))"
  let ?l = "?u - 1 + BASE_CACHE_COUNT"
  have upos: "0 < unat ?u" using used by (simp add: word_less_nat_alt)
  then have "(1 :: uint32) \<le> ?u" by (simp add: word_le_nat_alt)
  then have u1: "unat (?u - 1) = unat ?u - 1" by (simp add: unat_sub)
  have l: "unat ?l = unat ?u + 7"
    using used upos u1 by (simp add: unat_word_ariths BASE_CACHE_COUNT_def)
  have s: "unat ?s = length ps" using ps by (rule cache_rep_size)
  show ?thesis
  proof (cases "?s < ?l")
    case True
    then obtain m1 where "deletePiece (Some a) m = Inr m1" "cache_rep m1 F (ps @ [a])"
      "using_count (pool m1) = ?u - 1"
      using deletePiece_cached [OF ps assms(2) c True] by blast
    with run have "cache_rep m' F (ps @ [a])" "using_count (pool m') = ?u - 1" by auto
    then have "unat (qsize (pqueue (pool m'))) = length ps + 1" using cache_rep_size by fastforce
    moreover have "length ps < unat ?u + 7" using True s l by (simp add: word_less_nat_alt)
    ultimately show ?thesis using \<open>using_count (pool m') = ?u - 1\<close> u1 upos by (simp add: pool_bounded_def)
  next
    case False
    then have ls: "unat ?l \<le> unat ?s" by (simp add: word_less_nat_alt)
    have hi: "length ps \<le> unat ?u + 8" using assms(3) s by (simp add: pool_bounded_def)
    define d where "d = ?s - ?l"
    have d: "unat d = length ps - (unat ?u + 7)"
      using False s l by (simp only: d_def unat_sub linorder_not_less)
    then have n: "unat (d + 1) = unat d + 1" using hi by (simp add: unat_word_ariths)
    then have "\<not> MAX_DELETE_ONCE < d + 1"
      using d hi by (simp add: MAX_DELETE_ONCE_def word_less_nat_alt)
    then obtain m1 where "deletePiece (Some a) m = Inr m1" "cache_rep m1 F (drop (unat d) ps)"
      "using_count (pool m1) = ?u - 1"
      using deletePiece_freed [OF ps assms(2) False] n by (auto simp: d_def)
    with run have "cache_rep m' F (drop (unat d) ps)" "using_count (pool m') = ?u - 1" by auto
    then have "unat (qsize (pqueue (pool m'))) = length ps - unat d"
      using cache_rep_size by fastforce
    then show ?thesis
      using \<open>using_count (pool m') = ?u - 1\<close> u1 upos d s l ls by (simp add: pool_bounded_def)
  qed
qed

lemma PiecePool_clear_loop_ok:
  "cache_rep m F ps \<Longrightarrow> length ps \<le> n \<Longrightarrow>
   \<exists>m'. PiecePool_clear_loop n m = Inr m' \<and> cache_rep m' F [] \<and> frame m m' F
     \<and> (\<forall>a. a \<in> set ps \<or> cells m a = None \<longrightarrow> cells m' a = None)"
proof (induction n arbitrary: m ps)
  case 0
  then show ?case using Queue_empty_rep [of "cells m" "pqueue (pool m)" ps] by (auto simp: cache_rep_def)
next
  case (Suc n)
  then have rep: "queue_rep (cells m) (pqueue (pool m)) ps" and l: "length ps < 2 ^ 32"
    by (auto simp: cache_rep_def)
  show ?case
  proof (cases ps)
    case Nil
    then show ?thesis using Suc.prems Queue_empty_rep [OF rep l] by simp
  next
    case (Cons a qs)
    then obtain q where q: "Queue_pop (pqueue (pool m)) (cells m) = Inr (Some a, q)"
      and rep': "queue_rep (cells m) q qs"
      using rep Queue_pop_Cons by blast
    obtain c where c: "cells m a = Some c" using Suc.prems Cons by (auto simp: cache_rep_def full_size_iff)
    have a: "a \<notin> set qs" using rep Cons by (auto dest: queue_rep_distinct)
    let ?m = "m\<lparr>cells := (cells m)(a := None), pool := (pool m)\<lparr>pqueue := q\<rparr>\<rparr>"
    have "cache_rep ?m F qs"
      using Suc.prems Cons rep' a by (auto simp: cache_rep_def full_size_def)
    then obtain m' where m': "PiecePool_clear_loop n ?m = Inr m'" "cache_rep m' F []" "frame ?m m' F"
      "\<forall>x. x \<in> set qs \<or> cells ?m x = None \<longrightarrow> cells m' x = None"
      using Suc.IH Suc.prems Cons by fastforce
    have "frame m m' F" using m'(3) Suc.prems Cons by (auto simp: frame_def cache_rep_def)
    then show ?thesis using m' q c Cons Queue_empty_rep [OF rep l] by (simp add: mem_simps)
  qed
qed

section \<open>The contract of the allocator\<close>

text \<open>
  What the buffers and the connections rely on: a new piece is not one the client already
  holds, releasing a piece leaves the others alone. \<open>view\<close> is what the client sees of a piece.
\<close>

locale piece_allocator =
  fixes inv :: "'m \<Rightarrow> 'a set \<Rightarrow> bool"
    and view :: "'m \<Rightarrow> 'a \<Rightarrow> 'c option"
    and new :: "'m \<Rightarrow> error + ('a option \<times> 'm)"
    and del :: "'a option \<Rightarrow> 'm \<Rightarrow> error + 'm"
  assumes new_law: "inv m F \<Longrightarrow> \<exists>a m'. new m = Inr (Some a, m') \<and> a \<notin> F \<and> inv m' (insert a F)
      \<and> (\<forall>x \<in> F. view m' x = view m x)"
    and del_law: "inv m (insert a F) \<Longrightarrow> a \<notin> F \<Longrightarrow> \<exists>m'. del (Some a) m = Inr m' \<and> inv m' F
      \<and> (\<forall>x \<in> F. view m' x = view m x)"
begin

lemma new_then_del:
  assumes "inv m F"
  shows "\<exists>a m1 m2. new m = Inr (Some a, m1) \<and> a \<notin> F \<and> del (Some a) m1 = Inr m2 \<and> inv m2 F
     \<and> (\<forall>x \<in> F. view m2 x = view m x)"
proof -
  obtain a m1 where n: "new m = Inr (Some a, m1)" "a \<notin> F" "inv m1 (insert a F)" "\<forall>x \<in> F. view m1 x = view m x"
    using new_law [OF assms] by blast
  from del_law [OF n(3,2)] n show ?thesis by force
qed

lemma two_news_differ:
  assumes "inv m F"
  shows "\<exists>a m1 b m2. new m = Inr (Some a, m1) \<and> new m1 = Inr (Some b, m2) \<and> a \<noteq> b
     \<and> inv m2 (insert b (insert a F))"
proof -
  obtain a m1 where n: "new m = Inr (Some a, m1)" "inv m1 (insert a F)" using new_law [OF assms] by blast
  from new_law [OF n(2)] n(1) show ?thesis by force
qed

end

interpretation pool_alloc: piece_allocator mem_inv cells newPiece deletePiece
proof
  show "\<exists>a m'. newPiece m = Inr (Some a, m') \<and> a \<notin> F \<and> mem_inv m' (insert a F)
      \<and> (\<forall>x \<in> F. cells m' x = cells m x)" if "mem_inv m F" for m F
    using newPiece_ok [OF that] unfolding frame_def by blast
  show "\<exists>m'. deletePiece (Some a) m = Inr m' \<and> mem_inv m' F \<and> (\<forall>x \<in> F. cells m' x = cells m x)"
    if "mem_inv m (insert a F)" "a \<notin> F" for m a F
    using deletePiece_ok [OF that] unfolding frame_def by blast
qed

section \<open>Runs of the allocator\<close>

text \<open>
  The states clients can reach by allocating pieces, giving them back, and deleting them directly, as
  \<open>Buffer::clear\<close> does, in any order: \<open>F\<close> are the pieces held, \<open>k\<close> counts the pieces that have
  been deleted past the pool. The premise of \<open>alloc\<close> says that \<open>using_count_\<close> does not wrap around:
  fewer than \<open>2^32 - 9\<close> pieces are held or have been deleted past the pool.
\<close>

inductive pool_run :: "mem \<Rightarrow> addr set \<Rightarrow> nat \<Rightarrow> bool" where
  start: "pool_run mem_start {} 0"
| alloc: "pool_run m F k \<Longrightarrow> card F + k + 9 < 2 ^ 32 \<Longrightarrow> newPiece m = Inr (Some a, m') \<Longrightarrow> pool_run m' (insert a F) k"
| release: "pool_run m F k \<Longrightarrow> a \<in> F \<Longrightarrow> deletePiece (Some a) m = Inr m' \<Longrightarrow> pool_run m' (F - {a}) k"
| direct: "pool_run m F k \<Longrightarrow> a \<in> F \<Longrightarrow> free (Some a) (cells m) = Inr h \<Longrightarrow> pool_run (m\<lparr>cells := h\<rparr>) (F - {a}) (Suc k)"

definition pool_state_ok :: "mem \<Rightarrow> addr set \<Rightarrow> nat \<Rightarrow> bool" where
  "pool_state_ok m F k \<longleftrightarrow> mem_inv m F \<and> finite F \<and> unat (using_count (pool m)) = card F + k \<and> card F + k + 8 < 2 ^ 32
     \<and> pool_bounded m"

lemma pool_run_ok: "pool_run m F k \<Longrightarrow> pool_state_ok m F k"
proof (induction rule: pool_run.induct)
  case start
  show ?case using mem_inv_start
    by (simp add: pool_state_ok_def pool_bounded_def mem_start_def PiecePool_new_def Queue_new_def)
next
  case (alloc m F k a m')
  then have ok: "mem_inv m F" "finite F" "unat (using_count (pool m)) = card F + k" "pool_bounded m"
    by (simp_all add: pool_state_ok_def)
  have fresh: "a \<notin> F" "mem_inv m' (insert a F)"
    using newPiece_ok [OF ok(1)] alloc.hyps(3) by auto
  have "unat (using_count (pool m)) < 2 ^ 32 - 1" using ok(3) alloc.hyps(2) by simp
  then have "pool_bounded m' \<and> unat (using_count (pool m')) = card F + k + 1"
    using newPiece_bounded [OF ok(1,4) _ alloc.hyps(3)] ok(3) by simp
  with ok fresh alloc.hyps(2) show ?case by (simp add: pool_state_ok_def)
next
  case (release m F k a m')
  let ?G = "F - {a}"
  have F: "insert a ?G = F" "a \<notin> ?G" using release.hyps by auto
  have ok: "mem_inv m (insert a ?G)" "finite F" "unat (using_count (pool m)) = card F + k" "card F + k + 8 < 2 ^ 32" "pool_bounded m"
    using release.IH F by (simp_all add: pool_state_ok_def)
  have "0 < card F" using ok(2) release.hyps(2) by (auto simp: card_gt_0_iff)
  then have "0 < using_count (pool m)" using ok(3) by (simp add: word_less_nat_alt)
  moreover have "unat (using_count (pool m)) + 8 < 2 ^ 32" using ok(3,4) by simp
  ultimately have "pool_bounded m' \<and> unat (using_count (pool m')) = card F + k - 1"
    using deletePiece_bounded [OF ok(1) F(2) ok(5) _ _ release.hyps(3)] ok(3) by simp
  moreover have "mem_inv m' ?G" using deletePiece_ok [OF ok(1) F(2)] release.hyps(3) by auto
  moreover have "card ?G = card F - 1" using ok(2) release.hyps(2) by simp
  ultimately show ?case using ok \<open>0 < card F\<close> by (simp add: pool_state_ok_def)
next
  case (direct m F k a h)
  then obtain ps where ps: "cache_rep m F ps" and h: "h = (cells m)(a := None)"
    by (auto simp: pool_state_ok_def mem_inv_def free_def split: option.splits)
  then have "a \<notin> set ps" using direct.hyps(2) by (auto simp: cache_rep_def)
  with ps h have "cache_rep (m\<lparr>cells := h\<rparr>) (F - {a}) ps" using direct.hyps(2) by (auto simp: cache_rep_def full_size_def)
  moreover have "card F = Suc (card (F - {a}))"
    using direct.IH direct.hyps(2) by (intro card.remove) (simp_all add: pool_state_ok_def)
  ultimately show ?case using direct.IH by (auto simp: pool_state_ok_def mem_inv_def pool_bounded_def)
qed

section \<open>Properties\<close>

text \<open>
  C24. In every state clients can reach by allocating pieces, giving them back to the pool and
  deleting them directly, as \<open>Buffer::clear\<close> does: \<open>using_count_\<close> is the number of pieces held plus
  the number of pieces deleted directly, which the pool never learns of; the cache holds at most
  eight pieces more than \<open>using_count_\<close>; cached pieces are disjoint from the ones held, and the
  next \<open>newPiece\<close> succeeds with a piece nobody holds. The count is assumed not to wrap around.
\<close>

theorem pool_cache_bounded:
  assumes "pool_run m F k"
  shows "unat (using_count (pool m)) = card F + k
    \<and> (\<exists>ps. queue_rep (cells m) (pqueue (pool m)) ps \<and> set ps \<inter> F = {} \<and> length ps \<le> card F + k + 8)
    \<and> (\<exists>a m'. newPiece m = Inr (Some a, m') \<and> a \<notin> F)"
proof -
  have ok: "pool_state_ok m F k" using assms by (rule pool_run_ok)
  then obtain ps where ps: "cache_rep m F ps" by (auto simp: pool_state_ok_def mem_inv_def)
  have "length ps \<le> card F + k + 8"
    using ok cache_rep_size [OF ps] by (simp add: pool_state_ok_def pool_bounded_def)
  then show ?thesis
    using ok ps pool_alloc.new_law [of m F] by (auto simp: pool_state_ok_def cache_rep_def)
qed

text \<open>Two pieces are allocated, one is given back and one is deleted directly.\<close>

theorem pool_cache_bounded_witness:
  "\<exists>m. pool_run m {} 1 \<and> unat (using_count (pool m)) = 1
    \<and> (\<exists>ps. queue_rep (cells m) (pqueue (pool m)) ps \<and> length ps \<le> 9)"
proof -
  obtain m1 where m1: "newPiece mem_start = Inr (Some 0, m1)"
    by (simp add: newPiece_def mem_start_def PiecePool_new_def Queue_new_def Queue_pop_def)
  then have r1: "pool_run m1 {0} 0" using pool_run.alloc [OF pool_run.start, of 0 m1] by simp
  obtain a m2 where m2: "newPiece m1 = Inr (Some a, m2)" "a \<notin> {0}" using pool_cache_bounded [OF r1] by blast
  then have r2: "pool_run m2 {a, 0} 0" using pool_run.alloc [OF r1, of a m2] by simp
  then have inv: "mem_inv m2 (insert a {0})" using pool_run_ok by (simp add: pool_state_ok_def)
  then obtain m3 where m3: "deletePiece (Some a) m2 = Inr m3" using deletePiece_ok m2(2) by blast
  then have r3: "pool_run m3 {0} 0" using pool_run.release [OF r2, of a m3] m2(2) by auto
  then have "cells m3 0 \<noteq> None" using pool_run_ok [OF r3] by (auto simp: pool_state_ok_def mem_inv_def cache_rep_def full_size_def split: option.splits)
  then have "pool_run (m3\<lparr>cells := (cells m3)(0 := None)\<rparr>) {} 1"
    using pool_run.direct [OF r3, of 0] by (auto simp: free_def)
  from this pool_cache_bounded [OF this] show ?thesis
    by (intro exI [of _ "m3\<lparr>cells := (cells m3)(0 := None)\<rparr>"]) auto
qed

text \<open>
  Releasing a piece the client holds never fails, whatever the counters of the pool are:
  the piece is cached or deleted, the client's other pieces are untouched, and the allocator's
  invariant holds for them.
\<close>

theorem deletePiece_safe:
  assumes "mem_inv m F" and "a \<in> F"
  shows "\<exists>m'. deletePiece (Some a) m = Inr m' \<and> mem_inv m' (F - {a}) \<and> frame m m' (F - {a})"
  using assms deletePiece_ok [of m a "F - {a}"] by (simp add: insert_absorb)

theorem deletePiece_safe_witness:
  "let m = snd (projr (newPiece mem_start)) in mem_inv m {0} \<and> (\<exists>m'. deletePiece (Some 0) m = Inr m' \<and> mem_inv m' {})"
proof -
  have run: "newPiece mem_start = Inr (Some 0, snd (projr (newPiece mem_start)))"
    by (simp add: newPiece_def mem_start_def PiecePool_new_def Queue_new_def Queue_pop_def)
  have inv: "mem_inv (snd (projr (newPiece mem_start))) {0}"
    using newPiece_ok [OF mem_inv_start] run by auto
  show ?thesis using deletePiece_safe [OF inv, of 0] inv by (auto simp: Let_def)
qed

end
