(* ===== verification/Net_Buffer.thy ===== *)
theory Net_Buffer
  imports Piece_Pool
begin

text \<open>
  The byte buffer of \<^verbatim>\<open>src/netpp/net/buffer.h\<close> and \<^verbatim>\<open>src/netpp/net/buffer.cpp\<close>: a queue of
  pieces with a byte count. One definition per member function. The loops walk along a chain of
  pieces or consume data; their fuel is the number of pieces that were ever allocated, or the
  amount of data, plus one. Running out of it is the error \<open>Diverges\<close>, which the lemmas
  exclude.

  \<open>holds m b bs F\<close> is the abstraction: in memory \<open>m\<close> the buffer \<open>b\<close> is well formed
  and carries the bytes \<open>bs\<close>, and the pieces \<open>F\<close> belong to someone else. Every operation
  is shown to act on \<open>bs\<close> as the corresponding list operation, to leave \<open>F\<close> alone and to
  end without an error.
\<close>

section \<open>The class\<close>

record buffer = queue +
  blength :: nat

definition Buffer_new :: buffer where
  "Buffer_new = \<lparr>qhead = None, qtail = None, qsize = 0, blength = 0\<rparr>"

definition Buffer_length :: "buffer \<Rightarrow> nat" where
  "Buffer_length b = blength b"

text \<open>Access to the heap inside \<open>mem\<close>.\<close>

definition mderef :: "addr option \<Rightarrow> mem \<Rightarrow> error + piece" where
  "mderef p m = deref p (cells m)"

definition mstore :: "addr option \<Rightarrow> piece \<Rightarrow> mem \<Rightarrow> error + mem" where
  "mstore p c m = rbind (store p c (cells m)) (\<lambda>h. Inr (m\<lparr>cells := h\<rparr>))"

definition mpush :: "addr option \<Rightarrow> buffer \<Rightarrow> mem \<Rightarrow> error + (buffer \<times> mem)" where
  "mpush p b m = rbind (Queue_push p b (cells m)) (\<lambda>(b1, h). Inr (b1, m\<lparr>cells := h\<rparr>))"

definition mpop :: "buffer \<Rightarrow> mem \<Rightarrow> error + (addr option \<times> buffer)" where
  "mpop b m = Queue_pop b (cells m)"

definition Buffer_swap :: "buffer \<Rightarrow> buffer \<Rightarrow> buffer \<times> buffer" where
  "Buffer_swap b c =
     (b\<lparr>qhead := qhead c, qtail := qtail c, qsize := qsize c, blength := blength c\<rparr>,
      c\<lparr>qhead := qhead b, qtail := qtail b, qsize := qsize b, blength := blength b\<rparr>)"

definition Buffer_reservedPrepend :: "nat \<Rightarrow> buffer \<Rightarrow> mem \<Rightarrow> error + (buffer \<times> mem)" where
  "Buffer_reservedPrepend n b m =
     rbind (cassert (Buffer_length b = 0)) (\<lambda>_.
     rbind (cassert (Queue_front b = None)) (\<lambda>_.
     rbind (newPiece m) (\<lambda>(item, m1).
     rbind (cassert (n < kPieceCapacity)) (\<lambda>_.
     rbind (mderef item m1) (\<lambda>c.
     rbind (mstore item (c\<lparr>off := word_of_nat n, len := 0\<rparr>) m1) (\<lambda>m2.
     mpush item b m2))))))"

definition Buffer_prepend :: "byte list \<Rightarrow> buffer \<Rightarrow> mem \<Rightarrow> error + (buffer \<times> mem)" where
  "Buffer_prepend d b m =
     (let first = Queue_front b in
      rbind (cassert (first \<noteq> None)) (\<lambda>_.
      rbind (mderef first m) (\<lambda>c.
      rbind (cassert (length d \<le> unat (off c))) (\<lambda>_.
      let c1 = c\<lparr>off := off c - word_of_nat (length d)\<rparr> in
      rbind (copy_in (unat (off c1)) d c1) (\<lambda>c2.
      rbind (mstore first (c2\<lparr>len := len c2 + word_of_nat (length d)\<rparr>) m) (\<lambda>m1.
      Inr (b\<lparr>blength := blength b + length d\<rparr>, m1)))))))"

definition Buffer_prependInt32 :: "uint32 \<Rightarrow> buffer \<Rightarrow> mem \<Rightarrow> error + (buffer \<times> mem)" where
  "Buffer_prependInt32 x b m = Buffer_prepend (le_bytes 4 (htonl x)) b m"

definition Buffer_prependInt16 :: "uint16 \<Rightarrow> buffer \<Rightarrow> mem \<Rightarrow> error + (buffer \<times> mem)" where
  "Buffer_prependInt16 x b m = Buffer_prepend (le_bytes 2 (htons x)) b m"

definition Buffer_prependInt8 :: "byte \<Rightarrow> buffer \<Rightarrow> mem \<Rightarrow> error + (buffer \<times> mem)" where
  "Buffer_prependInt8 x b m = Buffer_prepend (le_bytes 1 x) b m"

text \<open>
  \<open>peek(T& t)\<close>, with \<open>n = sizeof(T)\<close> and \<open>t\<close> as its object representation. The
  destination of the copies after the first one is \<open>&t + sizeof(T) - left\<close>: pointer
  arithmetic on a \<open>T*\<close>, so the byte offset is \<open>(sizeof(T) - left) * sizeof(T)\<close>.
\<close>

definition poke :: "nat \<Rightarrow> byte list \<Rightarrow> byte list \<Rightarrow> error + byte list" where
  "poke pos bs t = (if pos + length bs \<le> length t
     then Inr (take pos t @ bs @ drop (pos + length bs) t) else Inl OutOfBounds)"

primrec Buffer_peek_loop :: "nat \<Rightarrow> nat \<Rightarrow> nat \<Rightarrow> byte list \<Rightarrow> addr option \<Rightarrow> mem \<Rightarrow> error + byte list" where
  "Buffer_peek_loop 0 n left t cur m = Inl Diverges"
| "Buffer_peek_loop (Suc fuel) n left t cur m =
     rbind (mderef cur m) (\<lambda>c.
     if left \<le> unat (len c)
     then rbind (copy_out c (unat (off c)) left) (\<lambda>bs. poke ((n - left) * n) bs t)
     else rbind (copy_out c (unat (off c)) (unat (len c))) (\<lambda>bs.
          rbind (poke ((n - left) * n) bs t) (\<lambda>t1.
          Buffer_peek_loop fuel n (left - unat (len c)) t1 (nxt c) m)))"

definition Buffer_peek :: "nat \<Rightarrow> buffer \<Rightarrow> mem \<Rightarrow> error + byte list" where
  "Buffer_peek n b m =
     rbind (cassert (Buffer_length b \<ge> n)) (\<lambda>_.
     let cur = Queue_front b; t = replicate n 0 in
     rbind (mderef cur m) (\<lambda>c.
     if n \<le> unat (len c)
     then rbind (copy_out c (unat (off c)) n) (\<lambda>bs. poke 0 bs t)
     else rbind (copy_out c (unat (off c)) (unat (len c))) (\<lambda>bs.
          rbind (poke 0 bs t) (\<lambda>t1.
          Buffer_peek_loop (Suc (brk m)) n (n - unat (len c)) t1 (nxt c) m))))"

definition Buffer_peekInt32 :: "buffer \<Rightarrow> mem \<Rightarrow> error + uint32" where
  "Buffer_peekInt32 b m =
     rbind (cassert (Buffer_length b \<ge> 4)) (\<lambda>_.
     rbind (Buffer_peek 4 b m) (\<lambda>v. Inr (ntohl (of_le_bytes v))))"

definition Buffer_peekInt16 :: "buffer \<Rightarrow> mem \<Rightarrow> error + uint16" where
  "Buffer_peekInt16 b m =
     rbind (cassert (Buffer_length b \<ge> 2)) (\<lambda>_.
     rbind (Buffer_peek 2 b m) (\<lambda>v. Inr (ntohs (of_le_bytes v))))"

definition Buffer_peekInt8 :: "buffer \<Rightarrow> mem \<Rightarrow> error + byte" where
  "Buffer_peekInt8 b m =
     rbind (cassert (Buffer_length b \<ge> 1)) (\<lambda>_.
     rbind (Buffer_peek 1 b m) (\<lambda>v. Inr (of_le_bytes v)))"

text \<open>\<open>deletePiece(pop())\<close>.\<close>

definition Buffer_drop_front :: "buffer \<Rightarrow> mem \<Rightarrow> error + (buffer \<times> mem)" where
  "Buffer_drop_front b m =
     rbind (mpop b m) (\<lambda>(item, b1). rbind (deletePiece item m) (\<lambda>m1. Inr (b1, m1)))"

primrec Buffer_read_loop :: "nat \<Rightarrow> nat \<Rightarrow> buffer \<Rightarrow> mem \<Rightarrow> error + (byte list \<times> buffer \<times> mem)" where
  "Buffer_read_loop 0 left b m = Inl Diverges"
| "Buffer_read_loop (Suc fuel) left b m =
     (let first = Queue_front b in
      rbind (mderef first m) (\<lambda>c.
      if left \<le> unat (len c)
      then rbind (copy_out c (unat (off c)) left) (\<lambda>bs.
           if left < unat (len c)
           then rbind (mstore first (c\<lparr>off := off c + word_of_nat left, len := len c - word_of_nat left\<rparr>) m)
                  (\<lambda>m1. Inr (bs, b, m1))
           else rbind (Buffer_drop_front b m) (\<lambda>(b1, m1). Inr (bs, b1, m1)))
      else rbind (copy_out c (unat (off c)) (unat (len c))) (\<lambda>bs.
           rbind (Buffer_drop_front b m) (\<lambda>(b1, m1).
           rbind (Buffer_read_loop fuel (left - unat (len c)) b1 m1) (\<lambda>(bs', b2, m2).
           Inr (bs @ bs', b2, m2))))))"

definition Buffer_read :: "nat \<Rightarrow> buffer \<Rightarrow> mem \<Rightarrow> error + (byte list \<times> buffer \<times> mem)" where
  "Buffer_read n b m =
     rbind (cassert (n > 0)) (\<lambda>_.
     rbind (cassert (Buffer_length b \<ge> n)) (\<lambda>_.
     rbind (Buffer_read_loop (Suc (brk m)) n b m) (\<lambda>(bs, b1, m1).
     Inr (bs, b1\<lparr>blength := blength b1 - n\<rparr>, m1))))"

definition Buffer_read_string :: "nat \<Rightarrow> buffer \<Rightarrow> mem \<Rightarrow> error + (byte list \<times> buffer \<times> mem)" where
  "Buffer_read_string n b m =
     rbind (cassert (Buffer_length b \<ge> n)) (\<lambda>_. Buffer_read n b m)"

definition Buffer_readAll :: "buffer \<Rightarrow> mem \<Rightarrow> error + (byte list \<times> buffer \<times> mem)" where
  "Buffer_readAll b m = Buffer_read_string (Buffer_length b) b m"

definition Buffer_readInt32 :: "buffer \<Rightarrow> mem \<Rightarrow> error + (uint32 \<times> buffer \<times> mem)" where
  "Buffer_readInt32 b m = rbind (Buffer_read 4 b m) (\<lambda>(v, b1, m1). Inr (ntohl (of_le_bytes v), b1, m1))"

definition Buffer_readInt16 :: "buffer \<Rightarrow> mem \<Rightarrow> error + (uint16 \<times> buffer \<times> mem)" where
  "Buffer_readInt16 b m = rbind (Buffer_read 2 b m) (\<lambda>(v, b1, m1). Inr (ntohs (of_le_bytes v), b1, m1))"

definition Buffer_readInt8 :: "buffer \<Rightarrow> mem \<Rightarrow> error + (byte \<times> buffer \<times> mem)" where
  "Buffer_readInt8 b m = rbind (Buffer_read 1 b m) (\<lambda>(v, b1, m1). Inr (of_le_bytes v, b1, m1))"

text \<open>
  \<open>read(size_t len, Buffer* buf)\<close>: whole pieces move, the last one may be split. The source
  does not decrease \<open>left\<close> when it moves a whole piece, and neither does the model. The two
  buffers are different objects.
\<close>

primrec Buffer_read_buffer_loop ::
    "nat \<Rightarrow> nat \<Rightarrow> buffer \<Rightarrow> buffer \<Rightarrow> mem \<Rightarrow> error + (buffer \<times> buffer \<times> mem)" where
  "Buffer_read_buffer_loop 0 left b buf m = Inl Diverges"
| "Buffer_read_buffer_loop (Suc fuel) left b buf m =
     (let first = Queue_front b in
      rbind (mderef first m) (\<lambda>c.
      if left \<le> unat (len c)
      then if left < unat (len c)
           then rbind (newPiece m) (\<lambda>(buf_last, m1).
                rbind (mderef buf_last m1) (\<lambda>d.
                rbind (copy_out c (unat (off c)) left) (\<lambda>bs.
                rbind (copy_in 0 bs d) (\<lambda>d1.
                rbind (mstore buf_last (d1\<lparr>len := word_of_nat left\<rparr>) m1) (\<lambda>m2.
                rbind (mpush buf_last buf m2) (\<lambda>(buf1, m3).
                rbind (mderef first m3) (\<lambda>c1.
                rbind (mstore first (c1\<lparr>off := off c1 + word_of_nat left, len := len c1 - word_of_nat left\<rparr>) m3)
                  (\<lambda>m4. Inr (b, buf1, m4)))))))))
           else rbind (mpop b m) (\<lambda>(item, b1).
                rbind (mpush item buf m) (\<lambda>(buf1, m1). Inr (b1, buf1, m1)))
      else rbind (mpop b m) (\<lambda>(item, b1).
           rbind (mpush item buf m) (\<lambda>(buf1, m1).
           Buffer_read_buffer_loop fuel left b1 buf1 m1))))"

definition Buffer_read_buffer :: "nat \<Rightarrow> buffer \<Rightarrow> buffer \<Rightarrow> mem \<Rightarrow> error + (buffer \<times> buffer \<times> mem)" where
  "Buffer_read_buffer n b buf m =
     rbind (cassert (n > 0)) (\<lambda>_.
     rbind (cassert (Buffer_length b \<ge> n)) (\<lambda>_.
     rbind (Buffer_read_buffer_loop (Suc (brk m)) n b buf m) (\<lambda>(b1, buf1, m1).
     Inr (b1\<lparr>blength := blength b1 - n\<rparr>, buf1\<lparr>blength := blength buf1 + n\<rparr>, m1))))"

text \<open>\<open>push(newPiece())\<close>.\<close>

definition Buffer_push_new :: "buffer \<Rightarrow> mem \<Rightarrow> error + (buffer \<times> mem)" where
  "Buffer_push_new b m = rbind (newPiece m) (\<lambda>(item, m1). mpush item b m1)"

text \<open>
  The loop of \<open>write\<close>; \<open>d\<close> is the part of the data not written yet. \<open>last\<close> is re-read
  with \<open>back()\<close> after every \<open>push\<close>.
\<close>

primrec Buffer_write_loop :: "nat \<Rightarrow> byte list \<Rightarrow> buffer \<Rightarrow> mem \<Rightarrow> error + (buffer \<times> mem)" where
  "Buffer_write_loop 0 d b m = Inl Diverges"
| "Buffer_write_loop (Suc fuel) d b m =
     (let last = Queue_back b in
      rbind (mderef last m) (\<lambda>c.
      let unwrite = kPieceCapacity - unat (off c) - unat (len c) in
      if length d \<le> unwrite
      then rbind (copy_in (unat (off c) + unat (len c)) d c) (\<lambda>c1.
           rbind (mstore last (c1\<lparr>len := len c1 + word_of_nat (length d)\<rparr>) m) (\<lambda>m1. Inr (b, m1)))
      else rbind (copy_in (unat (off c) + unat (len c)) (take unwrite d) c) (\<lambda>c1.
           rbind (mstore last (c1\<lparr>len := len c1 + word_of_nat unwrite\<rparr>) m) (\<lambda>m1.
           rbind (Buffer_push_new b m1) (\<lambda>(b1, m2).
           Buffer_write_loop fuel (drop unwrite d) b1 m2)))))"

definition Buffer_write :: "byte list \<Rightarrow> buffer \<Rightarrow> mem \<Rightarrow> error + (buffer \<times> mem)" where
  "Buffer_write d b m =
     rbind (case Queue_back b of
              None \<Rightarrow> Buffer_push_new b m
            | Some a \<Rightarrow> rbind (mderef (Some a) m) (\<lambda>c.
                if unat (off c) + unat (len c) = kPieceCapacity then Buffer_push_new b m else Inr (b, m)))
       (\<lambda>(b1, m1).
     rbind (Buffer_write_loop (Suc (length d)) d b1 m1) (\<lambda>(b2, m2).
     Inr (b2\<lparr>blength := blength b2 + length d\<rparr>, m2)))"

definition Buffer_write_string :: "byte list \<Rightarrow> buffer \<Rightarrow> mem \<Rightarrow> error + (buffer \<times> mem)" where
  "Buffer_write_string d b m = Buffer_write d b m"

definition Buffer_writeInt32 :: "uint32 \<Rightarrow> buffer \<Rightarrow> mem \<Rightarrow> error + (buffer \<times> mem)" where
  "Buffer_writeInt32 x b m = Buffer_write (le_bytes 4 (htonl x)) b m"

definition Buffer_writeInt16 :: "uint16 \<Rightarrow> buffer \<Rightarrow> mem \<Rightarrow> error + (buffer \<times> mem)" where
  "Buffer_writeInt16 x b m = Buffer_write (le_bytes 2 (htons x)) b m"

definition Buffer_writeInt8 :: "byte \<Rightarrow> buffer \<Rightarrow> mem \<Rightarrow> error + (buffer \<times> mem)" where
  "Buffer_writeInt8 x b m = Buffer_write (le_bytes 1 x) b m"

primrec Buffer_skip_loop :: "nat \<Rightarrow> nat \<Rightarrow> buffer \<Rightarrow> mem \<Rightarrow> error + (buffer \<times> mem)" where
  "Buffer_skip_loop 0 left b m = Inl Diverges"
| "Buffer_skip_loop (Suc fuel) left b m =
     (let first = Queue_front b in
      rbind (mderef first m) (\<lambda>c.
      if left \<le> unat (len c)
      then if left < unat (len c)
           then rbind (mstore first (c\<lparr>off := off c + word_of_nat left, len := len c - word_of_nat left\<rparr>) m)
                  (\<lambda>m1. Inr (b, m1))
           else Buffer_drop_front b m
      else rbind (Buffer_drop_front b m) (\<lambda>(b1, m1).
           Buffer_skip_loop fuel (left - unat (len c)) b1 m1)))"

definition Buffer_skip :: "nat \<Rightarrow> buffer \<Rightarrow> mem \<Rightarrow> error + (buffer \<times> mem)" where
  "Buffer_skip n b m =
     rbind (cassert (Buffer_length b \<ge> n)) (\<lambda>_.
     rbind (Buffer_skip_loop (Suc (brk m)) n b m) (\<lambda>(b1, m1).
     Inr (b1\<lparr>blength := blength b1 - n\<rparr>, m1)))"

definition Buffer_moveToQueueHead :: "buffer \<Rightarrow> addr option \<times> buffer" where
  "Buffer_moveToQueueHead b =
     (qhead b, b\<lparr>qhead := None, qtail := None, qsize := 0, blength := 0\<rparr>)"

text \<open>\<open>clear\<close> deletes the pieces itself; it does not give them back to the pool.\<close>

primrec Buffer_clear_loop :: "nat \<Rightarrow> buffer \<Rightarrow> mem \<Rightarrow> error + (buffer \<times> mem)" where
  "Buffer_clear_loop 0 b m = (if Queue_empty b then Inr (b, m) else Inl Diverges)"
| "Buffer_clear_loop (Suc fuel) b m =
     (if Queue_empty b then Inr (b, m)
      else rbind (mpop b m) (\<lambda>(item, b1).
           rbind (free item (cells m)) (\<lambda>h.
           Buffer_clear_loop fuel b1 (m\<lparr>cells := h\<rparr>))))"

definition Buffer_clear :: "buffer \<Rightarrow> mem \<Rightarrow> error + (buffer \<times> mem)" where
  "Buffer_clear b m =
     rbind (Buffer_clear_loop (brk m) b m) (\<lambda>(b1, m1). Inr (b1\<lparr>blength := 0\<rparr>, m1))"

text \<open>The destructor.\<close>

definition Buffer_delete :: "buffer \<Rightarrow> mem \<Rightarrow> error + mem" where
  "Buffer_delete b m = rbind (Buffer_clear b m) (\<lambda>(_, m1). Inr m1)"

section \<open>Representation\<close>

definition bchain :: "mem \<Rightarrow> buffer \<Rightarrow> addr list \<Rightarrow> addr set \<Rightarrow> bool" where
  "bchain m b as F \<longleftrightarrow> queue_rep (cells m) b as \<and> (\<forall>a \<in> set as. cell_ok (cells m) a)
     \<and> mem_inv m (set as \<union> F) \<and> set as \<inter> F = {}"

definition holds :: "mem \<Rightarrow> buffer \<Rightarrow> byte list \<Rightarrow> addr set \<Rightarrow> bool" where
  "holds m b bs F \<longleftrightarrow> (\<exists>as. bchain m b as F \<and> chain_bytes (cells m) as = bs \<and> blength b = length bs)"

definition chunks :: "mem \<Rightarrow> addr list \<Rightarrow> byte list list" where
  "chunks m as = map (cell_bytes (cells m)) as"

text \<open>The reserve in front of the window of each piece is unchanged.\<close>

definition keeps_off :: "mem \<Rightarrow> mem \<Rightarrow> addr list \<Rightarrow> bool" where
  "keeps_off m m' as \<longleftrightarrow> (\<forall>a \<in> set as. map_option off (cells m' a) = map_option off (cells m a))"

text \<open>How \<open>write\<close> cuts data into pieces: the abstract specification of its loop.\<close>

function chunked :: "byte list \<Rightarrow> byte list list" where
  "chunked d = (if length d \<le> kPieceCapacity then [d]
     else take kPieceCapacity d # chunked (drop kPieceCapacity d))"
  by pat_completeness auto
termination
  by (relation "measure length") (auto simp: kPieceCapacity_def)

declare chunked.simps [simp del]

definition fill :: "byte list \<Rightarrow> nat \<Rightarrow> byte list \<Rightarrow> byte list list" where
  "fill x room d = (if length d \<le> room then [x @ d] else (x @ take room d) # chunked (drop room d))"

lemma chunked_fill: "chunked d = fill [] kPieceCapacity d"
  by (subst chunked.simps) (simp add: fill_def)

lemma concat_chunked [simp]: "concat (chunked d) = d"
proof (induction d rule: chunked.induct)
  case (1 d)
  show ?case
  proof (cases "length d \<le> kPieceCapacity")
    case False
    then show ?thesis using 1 by (subst chunked.simps) simp
  qed (subst chunked.simps, simp)
qed

lemma concat_fill [simp]: "concat (fill x room d) = x @ d"
  by (simp add: fill_def)

lemma concat_chunks: "concat (chunks m as) = chain_bytes (cells m) as"
  by (simp add: chunks_def chain_bytes_def)

lemma chunks_cong: "(\<And>a. a \<in> set as \<Longrightarrow> cells m' a = cells m a) \<Longrightarrow> chunks m' as = chunks m as"
  by (simp add: chunks_def cell_bytes_def cong: map_cong)

lemma keeps_off_trans: "keeps_off m m' as \<Longrightarrow> keeps_off m' m'' as \<Longrightarrow> keeps_off m m'' as"
  by (simp add: keeps_off_def)

lemma keeps_off_append [simp]: "keeps_off m m' (as @ bs) \<longleftrightarrow> keeps_off m m' as \<and> keeps_off m m' bs"
  by (auto simp: keeps_off_def)

lemma keeps_off_frame: "frame m m' (set as) \<Longrightarrow> keeps_off m m' as"
  by (simp add: keeps_off_def frame_def)

lemma keeps_off_unlinked:
  assumes "unlinked (cells m') = unlinked (cells m)"
  shows "keeps_off m m' as"
proof -
  have "map_option off (cells m' a) = map_option off (cells m a)" for a
    using fun_cong [OF assms, of a] by (cases "cells m a"; cases "cells m' a") (simp_all add: unlinked_def unlink_eq_iff)
  then show ?thesis by (simp add: keeps_off_def)
qed

lemma blength_more: "queue.more b' = queue.more b \<Longrightarrow> blength b' = blength (b :: buffer)"
  by (cases b; cases b') simp

lemma mderef_Some [mem_simps]: "cells m a = Some c \<Longrightarrow> mderef (Some a) m = Inr c"
  by (simp add: mderef_def mem_simps)

lemma mstore_Some [mem_simps]:
  "cells m a = Some c \<Longrightarrow> mstore (Some a) c' m = Inr (m\<lparr>cells := (cells m)(a \<mapsto> c')\<rparr>)"
  by (simp add: mstore_def mem_simps)

lemma bchain_blength [simp]: "bchain m (b\<lparr>blength := n\<rparr>) as F = bchain m b as F"
  by (simp add: bchain_def queue_rep_def)

lemma bchain_cell:
  assumes "bchain m b as F" and "a \<in> set as"
  shows "\<exists>c. cells m a = Some c \<and> piece_ok c"
  using assms by (auto simp: bchain_def cell_ok_iff)

lemma bchain_size: "bchain m b as F \<Longrightarrow> qsize b = word_of_nat (length as)"
  by (simp add: bchain_def queue_rep_def)

text \<open>Writing the window of one piece.\<close>

lemma bchain_upd:
  assumes rep: "bchain m b as F" and a: "a \<in> set as" "cells m a = Some c"
    and c': "piece_ok c'" "nxt c' = nxt c"
  defines "m' \<equiv> m\<lparr>cells := (cells m)(a \<mapsto> c')\<rparr>"
  shows "bchain m' b as F" and "frame m m' F"
    and "chunks m' as = map (\<lambda>x. if x = a then piece_bytes c' else cell_bytes (cells m) x) as"
proof -
  have "mem_inv m' (set as \<union> F)"
    unfolding m'_def using rep a c' by (intro mem_inv_upd) (auto simp: bchain_def piece_ok_def)
  moreover have "queue_rep (cells m') b as"
    using rep a c' by (simp add: bchain_def m'_def)
  ultimately show "bchain m' b as F" using rep c' by (auto simp: bchain_def m'_def)
  show "frame m m' F" using rep a by (auto simp: frame_def bchain_def m'_def)
  show "chunks m' as = map (\<lambda>x. if x = a then piece_bytes c' else cell_bytes (cells m) x) as"
    by (simp add: chunks_def m'_def)
qed

lemma bchain_frame:
  assumes "bchain m b as F" and "frame m m' (set as)" and "mem_inv m' (set as \<union> G)" and "set as \<inter> G = {}"
  shows "bchain m' b as G" and "chunks m' as = chunks m as"
proof -
  have eq: "cells m' a = cells m a" if "a \<in> set as" for a
    using assms(2) that by (simp add: frame_def)
  have "queue_rep (cells m') b as = queue_rep (cells m) b as"
    by (rule queue_rep_cong) (simp add: eq)
  moreover have "cell_ok (cells m') a = cell_ok (cells m) a" if "a \<in> set as" for a
    using eq [OF that] by (simp add: cell_ok_def)
  ultimately show "bchain m' b as G" using assms by (auto simp: bchain_def)
  show "chunks m' as = chunks m as" by (rule chunks_cong) (rule eq)
qed

lemma mem_inv_relink:
  assumes "mem_inv m F" and u: "unlinked h = unlinked (cells m)" and same: "\<And>x. x \<notin> F \<Longrightarrow> h x = cells m x"
  shows "mem_inv (m\<lparr>cells := h\<rparr>) F"
proof -
  obtain ps where ps: "cache_rep m F ps" using assms(1) by (auto simp: mem_inv_def)
  have "queue_rep h (pqueue (pool m)) ps = queue_rep (cells m) (pqueue (pool m)) ps"
  proof (rule queue_rep_cong)
    fix a assume "a \<in> set ps"
    then have "a \<notin> F" using ps by (auto simp: cache_rep_def)
    then show "map_option nxt (h a) = map_option nxt (cells m a)" by (simp add: same)
  qed
  moreover have "full_size h a = full_size (cells m) a" for a
    by (rule full_size_unlinked) (simp add: u)
  moreover have "h a = None \<longleftrightarrow> cells m a = None" for a by (metis u unlinked_None)
  ultimately have "cache_rep (m\<lparr>cells := h\<rparr>) F ps" using ps by (simp add: cache_rep_def)
  then show ?thesis by (auto simp: mem_inv_def)
qed

lemma bchain_push:
  assumes rep: "bchain m b as (insert a F)" and aF: "a \<notin> F" and c: "cells m a = Some c" "piece_ok c"
  shows "\<exists>b' m'. mpush (Some a) b m = Inr (b', m') \<and> bchain m' b' (as @ [a]) F
     \<and> chunks m' (as @ [a]) = chunks m as @ [piece_bytes c] \<and> blength b' = blength b \<and> frame m m' F
     \<and> unlinked (cells m') = unlinked (cells m)"
proof -
  have as: "a \<notin> set as" and qr: "queue_rep (cells m) b as" using rep by (auto simp: bchain_def)
  obtain b' h where run: "Queue_push (Some a) b (cells m) = Inr (b', h)"
    and qr': "queue_rep h b' (as @ [a])" and u: "unlinked h = unlinked (cells m)"
    and same: "\<forall>x. x \<notin> insert a (set as) \<longrightarrow> h x = cells m x" and more: "queue.more b' = queue.more b"
    using Queue_push_rep [OF qr c(1) as] by blast
  let ?m = "m\<lparr>cells := h\<rparr>"
  have "mem_inv ?m (set as \<union> insert a F)"
    using rep u same by (intro mem_inv_relink) (auto simp: bchain_def)
  moreover have "cell_ok h x" if "x \<in> set (as @ [a])" for x
    using that rep c cell_ok_unlinked [of h x "cells m"] by (auto simp: u bchain_def cell_ok_iff)
  ultimately have "bchain ?m b' (as @ [a]) F"
    using rep qr' aF by (auto simp: bchain_def)
  moreover have "chunks ?m (as @ [a]) = chunks m as @ [piece_bytes c]"
    using c cell_bytes_unlinked [of h _ "cells m"] by (simp add: chunks_def u) (simp add: cell_bytes_def)
  moreover have "frame m ?m F" using same rep aF by (auto simp: frame_def bchain_def)
  ultimately show ?thesis using run blength_more [OF more] u by (auto simp: mpush_def)
qed

lemma bchain_push_new:
  assumes rep: "bchain m b as F"
  shows "\<exists>a c b' m'. Buffer_push_new b m = Inr (b', m') \<and> bchain m' b' (as @ [a]) F
     \<and> cells m' a = Some c \<and> off c = 0 \<and> len c = 0
     \<and> chunks m' (as @ [a]) = chunks m as @ [[]] \<and> blength b' = blength b \<and> frame m m' F
     \<and> keeps_off m m' as"
proof -
  from rep have "mem_inv m (set as \<union> F)" by (simp add: bchain_def)
  then obtain a m1 c where new: "newPiece m = Inr (Some a, m1)" and a: "a \<notin> set as \<union> F"
    and inv: "mem_inv m1 (insert a (set as \<union> F))" and c: "cells m1 a = Some c" "off c = 0" "len c = 0"
      "length (data c) = kPieceCapacity" and fr: "frame m m1 (set as \<union> F)"
    using newPiece_ok by blast
  have ok: "piece_ok c" and bytes: "piece_bytes c = []" using c by (simp_all add: piece_ok_def piece_bytes_def)
  have "frame m m1 (set as)" using fr by (rule frame_mono) simp
  have "set as \<union> insert a F = insert a (set as \<union> F)" by blast
  then have rep1: "bchain m1 b as (insert a F)" and ch: "chunks m1 as = chunks m as"
    using bchain_frame [OF rep \<open>frame m m1 (set as)\<close>, of "insert a F"] inv rep a by (auto simp: bchain_def)
  obtain b' m' where "mpush (Some a) b m1 = Inr (b', m')" "bchain m' b' (as @ [a]) F"
      "chunks m' (as @ [a]) = chunks m1 as @ [piece_bytes c]" "blength b' = blength b" "frame m1 m' F"
      and u: "unlinked (cells m') = unlinked (cells m1)"
    using bchain_push [OF rep1 _ c(1) ok] a by blast
  moreover have "\<exists>d. cells m' a = Some d \<and> off d = 0 \<and> len d = 0"
    using fun_cong [OF u, of a] c by (cases "cells m' a") (auto simp: unlinked_def unlink_eq_iff)
  moreover have "frame m m1 F" using fr by (rule frame_mono) simp
  moreover have "keeps_off m m' as"
    using keeps_off_trans [OF keeps_off_frame keeps_off_unlinked [OF u]] \<open>frame m m1 (set as)\<close> by blast
  ultimately show ?thesis
    using new ch bytes frame_trans unfolding Buffer_push_new_def by fastforce
qed

lemma bchain_pop:
  assumes "bchain m b (a # as) F"
  shows "\<exists>b'. mpop b m = Inr (Some a, b') \<and> bchain m b' as (insert a F) \<and> blength b' = blength b"
proof -
  from assms have qr: "queue_rep (cells m) b (a # as)" by (simp add: bchain_def)
  then obtain b' where "Queue_pop b (cells m) = Inr (Some a, b')" "queue_rep (cells m) b' as"
    and more: "queue.more b' = queue.more b"
    using Queue_pop_Cons by blast
  moreover have "a \<notin> set as" using qr by (auto dest: queue_rep_distinct)
  moreover have "set as \<union> insert a F = set (a # as) \<union> F" by auto
  ultimately show ?thesis using assms blength_more [OF more] by (auto simp: mpop_def bchain_def)
qed

lemma bchain_drop_front:
  assumes "bchain m b (a # as) F"
  shows "\<exists>b' m'. Buffer_drop_front b m = Inr (b', m') \<and> bchain m' b' as F
     \<and> chunks m' as = chunks m as \<and> blength b' = blength b \<and> frame m m' F"
proof -
  obtain b' where pop: "mpop b m = Inr (Some a, b')" and rep: "bchain m b' as (insert a F)"
    and bl: "blength b' = blength b"
    using bchain_pop [OF assms] by blast
  have a: "a \<notin> set as \<union> F" using assms rep by (auto simp: bchain_def)
  moreover have "mem_inv m (insert a (set as \<union> F))" using rep by (simp add: bchain_def)
  ultimately obtain m' where del: "deletePiece (Some a) m = Inr m'" and inv: "mem_inv m' (set as \<union> F)"
    and fr: "frame m m' (set as \<union> F)"
    using deletePiece_ok by blast
  have "frame m m' (set as)" "frame m m' F" using fr by (auto intro: frame_mono)
  with bchain_frame [OF rep, of m' F] inv rep pop del bl show ?thesis
    by (auto simp: Buffer_drop_front_def bchain_def)
qed

lemma Queue_front_bchain: "bchain m b as F \<Longrightarrow> Queue_front b = (case as of [] \<Rightarrow> None | a # _ \<Rightarrow> Some a)"
  by (auto simp: bchain_def dest: Queue_front_rep)

lemma Queue_back_bchain: "bchain m b as F \<Longrightarrow> Queue_back b = (if as = [] then None else Some (last as))"
  by (auto simp: bchain_def dest: Queue_back_rep)

section \<open>Writing\<close>

lemma map_upd_last:
  "a \<notin> set as \<Longrightarrow> map (\<lambda>x. if x = a then y else f x) (as @ [a]) = map f as @ [y]"
  by (auto cong: map_cong)

lemma bchain_notin: "bchain m b (as @ [a]) F \<Longrightarrow> a \<notin> set as"
  by (auto simp: bchain_def dest!: queue_rep_distinct)

text \<open>Appending to the last piece.\<close>

lemma bchain_append_last:
  assumes rep: "bchain m b (as @ [a]) F" and c: "cells m a = Some c"
    and room: "unat (off c) + unat (len c) + length d \<le> kPieceCapacity"
  shows "\<exists>c1 m1. copy_in (unat (off c) + unat (len c)) d c = Inr c1
     \<and> mstore (Some a) (c1\<lparr>len := len c1 + word_of_nat (length d)\<rparr>) m = Inr m1
     \<and> bchain m1 b (as @ [a]) F \<and> chunks m1 (as @ [a]) = chunks m as @ [piece_bytes c @ d] \<and> frame m m1 F
     \<and> keeps_off m m1 (as @ [a])"
proof -
  have ok: "piece_ok c" using bchain_cell [OF rep, of a] c by auto
  let ?pos = "unat (off c) + unat (len c)"
  let ?c1 = "c\<lparr>data := take ?pos (data c) @ d @ drop (?pos + length d) (data c)\<rparr>"
  let ?c2 = "?c1\<lparr>len := len ?c1 + word_of_nat (length d)\<rparr>"
  have c2: "piece_ok ?c2" "piece_bytes ?c2 = piece_bytes c @ d"
    using piece_append [OF ok room] by simp_all
  have "copy_in ?pos d c = Inr ?c1" using room ok by (simp add: copy_in_ok piece_ok_def)
  moreover have "mstore (Some a) ?c2 m = Inr (m\<lparr>cells := (cells m)(a \<mapsto> ?c2)\<rparr>)"
    using c by (rule mstore_Some)
  moreover note upd = bchain_upd [OF rep _ c c2(1)]
  have "chunks (m\<lparr>cells := (cells m)(a \<mapsto> ?c2)\<rparr>) (as @ [a]) = chunks m as @ [piece_bytes c @ d]"
    using upd(3) c2(2) by (simp only: map_upd_last [OF bchain_notin [OF rep]] chunks_def) simp
  moreover have "keeps_off m (m\<lparr>cells := (cells m)(a \<mapsto> ?c2)\<rparr>) (as @ [a])"
    using c by (auto simp: keeps_off_def)
  ultimately show ?thesis using upd(1,2) by simp
qed

text \<open>One round of \<open>write\<close> that goes on: the last piece is filled and a new one is linked.\<close>

lemma write_fill_push:
  assumes rep: "bchain m b (as @ [a]) F" and c: "cells m a = Some c"
    and d: "length d = kPieceCapacity - unat (off c) - unat (len c)"
  shows "\<exists>c1 m1 a2 c2 b2 m2. copy_in (unat (off c) + unat (len c)) d c = Inr c1
     \<and> mstore (Some a) (c1\<lparr>len := len c1 + word_of_nat (length d)\<rparr>) m = Inr m1 \<and> Buffer_push_new b m1 = Inr (b2, m2)
     \<and> bchain m2 b2 ((as @ [a]) @ [a2]) F \<and> cells m2 a2 = Some c2 \<and> off c2 = 0 \<and> len c2 = 0
     \<and> chunks m2 (as @ [a]) = chunks m as @ [piece_bytes c @ d]
     \<and> blength b2 = blength b \<and> frame m m2 F \<and> keeps_off m m2 (as @ [a])"
proof -
  have "piece_ok c" using bchain_cell [OF rep, of a] c by auto
  then have "unat (off c) + unat (len c) + length d \<le> kPieceCapacity" using d unfolding piece_ok_def by linarith
  from bchain_append_last [OF rep c this] obtain c1 m1 where w: "copy_in (unat (off c) + unat (len c)) d c = Inr c1"
    "mstore (Some a) (c1\<lparr>len := len c1 + word_of_nat (length d)\<rparr>) m = Inr m1" "bchain m1 b (as @ [a]) F"
    "chunks m1 (as @ [a]) = chunks m as @ [piece_bytes c @ d]" "frame m m1 F" "keeps_off m m1 (as @ [a])"
    by blast
  from bchain_push_new [OF w(3)] obtain a2 c2 b2 m2 where p: "Buffer_push_new b m1 = Inr (b2, m2)" "bchain m2 b2 ((as @ [a]) @ [a2]) F"
    "cells m2 a2 = Some c2" "off c2 = 0" "len c2 = 0" "chunks m2 ((as @ [a]) @ [a2]) = chunks m1 (as @ [a]) @ [[]]"
    "blength b2 = blength b" "frame m1 m2 F" "keeps_off m1 m2 (as @ [a])"
    by blast
  have "chunks m2 (as @ [a]) = chunks m as @ [piece_bytes c @ d]" using p(6) w(4) by (simp add: chunks_def)
  then show ?thesis using w(1,2) p(1-5,7) frame_trans [OF w(5) p(8)] keeps_off_trans [OF w(6) p(9)] by blast
qed

lemma Buffer_write_loop_ok:
  "bchain m b (as @ [a]) F \<Longrightarrow> cells m a = Some c \<Longrightarrow>
   room = kPieceCapacity - unat (off c) - unat (len c) \<Longrightarrow>
   length d + (if room = 0 then 1 else 0) < fuel \<Longrightarrow>
   \<exists>b' m' bs. Buffer_write_loop fuel d b m = Inr (b', m') \<and> bchain m' b' (as @ a # bs) F
     \<and> chunks m' (as @ a # bs) = chunks m as @ fill (piece_bytes c) room d
     \<and> blength b' = blength b \<and> frame m m' F \<and> keeps_off m m' (as @ [a])"
proof (induction fuel arbitrary: m b as a c d room)
  case 0
  then show ?case by simp
next
  case (Suc fuel)
  note rep = Suc.prems(1) and c = Suc.prems(2) and room = Suc.prems(3)
  have ok: "piece_ok c" using bchain_cell [OF rep, of a] c by auto
  have bk: "Queue_back b = Some a" using Queue_back_bchain [OF rep] by simp
  show ?case
  proof (cases "length d \<le> room")
    case True
    then have "unat (off c) + unat (len c) + length d \<le> kPieceCapacity"
      using ok room unfolding piece_ok_def by linarith
    from bchain_append_last [OF rep c this] obtain c1 m1 where
      "copy_in (unat (off c) + unat (len c)) d c = Inr c1"
      "mstore (Some a) (c1\<lparr>len := len c1 + word_of_nat (length d)\<rparr>) m = Inr m1"
      "bchain m1 b (as @ [a]) F" "chunks m1 (as @ [a]) = chunks m as @ [piece_bytes c @ d]" "frame m m1 F"
      "keeps_off m m1 (as @ [a])"
      by blast
    then show ?thesis
      using True bk c room by (intro exI [of _ b] exI [of _ m1] exI [of _ "[]"])
        (simp add: mem_simps fill_def)
  next
    case False
    have ld: "length (take room d) = room" using False by simp
    obtain c1 m1 a2 c2 b2 m2 where w: "copy_in (unat (off c) + unat (len c)) (take room d) c = Inr c1"
      "mstore (Some a) (c1\<lparr>len := len c1 + word_of_nat room\<rparr>) m = Inr m1" "Buffer_push_new b m1 = Inr (b2, m2)"
      and rep2: "bchain m2 b2 ((as @ [a]) @ [a2]) F" and c2: "cells m2 a2 = Some c2" "off c2 = 0" "len c2 = 0"
      and ch2: "chunks m2 (as @ [a]) = chunks m as @ [piece_bytes c @ take room d]"
      and bl2: "blength b2 = blength b" and fr2: "frame m m2 F" and k2: "keeps_off m m2 (as @ [a])"
      using write_fill_push [OF rep c, of "take room d"] ld room by auto
    have "kPieceCapacity = kPieceCapacity - unat (off c2) - unat (len c2)" using c2 by simp
    moreover have "length (drop room d) + (if kPieceCapacity = 0 then 1 else 0) < fuel"
      using Suc.prems(4) False by (auto simp: kPieceCapacity_def split: if_splits)
    ultimately obtain b3 m3 bs where l: "Buffer_write_loop fuel (drop room d) b2 m2 = Inr (b3, m3)"
      and rep3: "bchain m3 b3 ((as @ [a]) @ a2 # bs) F"
      and ch3: "chunks m3 ((as @ [a]) @ a2 # bs) = chunks m2 (as @ [a]) @ fill (piece_bytes c2) kPieceCapacity (drop room d)"
      and bl3: "blength b3 = blength b2" and fr3: "frame m2 m3 F" and k3: "keeps_off m2 m3 ((as @ [a]) @ [a2])"
      using Suc.IH [OF rep2 c2(1)] by blast
    have "piece_bytes c2 = []" using c2 by (simp add: piece_bytes_def)
    moreover have "fill (piece_bytes c) room d = (piece_bytes c @ take room d) # chunked (drop room d)"
      using False by (simp add: fill_def)
    ultimately have "chunks m3 (as @ a # a2 # bs) = chunks m as @ fill (piece_bytes c) room d"
      using ch3 ch2 by (simp add: chunked_fill [symmetric])
    moreover have "Buffer_write_loop (Suc fuel) d b m = Inr (b3, m3)"
      using bk c room False w l by (simp add: mem_simps Let_def)
    moreover have "frame m m3 F" using fr2 fr3 by (rule frame_trans)
    moreover have "keeps_off m m3 (as @ [a])"
      using keeps_off_trans [OF k2] k3 unfolding keeps_off_append by blast
    ultimately show ?thesis using rep3 bl2 bl3 by (intro exI [of _ b3] exI [of _ m3] exI [of _ "a2 # bs"]) simp
  qed
qed

text \<open>
  The pieces after a write: \<open>write_chunks chs room d\<close> where \<open>room\<close> is what the last piece
  has left. When there is no piece, or the last one is full, a fresh piece is linked first.
\<close>

definition last_room :: "mem \<Rightarrow> addr list \<Rightarrow> nat" where
  "last_room m as = (if as = [] then 0 else
     case cells m (last as) of None \<Rightarrow> 0 | Some c \<Rightarrow> kPieceCapacity - unat (off c) - unat (len c))"

definition write_chunks :: "byte list list \<Rightarrow> nat \<Rightarrow> byte list \<Rightarrow> byte list list" where
  "write_chunks chs room d = (if chs = [] \<or> room = 0 then chs @ chunked d
     else butlast chs @ fill (last chs) room d)"

lemma concat_write_chunks [simp]: "concat (write_chunks chs room d) = concat chs @ d"
proof (cases chs rule: rev_cases)
  case (snoc xs x)
  then show ?thesis by (simp add: write_chunks_def)
qed (simp add: write_chunks_def)

lemma write_into_fresh:
  assumes rep: "bchain m b as F"
  shows "\<exists>b1 m1 b' m' bs. Buffer_push_new b m = Inr (b1, m1)
     \<and> Buffer_write_loop (Suc (length d)) d b1 m1 = Inr (b', m') \<and> bchain m' b' (as @ bs) F
     \<and> chunks m' (as @ bs) = chunks m as @ chunked d \<and> blength b' = blength b \<and> frame m m' F
     \<and> keeps_off m m' as"
proof -
  from bchain_push_new [OF rep] obtain a c b1 m1 where p: "Buffer_push_new b m = Inr (b1, m1)"
    and rep1: "bchain m1 b1 (as @ [a]) F" and c: "cells m1 a = Some c" "off c = 0" "len c = 0"
    and ch: "chunks m1 (as @ [a]) = chunks m as @ [[]]" and bl: "blength b1 = blength b" and fr: "frame m m1 F"
    and k: "keeps_off m m1 as"
    by blast
  have "kPieceCapacity = kPieceCapacity - unat (off c) - unat (len c)" using c by simp
  moreover have "length d + (if kPieceCapacity = 0 then 1 else 0) < Suc (length d)"
    by (simp add: kPieceCapacity_def)
  ultimately obtain b' m' bs where w: "Buffer_write_loop (Suc (length d)) d b1 m1 = Inr (b', m')"
    and rep': "bchain m' b' (as @ a # bs) F"
    and ch': "chunks m' (as @ a # bs) = chunks m1 as @ fill (piece_bytes c) kPieceCapacity d"
    and bl': "blength b' = blength b1" and fr': "frame m1 m' F" and k': "keeps_off m1 m' as"
    using Buffer_write_loop_ok [OF rep1 c(1), of kPieceCapacity d "Suc (length d)"]
    unfolding keeps_off_append by blast
  have "chunks m1 as = chunks m as" using ch by (simp add: chunks_def)
  moreover have "piece_bytes c = []" using c by (simp add: piece_bytes_def)
  ultimately have "chunks m' (as @ a # bs) = chunks m as @ chunked d"
    using ch' by (simp add: chunked_fill)
  moreover have "frame m m' F" using fr fr' by (rule frame_trans)
  moreover have "keeps_off m m' as" using k k' by (rule keeps_off_trans)
  ultimately show ?thesis using p w rep' bl bl' by auto
qed

lemma Buffer_write_ok:
  assumes rep: "bchain m b as F"
  shows "\<exists>b' m' bs. Buffer_write d b m = Inr (b', m') \<and> bchain m' b' (as @ bs) F
     \<and> chunks m' (as @ bs) = write_chunks (chunks m as) (last_room m as) d
     \<and> blength b' = blength b + length d \<and> frame m m' F \<and> keeps_off m m' as"
proof (cases as rule: rev_cases)
  case Nil
  have nil: "chunks m [] = []" by (simp add: chunks_def)
  from Nil rep have "Queue_back b = None" using Queue_back_bchain by simp
  then show ?thesis
    using write_into_fresh [OF rep, of d] Nil nil
    by (fastforce simp: Buffer_write_def write_chunks_def)
next
  case (snoc xs a)
  then obtain c where c: "cells m a = Some c" "piece_ok c" using bchain_cell [OF rep, of a] by auto
  have bk: "Queue_back b = Some a" using Queue_back_bchain [OF rep] snoc by simp
  let ?room = "kPieceCapacity - unat (off c) - unat (len c)"
  have room: "last_room m as = ?room" using snoc c by (simp add: last_room_def)
  have ne: "chunks m as \<noteq> []" using snoc by (simp add: chunks_def)
  have full: "unat (off c) + unat (len c) = kPieceCapacity \<longleftrightarrow> ?room = 0"
    using c(2) by (auto simp: piece_ok_def)
  show ?thesis
  proof (cases "?room = 0")
    case True
    then have "Buffer_write d b m = rbind (Buffer_push_new b m) (\<lambda>(b1, m1).
       rbind (Buffer_write_loop (Suc (length d)) d b1 m1) (\<lambda>(b2, m2).
       Inr (b2\<lparr>blength := blength b2 + length d\<rparr>, m2)))"
      using bk c full by (simp add: Buffer_write_def mem_simps)
    then show ?thesis
      using write_into_fresh [OF rep, of d] True room by (fastforce simp: write_chunks_def)
  next
    case False
    have "length d + (if ?room = 0 then 1 else 0) < Suc (length d)" using False by simp
    then obtain b' m' bs where w: "Buffer_write_loop (Suc (length d)) d b m = Inr (b', m')"
      "bchain m' b' (xs @ a # bs) F" "chunks m' (xs @ a # bs) = chunks m xs @ fill (piece_bytes c) ?room d"
      "blength b' = blength b" "frame m m' F" "keeps_off m m' (xs @ [a])"
      using Buffer_write_loop_ok [of m b xs a F c ?room d] rep snoc c by blast
    moreover have "chunks m as = chunks m xs @ [piece_bytes c]"
      using snoc c by (simp add: chunks_def cell_bytes_def)
    ultimately show ?thesis
      using bk c full False room
      using snoc by (intro exI [of _ "b'\<lparr>blength := blength b' + length d\<rparr>"] exI [of _ m'] exI [of _ bs])
        (simp add: Buffer_write_def mem_simps write_chunks_def)
  qed
qed

lemma Buffer_write_holds:
  assumes "holds m b bs F"
  shows "\<exists>b' m'. Buffer_write d b m = Inr (b', m') \<and> holds m' b' (bs @ d) F \<and> frame m m' F"
proof -
  obtain as where as: "bchain m b as F" "chain_bytes (cells m) as = bs" "blength b = length bs"
    using assms by (auto simp: holds_def)
  then obtain b' m' xs where w: "Buffer_write d b m = Inr (b', m')" "bchain m' b' (as @ xs) F"
    "chunks m' (as @ xs) = write_chunks (chunks m as) (last_room m as) d"
    "blength b' = blength b + length d" "frame m m' F"
    using Buffer_write_ok by blast
  have "chain_bytes (cells m') (as @ xs) = bs @ d"
    using w(3) as(2) by (metis concat_chunks concat_write_chunks)
  with w as show ?thesis unfolding holds_def by (metis length_append)
qed

section \<open>Reading\<close>

text \<open>
  One iteration of the reading loops: the front piece is consumed in part, or dropped.
\<close>

lemma bchain_consume_front:
  assumes rep: "bchain m b (a # as) F" and c: "cells m a = Some c" and n: "n < unat (len c)"
  defines "c' \<equiv> c\<lparr>off := off c + word_of_nat n, len := len c - word_of_nat n\<rparr>"
  shows "\<exists>m'. mstore (Some a) c' m = Inr m' \<and> bchain m' b (a # as) F
     \<and> chunks m' (a # as) = drop n (piece_bytes c) # chunks m as \<and> frame m m' F"
proof -
  have ok: "piece_ok c" using bchain_cell [OF rep, of a] c by auto
  have c': "piece_ok c'" "piece_bytes c' = drop n (piece_bytes c)"
    using piece_consume [OF ok, of n] n by (simp_all add: c'_def)
  have a: "a \<notin> set as" using rep by (auto simp: bchain_def dest!: queue_rep_distinct)
  show ?thesis
    using bchain_upd(1,2) [OF rep _ c c'(1)] c'(2) a c by (auto simp: c'_def mem_simps chunks_def)
qed

text \<open>What is left of a list of chunks after \<open>n\<close> bytes have been taken from its front.\<close>

fun cut :: "nat \<Rightarrow> byte list list \<Rightarrow> byte list list" where
  "cut n [] = []"
| "cut n (c # cs) = (if n < length c then drop n c # cs else if n = length c then cs else cut (n - length c) cs)"

lemma concat_cut [simp]: "concat (cut n cs) = drop n (concat cs)"
  by (induction n cs rule: cut.induct) auto

lemma cut_nonempty: "\<forall>c \<in> set cs. c \<noteq> [] \<Longrightarrow> \<forall>c \<in> set (cut n cs). c \<noteq> []"
  by (induction n cs rule: cut.induct) auto

lemma Buffer_read_loop_ok:
  "bchain m b as F \<Longrightarrow> left \<le> length (chain_bytes (cells m) as) \<Longrightarrow> 0 < left \<Longrightarrow> length as < fuel \<Longrightarrow>
   \<exists>b' m' as'. Buffer_read_loop fuel left b m = Inr (take left (chain_bytes (cells m) as), b', m')
     \<and> bchain m' b' as' F \<and> chunks m' as' = cut left (chunks m as)
     \<and> blength b' = blength b \<and> frame m m' F"
proof (induction fuel arbitrary: m b as left)
  case 0
  then show ?case by simp
next
  case (Suc fuel)
  then obtain a xs where as: "as = a # xs" by (cases as) auto
  note rep = Suc.prems(1) [unfolded as]
  obtain c where c: "cells m a = Some c" "piece_ok c" using bchain_cell [OF rep, of a] by auto
  have front: "Queue_front b = Some a" using Queue_front_bchain [OF rep] by simp
  have bytes: "chain_bytes (cells m) as = piece_bytes c @ chain_bytes (cells m) xs"
    using as c by (simp add: cell_bytes_def)
  have chs: "chunks m as = piece_bytes c # chunks m xs" using as c by (simp add: chunks_def cell_bytes_def)
  have l: "length (piece_bytes c) = unat (len c)" using c by simp
  have out: "copy_out c (unat (off c)) n = Inr (take n (piece_bytes c))" if "n \<le> unat (len c)" for n
    using c that by (simp add: copy_out_ok piece_ok_def piece_bytes_def min_def)
  from bchain_drop_front [OF rep] obtain b1 m1 where df: "Buffer_drop_front b m = Inr (b1, m1)"
    and rep1: "bchain m1 b1 xs F" and ch1: "chunks m1 xs = chunks m xs"
    and bl1: "blength b1 = blength b" and fr1: "frame m m1 F" by blast
  have by1: "chain_bytes (cells m1) xs = chain_bytes (cells m) xs" using ch1 by (metis concat_chunks)
  consider "left < unat (len c)" | "left = unat (len c)" | "unat (len c) < left" by linarith
  then show ?case
  proof cases
    case 1
    then obtain m' where "mstore (Some a) (c\<lparr>off := off c + word_of_nat left, len := len c - word_of_nat left\<rparr>) m = Inr m'"
      "bchain m' b (a # xs) F"
      "chunks m' (a # xs) = drop left (piece_bytes c) # chunks m xs" "frame m m' F"
      using bchain_consume_front [OF rep c(1)] by blast
    then show ?thesis using 1 front c out bytes chs l
      by (intro exI [of _ b] exI [of _ m'] exI [of _ "a # xs"]) (simp add: mem_simps)
  next
    case 2
    then show ?thesis using front c out bytes chs l df rep1 ch1 bl1 fr1
      by (intro exI [of _ b1] exI [of _ m1] exI [of _ xs]) (simp add: mem_simps)
  next
    case 3
    have "left - unat (len c) \<le> length (chain_bytes (cells m1) xs)" "0 < left - unat (len c)" "length xs < fuel"
      using Suc.prems 3 bytes l by1 as by auto
    from Suc.IH [OF rep1 this] obtain b2 m2 as' where
      r: "Buffer_read_loop fuel (left - unat (len c)) b1 m1 = Inr (take (left - unat (len c)) (chain_bytes (cells m1) xs), b2, m2)"
      "bchain m2 b2 as' F" "chunks m2 as' = cut (left - unat (len c)) (chunks m1 xs)"
      "blength b2 = blength b1" "frame m1 m2 F" by blast
    have "frame m m2 F" using fr1 r(5) by (rule frame_trans)
    with r show ?thesis using 3 front c out bytes chs l df by1 ch1 bl1
      by (intro exI [of _ b2] exI [of _ m2] exI [of _ as']) (simp add: mem_simps)
  qed
qed

lemma bchain_few:
  assumes "bchain m b as F"
  shows "length as \<le> brk m"
proof -
  have "set as \<subseteq> {..<brk m}"
  proof
    fix a assume "a \<in> set as"
    then obtain c where "cells m a = Some c" using bchain_cell [OF assms] by blast
    moreover have "\<forall>x. brk m \<le> x \<longrightarrow> cells m x = None"
      using assms by (auto simp: bchain_def mem_inv_def cache_rep_def)
    ultimately show "a \<in> {..<brk m}" by (metis lessThan_iff not_le option.distinct(1))
  qed
  then have "card (set as) \<le> brk m" using card_mono [of "{..<brk m}" "set as"] by simp
  moreover have "distinct as" using assms by (auto simp: bchain_def dest: queue_rep_distinct)
  ultimately show ?thesis by (simp add: distinct_card)
qed

lemma Buffer_read_chain:
  assumes as: "bchain m b as F" "blength b = length (chain_bytes (cells m) as)"
    and n: "0 < n" "n \<le> length (chain_bytes (cells m) as)"
  shows "\<exists>b' m' as'. Buffer_read n b m = Inr (take n (chain_bytes (cells m) as), b', m') \<and> bchain m' b' as' F
     \<and> chunks m' as' = cut n (chunks m as) \<and> blength b' = length (chain_bytes (cells m') as') \<and> frame m m' F"
proof -
  have "length as < Suc (brk m)" using bchain_few [OF as(1)] by simp
  then obtain b' m' as' where r: "Buffer_read_loop (Suc (brk m)) n b m = Inr (take n (chain_bytes (cells m) as), b', m')"
    "bchain m' b' as' F" "chunks m' as' = cut n (chunks m as)" "blength b' = blength b" "frame m m' F"
    using Buffer_read_loop_ok [OF as(1), of n "Suc (brk m)"] n by blast
  have "chain_bytes (cells m') as' = drop n (chain_bytes (cells m) as)"
    using r(3) by (metis concat_chunks concat_cut)
  then show ?thesis using r as n
    by (intro exI [of _ "b'\<lparr>blength := blength b' - n\<rparr>"] exI [of _ m'] exI [of _ as'])
      (simp add: Buffer_read_def Buffer_length_def)
qed

lemma Buffer_read_holds:
  assumes "holds m b bs F" and "0 < n" and "n \<le> length bs"
  shows "\<exists>b' m'. Buffer_read n b m = Inr (take n bs, b', m') \<and> holds m' b' (drop n bs) F \<and> frame m m' F"
proof -
  obtain as where as: "bchain m b as F" "chain_bytes (cells m) as = bs" "blength b = length bs"
    using assms(1) by (auto simp: holds_def)
  then obtain b' m' as' where r: "Buffer_read n b m = Inr (take n bs, b', m')" "bchain m' b' as' F"
    "chunks m' as' = cut n (chunks m as)" "blength b' = length (chain_bytes (cells m') as')" "frame m m' F"
    using Buffer_read_chain [OF as(1)] assms(2,3) by blast
  moreover have "chain_bytes (cells m') as' = drop n bs" using r(3) as(2) by (metis concat_chunks concat_cut)
  ultimately show ?thesis by (auto simp: holds_def)
qed

text \<open>\<open>skip\<close> is \<open>read\<close> without the copy, also for a count of zero on a non-empty chain.\<close>

lemma Buffer_skip_loop_read:
  "bchain m b as F \<Longrightarrow> Buffer_read_loop fuel left b m = Inr (bs, b', m') \<Longrightarrow>
   Buffer_skip_loop fuel left b m = Inr (b', m')"
proof (induction fuel arbitrary: m b as left bs)
  case 0
  then show ?case by simp
next
  case (Suc fuel)
  show ?case
  proof (cases as)
    case Nil
    then show ?thesis
      using Suc.prems Queue_front_bchain [OF Suc.prems(1)] by (simp add: mderef_def deref_def)
  next
    case (Cons a xs)
    note rep = Suc.prems(1) [unfolded Cons]
    obtain c where c: "cells m a = Some c" using bchain_cell [OF rep, of a] by auto
    have front: "Queue_front b = Some a" using Queue_front_bchain [OF rep] by simp
    obtain b1 m1 where "Buffer_drop_front b m = Inr (b1, m1)" "bchain m1 b1 xs F"
      using bchain_drop_front [OF rep] by blast
    then show ?thesis
      using Suc.prems(2) front c Suc.IH [of m1 b1 xs "left - unat (len c)"]
      by (auto simp: mem_simps rbind_eq_Inr_iff split: if_splits prod.splits)
  qed
qed

lemma Buffer_skip_read:
  assumes "bchain m b as F" and "Buffer_read n b m = Inr (bs, b', m')"
  shows "Buffer_skip n b m = Inr (b', m')"
proof -
  obtain b1 where r: "Buffer_read_loop (Suc (brk m)) n b m = Inr (bs, b1, m')" "b' = b1\<lparr>blength := blength b1 - n\<rparr>"
    "Buffer_length b \<ge> n"
    using assms(2) by (auto simp: Buffer_read_def rbind_eq_Inr_iff cassert_def simp del: Buffer_read_loop.simps split: if_splits)
  then show ?thesis using Buffer_skip_loop_read [OF assms(1) r(1)]
    by (simp add: Buffer_skip_def del: Buffer_skip_loop.simps)
qed

lemma Buffer_skip_holds:
  assumes "holds m b bs F" and "0 < n" and "n \<le> length bs"
  shows "\<exists>b' m'. Buffer_skip n b m = Inr (b', m') \<and> holds m' b' (drop n bs) F \<and> frame m m' F"
proof -
  obtain as where "bchain m b as F" using assms(1) by (auto simp: holds_def)
  then show ?thesis using Buffer_read_holds [OF assms] Buffer_skip_read by blast
qed

end
