(* ===== verification/Buffer_Laws.thy ===== *)
theory Buffer_Laws
  imports Net_Buffer
begin

text \<open>
  The remaining laws of the buffer of \<^verbatim>\<open>src/netpp/net/buffer.cpp\<close>, the contract
  \<open>byte_stream\<close> its clients use, and the properties of the component: appending and reading
  are the two ends of a byte queue; integers travel in network byte order and come back
  unchanged; prepending uses the reserve made by \<open>reservedPrepend\<close>; \<open>peek\<close> is right as
  long as the front piece holds the whole integer and writes out of bounds otherwise;
  \<open>read\<close> into another buffer is right within one piece and fails beyond.
\<close>

section \<open>The reserve in front\<close>

text \<open>\<open>holds\<close> with a front piece that has exactly \<open>r\<close> free bytes before its window.\<close>

definition holds_reserve :: "mem \<Rightarrow> buffer \<Rightarrow> byte list \<Rightarrow> addr set \<Rightarrow> nat \<Rightarrow> bool" where
  "holds_reserve m b bs F r \<longleftrightarrow> (\<exists>a as c. bchain m b (a # as) F \<and> chain_bytes (cells m) (a # as) = bs
     \<and> blength b = length bs \<and> cells m a = Some c \<and> unat (off c) = r)"

lemma holds_reserve_holds: "holds_reserve m b bs F r \<Longrightarrow> holds m b bs F"
  by (auto simp: holds_reserve_def holds_def)

lemma holds_new: "mem_inv m F \<Longrightarrow> holds m Buffer_new [] F"
  unfolding holds_def by (rule exI [of _ "[]"]) (simp add: bchain_def Buffer_new_def queue_rep_def)

lemma bchain_new: "mem_inv m F \<Longrightarrow> bchain m Buffer_new [] F"
  by (simp add: bchain_def Buffer_new_def queue_rep_def)

text \<open>A buffer of a single piece, with the reserve in front of its bytes.\<close>

definition holds_one :: "mem \<Rightarrow> buffer \<Rightarrow> byte list \<Rightarrow> addr set \<Rightarrow> nat \<Rightarrow> bool" where
  "holds_one m b bs F r \<longleftrightarrow> (\<exists>a c. bchain m b [a] F \<and> cells m a = Some c \<and> unat (off c) = r
     \<and> piece_bytes c = bs \<and> blength b = length bs)"

lemma holds_one_reserve: "holds_one m b bs F r \<Longrightarrow> holds_reserve m b bs F r"
  unfolding holds_one_def holds_reserve_def by (force simp: cell_bytes_def)

lemma reservedPrepend_one:
  assumes rep: "bchain m b [] F" and b0: "blength b = 0" and n: "n < kPieceCapacity"
  shows "\<exists>b' m'. Buffer_reservedPrepend n b m = Inr (b', m') \<and> holds_one m' b' [] F n \<and> frame m m' F"
proof -
  from rep have "mem_inv m F" by (simp add: bchain_def)
  then obtain a m1 c where new: "newPiece m = Inr (Some a, m1)" and a: "a \<notin> F"
    and inv: "mem_inv m1 (insert a F)" and c: "cells m1 a = Some c" "length (data c) = kPieceCapacity"
    and fr: "frame m m1 F"
    using newPiece_ok by blast
  let ?c = "c\<lparr>off := word_of_nat n, len := 0\<rparr>"
  let ?m = "m1\<lparr>cells := (cells m1)(a \<mapsto> ?c)\<rparr>"
  have off: "unat (off ?c) = n" using n by (simp add: kPieceCapacity_def)
  have ok: "piece_ok ?c" and nil: "piece_bytes ?c = []"
    using c n off by (simp_all add: piece_ok_def piece_bytes_def)
  have inv2: "mem_inv ?m (insert a F)" using inv c by (intro mem_inv_upd) auto
  have rep2: "bchain ?m b [] (insert a F)" using rep inv2 by (simp add: bchain_def queue_rep_def)
  obtain b' m' where p: "mpush (Some a) b ?m = Inr (b', m')" "bchain m' b' [a] F"
    "chunks m' [a] = [piece_bytes ?c]" "blength b' = blength b" "frame ?m m' F"
    "unlinked (cells m') = unlinked (cells ?m)"
    using bchain_push [OF rep2 a _ ok] by (auto simp: chunks_def)
  have "frame m1 ?m F" using a by (auto simp: frame_def)
  then have "frame m m' F" using fr p(5) frame_trans by blast
  moreover have "\<exists>d. cells m' a = Some d \<and> off d = off ?c"
    using fun_cong [OF p(6), of a] by (cases "cells m' a") (auto simp: unlinked_def unlink_eq_iff)
  moreover have "cell_bytes (cells m') a = []" using p(3) nil by (simp add: chunks_def)
  moreover have "Queue_front b = None" using Queue_front_bchain [OF rep] by simp
  ultimately show ?thesis
    using new c n b0 p off unfolding holds_one_def
    by (fastforce simp: Buffer_reservedPrepend_def Buffer_length_def mem_simps cell_bytes_def)
qed

lemma reservedPrepend_ok:
  assumes "bchain m b [] F" and "blength b = 0" and "n < kPieceCapacity"
  shows "\<exists>b' m'. Buffer_reservedPrepend n b m = Inr (b', m') \<and> holds_reserve m' b' [] F n \<and> frame m m' F"
  using reservedPrepend_one [OF assms] holds_one_reserve by blast

lemma Buffer_prepend_reserve:
  assumes "holds_reserve m b bs F r" and room: "length d \<le> r"
  shows "\<exists>b' m'. Buffer_prepend d b m = Inr (b', m') \<and> holds_reserve m' b' (d @ bs) F (r - length d)
     \<and> frame m m' F"
proof -
  obtain a as c where rep: "bchain m b (a # as) F" and bytes: "chain_bytes (cells m) (a # as) = bs"
    and bl: "blength b = length bs" and c: "cells m a = Some c" "unat (off c) = r"
    using assms(1) by (auto simp: holds_reserve_def)
  have ok: "piece_ok c" using bchain_cell [OF rep, of a] c by auto
  let ?pos = "unat (off c) - length d"
  let ?c = "c\<lparr>off := off c - word_of_nat (length d),
              data := take ?pos (data c) @ d @ drop (?pos + length d) (data c),
              len := len c + word_of_nat (length d)\<rparr>"
  have c': "piece_ok ?c" "piece_bytes ?c = d @ piece_bytes c"
    using piece_prepend [OF ok, of d] room c by simp_all
  have o: "unat (off c - word_of_nat (length d)) = ?pos" using room c by simp
  have "?pos + length d \<le> length (data c)" using ok room c by (simp add: piece_ok_def)
  then have ci: "copy_in ?pos d (c\<lparr>off := off c - word_of_nat (length d)\<rparr>)
      = Inr (c\<lparr>off := off c - word_of_nat (length d), data := take ?pos (data c) @ d @ drop (?pos + length d) (data c)\<rparr>)"
    by (simp add: copy_in_def)
  let ?m = "m\<lparr>cells := (cells m)(a \<mapsto> ?c)\<rparr>"
  have rep': "bchain ?m b (a # as) F" and fr: "frame m ?m F"
    using bchain_upd(1,2) [OF rep _ c(1) c'(1)] by simp_all
  have a: "a \<notin> set as" using rep by (auto simp: bchain_def dest!: queue_rep_distinct)
  have "Buffer_prepend d b m = Inr (b\<lparr>blength := blength b + length d\<rparr>, ?m)"
    using Queue_front_bchain [OF rep] c room o ci by (simp add: Buffer_prepend_def mem_simps Let_def)
  moreover have "chain_bytes (cells ?m) (a # as) = d @ bs"
    using a c'(2) bytes c by (simp add: cell_bytes_def [of "cells m"])
  ultimately show ?thesis
    using rep' fr bl o c unfolding holds_reserve_def by fastforce
qed

lemma Buffer_write_reserve:
  assumes "holds_reserve m b bs F r"
  shows "\<exists>b' m'. Buffer_write d b m = Inr (b', m') \<and> holds_reserve m' b' (bs @ d) F r \<and> frame m m' F"
proof -
  obtain a as c where rep: "bchain m b (a # as) F" and bytes: "chain_bytes (cells m) (a # as) = bs"
    and bl: "blength b = length bs" and c: "cells m a = Some c" "unat (off c) = r"
    using assms(1) by (auto simp: holds_reserve_def)
  obtain b' m' xs where w: "Buffer_write d b m = Inr (b', m')" "bchain m' b' ((a # as) @ xs) F"
    "chunks m' ((a # as) @ xs) = write_chunks (chunks m (a # as)) (last_room m (a # as)) d"
    "blength b' = blength b + length d" "frame m m' F" "keeps_off m m' (a # as)"
    using Buffer_write_ok [OF rep] by blast
  have "chain_bytes (cells m') (a # (as @ xs)) = bs @ d"
    using w(3) bytes by (metis append_Cons concat_chunks concat_write_chunks)
  moreover have "\<exists>c'. cells m' a = Some c' \<and> off c' = off c"
    using w(6) c by (auto simp: keeps_off_def)
  ultimately show ?thesis using w bl c unfolding holds_reserve_def
    by (metis append_Cons length_append)
qed

lemma Buffer_prepend_one:
  assumes "holds_one m b bs F r" and "length d \<le> r"
  shows "\<exists>b' m'. Buffer_prepend d b m = Inr (b', m') \<and> holds_one m' b' (d @ bs) F (r - length d) \<and> frame m m' F"
proof -
  obtain a c where a: "bchain m b [a] F" using assms(1) by (auto simp: holds_one_def)
  obtain b' m' where p: "Buffer_prepend d b m = Inr (b', m')" "holds_reserve m' b' (d @ bs) F (r - length d)" "frame m m' F"
    using Buffer_prepend_reserve [OF holds_one_reserve [OF assms(1)] assms(2)] by blast
  obtain a' as c' where q: "bchain m' b' (a' # as) F" "chain_bytes (cells m') (a' # as) = d @ bs"
    "blength b' = length (d @ bs)" "cells m' a' = Some c'" "unat (off c') = r - length d"
    using p(2) by (auto simp: holds_reserve_def)
  have "qhead b' = qhead b" "qtail b' = qtail b" using p(1) by (auto simp: Buffer_prepend_def Let_def rbind_eq_Inr_iff)
  then have "a' = last (a' # as)" using Queue_back_bchain [OF a] Queue_front_bchain [OF a]
      Queue_back_bchain [OF q(1)] Queue_front_bchain [OF q(1)] by (simp add: Queue_back_def Queue_front_def)
  moreover have "distinct (a' # as)" using q(1) by (auto simp: bchain_def dest: queue_rep_distinct)
  ultimately have "as = []" by (cases as rule: rev_cases) auto
  then show ?thesis using p(1,3) q by (auto simp: holds_one_def cell_bytes_def)
qed

section \<open>The contract of a byte stream\<close>

primrec write_list :: "(byte list \<Rightarrow> 'b \<Rightarrow> 'm \<Rightarrow> error + ('b \<times> 'm)) \<Rightarrow> byte list list \<Rightarrow> 'b \<Rightarrow> 'm \<Rightarrow> error + ('b \<times> 'm)" where
  "write_list wr [] b m = Inr (b, m)"
| "write_list wr (d # ds) b m = rbind (wr d b m) (\<lambda>(b1, m1). write_list wr ds b1 m1)"

locale byte_stream =
  fixes rep :: "'m \<Rightarrow> 'b \<Rightarrow> byte list \<Rightarrow> 'f \<Rightarrow> bool"
    and wr :: "byte list \<Rightarrow> 'b \<Rightarrow> 'm \<Rightarrow> error + ('b \<times> 'm)"
    and rd :: "nat \<Rightarrow> 'b \<Rightarrow> 'm \<Rightarrow> error + (byte list \<times> 'b \<times> 'm)"
  assumes wr_law: "rep m b bs F \<Longrightarrow> \<exists>b' m'. wr d b m = Inr (b', m') \<and> rep m' b' (bs @ d) F"
    and rd_law: "rep m b bs F \<Longrightarrow> 0 < n \<Longrightarrow> n \<le> length bs \<Longrightarrow>
      \<exists>b' m'. rd n b m = Inr (take n bs, b', m') \<and> rep m' b' (drop n bs) F"
begin

lemma write_list_law: "rep m b bs F \<Longrightarrow> \<exists>b' m'. write_list wr ds b m = Inr (b', m') \<and> rep m' b' (bs @ concat ds) F"
proof (induction ds arbitrary: m b bs)
  case Nil
  then show ?case by simp
next
  case (Cons d ds)
  from wr_law [OF Cons.prems] obtain b1 m1 where w: "wr d b m = Inr (b1, m1)" "rep m1 b1 (bs @ d) F"
    by blast
  from Cons.IH [OF w(2)] w(1) show ?case by auto
qed

lemma read_front:
  assumes "rep m b (xs @ ys) F" and "xs \<noteq> []"
  shows "\<exists>b' m'. rd (length xs) b m = Inr (xs, b', m') \<and> rep m' b' ys F"
  using rd_law [OF assms(1), of "length xs"] assms(2) by simp

text \<open>What was written last is read after everything that was there before.\<close>

lemma write_then_read:
  assumes "rep m b bs F" and "bs \<noteq> []" and "d \<noteq> []"
  shows "\<exists>b1 m1 b2 m2 b3 m3. wr d b m = Inr (b1, m1) \<and> rd (length bs) b1 m1 = Inr (bs, b2, m2)
     \<and> rd (length d) b2 m2 = Inr (d, b3, m3) \<and> rep m3 b3 [] F"
proof -
  obtain b1 m1 where 1: "wr d b m = Inr (b1, m1)" "rep m1 b1 (bs @ d) F" using wr_law [OF assms(1)] by blast
  obtain b2 m2 where 2: "rd (length bs) b1 m1 = Inr (bs, b2, m2)" "rep m2 b2 d F"
    using read_front [OF 1(2) assms(2)] by blast
  obtain b3 m3 where "rd (length d) b2 m2 = Inr (d, b3, m3)" "rep m3 b3 [] F"
    using read_front [of m2 b2 d "[]" F] 2 assms(3) by auto
  with 1 2 show ?thesis by blast
qed

end

interpretation buffer_stream: byte_stream holds Buffer_write Buffer_read
proof
  show "\<exists>b' m'. Buffer_write d b m = Inr (b', m') \<and> holds m' b' (bs @ d) F" if "holds m b bs F" for m b bs F d
    using Buffer_write_holds [OF that] by blast
  show "\<exists>b' m'. Buffer_read n b m = Inr (take n bs, b', m') \<and> holds m' b' (drop n bs) F"
    if "holds m b bs F" "0 < n" "n \<le> length bs" for m b bs F n
    using Buffer_read_holds [OF that] by blast
qed

section \<open>Peeking\<close>

lemma Buffer_peek_front:
  assumes rep: "bchain m b (a # as) F" and c: "cells m a = Some c"
    and n: "n \<le> unat (len c)" "n \<le> blength b"
  shows "Buffer_peek n b m = Inr (take n (chain_bytes (cells m) (a # as)))"
proof -
  have ok: "piece_ok c" using bchain_cell [OF rep, of a] c by auto
  have "copy_out c (unat (off c)) n = Inr (take n (piece_bytes c))"
    using ok n by (simp add: copy_out_ok piece_ok_def piece_bytes_def min_def)
  moreover have "length (take n (piece_bytes c)) = n" using ok n by simp
  moreover have "take n (chain_bytes (cells m) (a # as)) = take n (piece_bytes c)"
    using ok n c by (simp add: cell_bytes_def)
  ultimately show ?thesis
    using Queue_front_bchain [OF rep] c n
    by (simp add: Buffer_peek_def Buffer_length_def poke_def mem_simps)
qed

lemma peek_loop_out_of_bounds:
  "chain (cells m) cur as None \<Longrightarrow> \<forall>a \<in> set as. cell_ok (cells m) a \<Longrightarrow> length t = n \<Longrightarrow>
   0 < left \<Longrightarrow> left < n \<Longrightarrow> left \<le> length (chain_bytes (cells m) as) \<Longrightarrow> length as < fuel \<Longrightarrow>
   Buffer_peek_loop fuel n left t cur m = Inl OutOfBounds"
proof (induction as arbitrary: fuel cur)
  case Nil
  then show ?case by simp
next
  case (Cons a as)
  then obtain c k where c: "cells m a = Some c" "piece_ok c" "cur = Some a" "chain (cells m) (nxt c) as None"
    and k: "fuel = Suc k" by (cases fuel) (auto simp: cell_ok_iff)
  have out: "copy_out c (unat (off c)) i = Inr (take i (piece_bytes c))" if "i \<le> unat (len c)" for i
    using c that by (simp add: copy_out_ok piece_ok_def piece_bytes_def min_def)
  have pos: "n \<le> (n - left) * n" using Cons.prems by (cases "n - left") auto
  show ?case
  proof (cases "unat (len c) = 0")
    case True
    then have nil: "piece_bytes c = []" using c by (simp add: piece_bytes_def)
    have IH: "Buffer_peek_loop k n left t (nxt c) m = Inl OutOfBounds"
      using Cons.prems c k nil by (intro Cons.IH) (auto simp: cell_bytes_def)
    have len0: "len c = 0" using True by (simp add: unat_eq_0)
    then show ?thesis
      using k c out [of 0] IH nil Cons.prems True
      by (auto simp: mem_simps poke_def)
  next
    case False
    have poke: "poke ((n - left) * n) (take i (piece_bytes c)) t = Inl OutOfBounds" if "0 < i" for i
    proof -
      have "0 < length (take i (piece_bytes c))" using that c False by simp
      then have "\<not> (n - left) * n + length (take i (piece_bytes c)) \<le> length t"
        using pos Cons.prems(3) by linarith
      then show ?thesis by (simp only: poke_def if_False)
    qed
    show ?thesis
      using k c out [of left] out [of "unat (len c)"] poke [of left] poke [of "unat (len c)"] Cons.prems(4) False
      by (simp add: mem_simps)
  qed
qed

text \<open>An integer that starts in a non-empty front piece and ends in a later one.\<close>

lemma Buffer_peek_straddle:
  assumes rep: "bchain m b (a # as) F" and c: "cells m a = Some c"
    and n: "0 < unat (len c)" "unat (len c) < n" and bl: "n \<le> blength b"
    and bytes: "blength b = length (chain_bytes (cells m) (a # as))"
  shows "Buffer_peek n b m = Inl OutOfBounds"
proof -
  have ok: "piece_ok c" using bchain_cell [OF rep, of a] c by auto
  let ?k = "unat (len c)"
  have out: "copy_out c (unat (off c)) ?k = Inr (piece_bytes c)"
    using ok by (simp add: copy_out_ok piece_ok_def piece_bytes_def)
  have pk: "poke 0 (piece_bytes c) (replicate n 0) = Inr (piece_bytes c @ replicate (n - ?k) 0)"
    using ok n by (simp add: poke_def)
  have "chain (cells m) (nxt c) as None" using rep c by (auto simp: bchain_def queue_rep_def)
  moreover have "\<forall>x \<in> set as. cell_ok (cells m) x" using rep by (simp add: bchain_def)
  moreover have "length (piece_bytes c @ replicate (n - ?k) 0) = n" using ok n by simp
  moreover have "n - ?k \<le> length (chain_bytes (cells m) as)"
    using bl bytes c ok by (simp add: cell_bytes_def)
  moreover have "length as < Suc (brk m)" using bchain_few [OF rep] by simp
  ultimately have "Buffer_peek_loop (Suc (brk m)) n (n - ?k) (piece_bytes c @ replicate (n - ?k) 0) (nxt c) m
      = Inl OutOfBounds"
    using n by (intro peek_loop_out_of_bounds) auto
  then show ?thesis
    using Queue_front_bchain [OF rep] c n bl out pk
    by (simp add: Buffer_peek_def Buffer_length_def mem_simps)
qed

section \<open>Moving the whole content\<close>

lemma moveToQueueHead_chain:
  assumes "bchain m b as F" and "Buffer_moveToQueueHead b = (p, b')"
  shows "chain (cells m) p as None" and "b' = Buffer_new"
  using assms by (cases b; auto simp: Buffer_moveToQueueHead_def Buffer_new_def bchain_def queue_rep_def)+

lemma Buffer_swap_eq: "Buffer_swap b c = (c, b)"
  by (cases b; cases c) (simp add: Buffer_swap_def)

lemma Buffer_clear_loop_ok:
  "bchain m b as F \<Longrightarrow> length as \<le> fuel \<Longrightarrow> length as < 2 ^ 32 \<Longrightarrow>
   \<exists>b' m'. Buffer_clear_loop fuel b m = Inr (b', m') \<and> bchain m' b' [] F \<and> frame m m' F
     \<and> pool m' = pool m \<and> (\<forall>a. a \<in> set as \<or> cells m a = None \<longrightarrow> cells m' a = None)"
proof (induction fuel arbitrary: m b as)
  case 0
  then show ?case using Queue_empty_rep [of "cells m" b as] by (auto simp: bchain_def)
next
  case (Suc fuel)
  have emp: "Queue_empty b = (as = [])"
    using Suc.prems Queue_empty_rep by (auto simp: bchain_def)
  show ?case
  proof (cases as)
    case Nil
    then show ?thesis using Suc.prems emp by simp
  next
    case (Cons a xs)
    note rep = Suc.prems(1) [unfolded Cons]
    obtain b1 where pop: "mpop b m = Inr (Some a, b1)" and rep1: "bchain m b1 xs (insert a F)"
      using bchain_pop [OF rep] by blast
    obtain c where c: "cells m a = Some c" using bchain_cell [OF rep, of a] by auto
    let ?m = "m\<lparr>cells := (cells m)(a := None)\<rparr>"
    have a: "a \<notin> set xs \<union> F" using rep rep1 by (auto simp: bchain_def)
    have inv: "mem_inv m (insert a (set xs \<union> F))" using rep1 by (simp add: bchain_def)
    then obtain ps where ps: "cache_rep m (insert a (set xs \<union> F)) ps" by (auto simp: mem_inv_def)
    then have "cache_rep ?m (set xs \<union> F) ps" using a by (auto simp: cache_rep_def full_size_def)
    then have "mem_inv ?m (set xs \<union> F)" by (auto simp: mem_inv_def)
    moreover have frx: "frame m ?m (set xs)" and fr: "frame m ?m F" using a by (auto simp: frame_def)
    moreover have "set xs \<inter> F = {}" using rep by (auto simp: bchain_def)
    ultimately have "bchain ?m b1 xs F" using bchain_frame(1) [OF rep1 frx] by blast
    from Suc.IH [OF this] obtain b' m' where r: "Buffer_clear_loop fuel b1 ?m = Inr (b', m')"
      "bchain m' b' [] F" "frame ?m m' F" "pool m' = pool ?m"
      "\<forall>x. x \<in> set xs \<or> cells ?m x = None \<longrightarrow> cells m' x = None"
      using Suc.prems Cons by auto
    have "frame m m' F" using fr r(3) by (rule frame_trans)
    with r show ?thesis using Cons emp pop c by (auto simp: mem_simps)
  qed
qed

section \<open>Reading into another buffer\<close>

text \<open>Two buffers side by side, with the lists of their pieces.\<close>

definition bchain2 :: "mem \<Rightarrow> buffer \<Rightarrow> addr list \<Rightarrow> buffer \<Rightarrow> addr list \<Rightarrow> addr set \<Rightarrow> bool" where
  "bchain2 m b as buf bs F \<longleftrightarrow> bchain m b as (set bs \<union> F) \<and> bchain m buf bs (set as \<union> F)"

definition holds2 :: "mem \<Rightarrow> buffer \<Rightarrow> byte list \<Rightarrow> buffer \<Rightarrow> byte list \<Rightarrow> addr set \<Rightarrow> bool" where
  "holds2 m b xs buf ys F \<longleftrightarrow> (\<exists>as bs. bchain2 m b as buf bs F
     \<and> chain_bytes (cells m) as = xs \<and> blength b = length xs
     \<and> chain_bytes (cells m) bs = ys \<and> blength buf = length ys)"

lemma bchain_other:
  assumes "bchain m b as G" and "frame m m' (set as)" and "bchain m' buf bs (set as \<union> F)" and "set as \<inter> F = {}"
  shows "bchain m' b as (set bs \<union> F)" and "chunks m' as = chunks m as"
proof -
  have "mem_inv m' (set as \<union> (set bs \<union> F))" using assms(3) by (simp add: bchain_def ac_simps)
  moreover have "set as \<inter> (set bs \<union> F) = {}" using assms(3,4) by (auto simp: bchain_def)
  ultimately show "bchain m' b as (set bs \<union> F)" and "chunks m' as = chunks m as"
    using bchain_frame [OF assms(1,2)] by blast+
qed

text \<open>\<open>buf->push(pop())\<close>.\<close>

lemma move_front:
  assumes "bchain2 m b (a # as) buf bs F"
  shows "\<exists>b1 buf1 m1. mpop b m = Inr (Some a, b1) \<and> mpush (Some a) buf m = Inr (buf1, m1)
     \<and> bchain2 m1 b1 as buf1 (bs @ [a]) F \<and> chunks m1 as = chunks m as
     \<and> chunks m1 (bs @ [a]) = chunks m bs @ [cell_bytes (cells m) a]
     \<and> blength b1 = blength b \<and> blength buf1 = blength buf \<and> frame m m1 F"
proof -
  have rep: "bchain m b (a # as) (set bs \<union> F)" and repb: "bchain m buf bs (set (a # as) \<union> F)"
    using assms by (simp_all add: bchain2_def)
  obtain b1 where pop: "mpop b m = Inr (Some a, b1)" and rep1: "bchain m b1 as (insert a (set bs \<union> F))"
    and bl1: "blength b1 = blength b"
    using bchain_pop [OF rep] by blast
  obtain c where c: "cells m a = Some c" "piece_ok c" using bchain_cell [OF rep, of a] by auto
  have a: "a \<notin> set as \<union> F" using rep rep1 by (auto simp: bchain_def)
  have "set (a # as) \<union> F = insert a (set as \<union> F)" by auto
  then have "bchain m buf bs (insert a (set as \<union> F))" using repb by simp
  from bchain_push [OF this a c] obtain buf1 m1 where push: "mpush (Some a) buf m = Inr (buf1, m1)"
    and rep2: "bchain m1 buf1 (bs @ [a]) (set as \<union> F)"
    and ch: "chunks m1 (bs @ [a]) = chunks m bs @ [piece_bytes c]" and bl2: "blength buf1 = blength buf"
    and fr: "frame m m1 (set as \<union> F)" by blast
  have frs: "frame m m1 (set as)" "frame m m1 F" using fr by (auto intro: frame_mono)
  have "set as \<inter> F = {}" using rep by (auto simp: bchain_def)
  note other = bchain_other [OF rep1 frs(1) rep2 this]
  have "cell_bytes (cells m) a = piece_bytes c" using c by (simp add: cell_bytes_def)
  then show ?thesis using pop push rep2 ch bl1 bl2 frs(2) other by (simp add: bchain2_def)
qed

text \<open>The head of the front piece is copied into a new piece of the other buffer.\<close>

text \<open>A new piece filled with a copy of some bytes.\<close>

lemma new_piece_copy:
  assumes inv: "mem_inv m G" and n: "length bs \<le> kPieceCapacity"
  shows "\<exists>x m1 d d1 m2. newPiece m = Inr (Some x, m1) \<and> cells m1 x = Some d \<and> copy_in 0 bs d = Inr d1
     \<and> mstore (Some x) (d1\<lparr>len := word_of_nat (length bs)\<rparr>) m1 = Inr m2 \<and> x \<notin> G \<and> mem_inv m2 (insert x G)
     \<and> cells m2 x = Some (d1\<lparr>len := word_of_nat (length bs)\<rparr>) \<and> piece_ok (d1\<lparr>len := word_of_nat (length bs)\<rparr>)
     \<and> piece_bytes (d1\<lparr>len := word_of_nat (length bs)\<rparr>) = bs \<and> frame m m2 G"
proof -
  obtain x m1 d where new: "newPiece m = Inr (Some x, m1)" "x \<notin> G" "mem_inv m1 (insert x G)" "cells m1 x = Some d" "off d = 0"
    "length (data d) = kPieceCapacity" "frame m m1 G"
    using newPiece_ok [OF inv] by blast
  let ?d1 = "d\<lparr>data := bs @ drop (length bs) (data d)\<rparr>"
  let ?d = "?d1\<lparr>len := word_of_nat (length bs)\<rparr>" and ?m = "m1\<lparr>cells := (cells m1)(x \<mapsto> ?d1\<lparr>len := word_of_nat (length bs)\<rparr>)\<rparr>"
  have n': "length bs < 65536" using n by (simp add: kPieceCapacity_def)
  have "copy_in 0 bs d = Inr ?d1" using new(5,6) n by (simp add: copy_in_def)
  moreover have ok: "piece_ok ?d" "piece_bytes ?d = bs" using new(5,6) n n' by (simp_all add: piece_ok_def piece_bytes_def)
  moreover have "mem_inv ?m (insert x G)" using new(3) ok(1) by (intro mem_inv_upd) (auto simp: piece_ok_def)
  moreover have "frame m ?m G" using new(2,7) by (auto simp: frame_def)
  moreover have "mstore (Some x) ?d m1 = Inr ?m" using new(4) by (simp add: mem_simps)
  ultimately show ?thesis using new(1,2,4) by (intro exI [of _ x] exI [of _ m1] exI [of _ d] exI [of _ ?d1] exI [of _ ?m]) simp
qed

text \<open>A copy of some bytes in a new piece at the end of a chain, beside another chain \<open>as\<close>.\<close>

lemma bchain_push_copy:
  assumes inv: "mem_inv m (set as \<union> (set bs \<union> F))" and repb: "bchain m buf bs (set as \<union> F)" and n: "length xs \<le> kPieceCapacity"
  shows "\<exists>x m1 d d1 m2 buf1 m3. newPiece m = Inr (Some x, m1) \<and> cells m1 x = Some d \<and> copy_in 0 xs d = Inr d1
    \<and> mstore (Some x) (d1\<lparr>len := word_of_nat (length xs)\<rparr>) m1 = Inr m2 \<and> mpush (Some x) buf m2 = Inr (buf1, m3)
    \<and> bchain m3 buf1 (bs @ [x]) (set as \<union> F) \<and> chunks m3 (bs @ [x]) = chunks m bs @ [xs] \<and> blength buf1 = blength buf
    \<and> frame m m3 (set as) \<and> frame m m3 F"
proof -
  obtain x m1 d d1 m2 where new: "newPiece m = Inr (Some x, m1)" "cells m1 x = Some d" "copy_in 0 xs d = Inr d1"
    "mstore (Some x) (d1\<lparr>len := word_of_nat (length xs)\<rparr>) m1 = Inr m2" and x: "x \<notin> set as \<union> (set bs \<union> F)"
    and inv2: "mem_inv m2 (insert x (set as \<union> (set bs \<union> F)))" and d: "cells m2 x = Some (d1\<lparr>len := word_of_nat (length xs)\<rparr>)"
    and dok: "piece_ok (d1\<lparr>len := word_of_nat (length xs)\<rparr>)" "piece_bytes (d1\<lparr>len := word_of_nat (length xs)\<rparr>) = xs"
    and fr2: "frame m m2 (set as \<union> (set bs \<union> F))"
    using new_piece_copy [OF inv n] by blast
  have "set bs \<union> insert x (set as \<union> F) = insert x (set as \<union> (set bs \<union> F))" by auto
  moreover have "frame m m2 (set bs)" using fr2 by (rule frame_mono) auto
  ultimately have rep2: "bchain m2 buf bs (insert x (set as \<union> F))" and chb: "chunks m2 bs = chunks m bs"
    using bchain_frame [OF repb, of m2 "insert x (set as \<union> F)"] inv2 repb x by (auto simp: bchain_def)
  obtain buf1 m3 where push: "mpush (Some x) buf m2 = Inr (buf1, m3)"
    and rep3: "bchain m3 buf1 (bs @ [x]) (set as \<union> F)"
    and ch3: "chunks m3 (bs @ [x]) = chunks m2 bs @ [xs]" and bl: "blength buf1 = blength buf"
    and fr3: "frame m2 m3 (set as \<union> F)"
    using bchain_push [OF rep2 _ d dok(1)] x dok(2) by auto
  have "frame m m3 (set as)" "frame m m3 F" using fr2 fr3 by (auto simp: frame_def)
  then show ?thesis using new push rep3 ch3 chb bl by auto
qed

lemma split_front:
  assumes two: "bchain2 m b (a # as) buf bs F" and c: "cells m a = Some c" and n: "n < unat (len c)"
  shows "\<exists>buf1 m1. Buffer_read_buffer_loop (Suc fuel) n b buf m = Inr (b, buf1, m1)
     \<and> (\<exists>x. bchain2 m1 b (a # as) buf1 (bs @ [x]) F
     \<and> chain_bytes (cells m1) (a # as) = drop n (chain_bytes (cells m) (a # as))
     \<and> chain_bytes (cells m1) (bs @ [x]) = chain_bytes (cells m) bs @ take n (chain_bytes (cells m) (a # as)))
     \<and> blength buf1 = blength buf \<and> frame m m1 F"
proof -
  let ?as = "a # as"
  have rep: "bchain m b ?as (set bs \<union> F)" and repb: "bchain m buf bs (set ?as \<union> F)"
    using two by (simp_all add: bchain2_def)
  have ok: "piece_ok c" using bchain_cell [OF rep, of a] c by auto
  have disj: "set ?as \<inter> F = {}" using rep by (auto simp: bchain_def)
  have inv: "mem_inv m (set ?as \<union> (set bs \<union> F))" using rep by (simp add: bchain_def)
  let ?bs = "take n (piece_bytes c)"
  have n': "n \<le> length (piece_bytes c)" "length ?bs = n" "length ?bs \<le> kPieceCapacity"
    using n ok by (auto simp: piece_ok_def kPieceCapacity_def)
  have out: "copy_out c (unat (off c)) n = Inr ?bs"
    using ok n by (simp add: copy_out_ok piece_ok_def piece_bytes_def min_def)
  obtain x m1 d d1 m2 buf1 m3 where new: "newPiece m = Inr (Some x, m1)" "cells m1 x = Some d" "copy_in 0 ?bs d = Inr d1"
    "mstore (Some x) (d1\<lparr>len := word_of_nat n\<rparr>) m1 = Inr m2" and push: "mpush (Some x) buf m2 = Inr (buf1, m3)"
    and rep3: "bchain m3 buf1 (bs @ [x]) (set ?as \<union> F)" and ch3: "chunks m3 (bs @ [x]) = chunks m bs @ [?bs]" and bl: "blength buf1 = blength buf"
    and fr13: "frame m m3 (set ?as)" "frame m m3 F"
    using bchain_push_copy [OF inv repb n'(3)] unfolding n'(2) by blast
  note r3 = bchain_other [OF rep fr13(1) rep3 disj]
  have c3: "cells m3 a = Some c" using fr13(1) c by (auto simp: frame_def)
  obtain m4 where st: "mstore (Some a) (c\<lparr>off := off c + word_of_nat n, len := len c - word_of_nat n\<rparr>) m3 = Inr m4"
    and rep4: "bchain m4 b ?as (set (bs @ [x]) \<union> F)"
    and ch4: "chunks m4 ?as = drop n (piece_bytes c) # chunks m3 as"
    and fr4: "frame m3 m4 (set (bs @ [x]) \<union> F)"
    using bchain_consume_front [OF r3(1) c3 n] by blast
  have by4: "chain_bytes (cells m4) ?as = drop n (piece_bytes c) @ chain_bytes (cells m3) as"
    using ch4 by (metis concat.simps(2) concat_chunks)
  have "set (bs @ [x]) \<inter> F = {}" using rep3 by (auto simp: bchain_def)
  moreover have "frame m3 m4 (set (bs @ [x]))" using fr4 by (rule frame_mono) auto
  ultimately have r4: "bchain m4 buf1 (bs @ [x]) (set ?as \<union> F)" "chunks m4 (bs @ [x]) = chunks m3 (bs @ [x])"
    using bchain_other [OF rep3 _ rep4] by blast+
  have "chunks m3 as = chunks m as" using r3(2) by (simp add: chunks_def)
  then have tail: "chain_bytes (cells m3) as = chain_bytes (cells m) as" by (metis concat_chunks)
  have all: "chain_bytes (cells m) ?as = piece_bytes c @ chain_bytes (cells m) as"
    using c by (simp add: cell_bytes_def)
  have "chunks m4 (bs @ [x]) = chunks m bs @ [?bs]" using r4(2) ch3 by auto
  then have "chain_bytes (cells m4) (bs @ [x]) = chain_bytes (cells m) bs @ ?bs"
    by (metis concat.simps concat_append concat_chunks append_Nil2)
  moreover have "frame m m4 F" using fr13(2) fr4 by (auto simp: frame_def)
  moreover have "Buffer_read_buffer_loop (Suc fuel) n b buf m = Inr (b, buf1, m4)"
    using Queue_front_bchain [OF rep] c n new out push c3 st by (simp add: mem_simps)
  ultimately show ?thesis
    using rep4 r4(1) by4 tail all n' bl by (auto simp: bchain2_def)
qed

lemma Buffer_read_buffer_loop_fails:
  "bchain2 m b as buf bs F \<Longrightarrow> \<forall>a \<in> set as. length (cell_bytes (cells m) a) < left \<Longrightarrow> length as < fuel \<Longrightarrow>
   Buffer_read_buffer_loop fuel left b buf m = Inl NullDeref"
proof (induction fuel arbitrary: m b buf as bs)
  case 0
  then show ?case by simp
next
  case (Suc fuel)
  have rep: "bchain m b as (set bs \<union> F)" using Suc.prems(1) by (simp add: bchain2_def)
  show ?case
  proof (cases as)
    case Nil
    then show ?thesis using Queue_front_bchain [OF rep] by (simp add: mderef_def deref_def)
  next
    case (Cons a xs)
    obtain c where c: "cells m a = Some c" "piece_ok c" using bchain_cell [OF rep, of a] Cons by auto
    have long: "\<not> left \<le> unat (len c)" using Suc.prems(2) Cons c by (auto simp: cell_bytes_def)
    obtain b1 buf1 m1 where mv: "mpop b m = Inr (Some a, b1)" "mpush (Some a) buf m = Inr (buf1, m1)"
      and two: "bchain2 m1 b1 xs buf1 (bs @ [a]) F" and ch: "chunks m1 xs = chunks m xs"
      using move_front [of m b a xs buf bs F] Suc.prems(1) Cons by blast
    have "\<forall>x \<in> set xs. length (cell_bytes (cells m1) x) < left"
      using Suc.prems(2) Cons ch by (auto simp: chunks_def)
    then have "Buffer_read_buffer_loop fuel left b1 buf1 m1 = Inl NullDeref"
      using Suc.IH [OF two] Suc.prems(3) Cons by simp
    then show ?thesis using Queue_front_bchain [OF rep] Cons c long mv by (simp add: mem_simps)
  qed
qed

lemma Buffer_read_buffer_front:
  assumes two: "bchain2 m b (a # as) buf bs F" and bl: "blength b = length (chain_bytes (cells m) (a # as))"
    "blength buf = length (chain_bytes (cells m) bs)"
    and n: "0 < n" "n \<le> length (cell_bytes (cells m) a)"
  shows "\<exists>b' buf' m'. Buffer_read_buffer n b buf m = Inr (b', buf', m')
     \<and> holds2 m' b' (drop n (chain_bytes (cells m) (a # as)))
          buf' (chain_bytes (cells m) bs @ take n (chain_bytes (cells m) (a # as))) F \<and> frame m m' F"
proof -
  have rep: "bchain m b (a # as) (set bs \<union> F)" using two by (simp add: bchain2_def)
  obtain c where c: "cells m a = Some c" "piece_ok c" using bchain_cell [OF rep, of a] by auto
  have pb: "cell_bytes (cells m) a = piece_bytes c" "length (piece_bytes c) = unat (len c)"
    using c by (simp_all add: cell_bytes_def)
  show ?thesis
  proof (cases "n = unat (len c)")
    case True
    obtain b1 buf1 m1 where mv: "mpop b m = Inr (Some a, b1)" "mpush (Some a) buf m = Inr (buf1, m1)"
      and two1: "bchain2 m1 b1 as buf1 (bs @ [a]) F" and ch: "chunks m1 as = chunks m as"
      and chb: "chunks m1 (bs @ [a]) = chunks m bs @ [cell_bytes (cells m) a]"
      and bls: "blength b1 = blength b" "blength buf1 = blength buf" "frame m m1 F"
      using move_front [OF two] by blast
    have "chain_bytes (cells m1) as = chain_bytes (cells m) as" using ch by (metis concat_chunks)
    moreover have "chain_bytes (cells m1) (bs @ [a]) = chain_bytes (cells m) bs @ piece_bytes c"
      using chb pb(1) by (metis concat.simps concat_append concat_chunks append_Nil2)
    ultimately show ?thesis
      using Queue_front_bchain [OF rep] c True mv two1 bl bls n pb unfolding holds2_def bchain2_def
      by (intro exI [of _ "b1\<lparr>blength := blength b1 - n\<rparr>"] exI [of _ "buf1\<lparr>blength := blength buf1 + n\<rparr>"]
          exI [of _ m1] conjI exI [of _ as] exI [of _ "bs @ [a]"])
        (simp_all add: Buffer_read_buffer_def Buffer_length_def mem_simps)
  next
    case False
    then have "n < unat (len c)" using n pb by simp
    from split_front [OF two c(1) this, of "brk m"] obtain buf1 m1 x where
      "Buffer_read_buffer_loop (Suc (brk m)) n b buf m = Inr (b, buf1, m1)"
      "bchain2 m1 b (a # as) buf1 (bs @ [x]) F"
      "chain_bytes (cells m1) (a # as) = drop n (chain_bytes (cells m) (a # as))"
      "chain_bytes (cells m1) (bs @ [x]) = chain_bytes (cells m) bs @ take n (chain_bytes (cells m) (a # as))"
      "blength buf1 = blength buf" "frame m m1 F" by blast
    then show ?thesis
      using bl n pb unfolding holds2_def bchain2_def
      by (intro exI [of _ "b\<lparr>blength := blength b - n\<rparr>"] exI [of _ "buf1\<lparr>blength := blength buf1 + n\<rparr>"]
          exI [of _ m1] conjI exI [of _ "a # as"] exI [of _ "bs @ [x]"])
        (auto simp: Buffer_read_buffer_def Buffer_length_def)
  qed
qed

section \<open>Integers\<close>

lemma le_bytes_ne: "0 < n \<Longrightarrow> le_bytes n w \<noteq> []"
  by (metis length_le_bytes less_nat_zero_code list.size(3))

lemma Buffer_readInt32_holds:
  assumes "holds m b (le_bytes 4 (htonl x) @ bs) F"
  shows "\<exists>b' m'. Buffer_readInt32 b m = Inr (x, b', m') \<and> holds m' b' bs F \<and> frame m m' F"
  using Buffer_read_holds [OF assms, of 4] by (auto simp: Buffer_readInt32_def)

section \<open>Examples for the witnesses\<close>

text \<open>A buffer with three bytes, and one with an integer, as the code produces them.\<close>

abbreviation three_bytes :: "buffer \<times> mem" where
  "three_bytes \<equiv> projr (Buffer_write [1, 2, 3] Buffer_new mem_start)"

lemma start_empty: "holds mem_start Buffer_new [] {}"
  using mem_inv_start by (rule holds_new)

lemma three_bytes_holds: "holds (snd three_bytes) (fst three_bytes) [1, 2, 3] {}"
  using Buffer_write_holds [OF start_empty, of "[1, 2, 3]"] by auto

section \<open>Properties\<close>

text \<open>
  \<open>Buffer::write\<close> refines appending to a list of bytes: on a well-formed buffer that
  carries \<open>bs\<close> it ends without an error, the buffer then carries \<open>bs @ d\<close>, and no piece of
  anyone else is touched. Any length of \<open>d\<close>, any number of pieces.
\<close>

theorem Buffer_write_appends:
  assumes "holds m b bs F"
  shows "\<exists>b' m'. Buffer_write d b m = Inr (b', m') \<and> holds m' b' (bs @ d) F
    \<and> Buffer_length b' = length bs + length d \<and> frame m m' F"
proof -
  obtain b' m' where "Buffer_write d b m = Inr (b', m')" "holds m' b' (bs @ d) F" "frame m m' F"
    using Buffer_write_holds [OF assms] by blast
  then show ?thesis by (auto simp: holds_def Buffer_length_def)
qed

theorem Buffer_write_appends_witness:
  "holds mem_start Buffer_new [] {} \<and>
   (\<exists>b' m'. Buffer_write [7, 8] Buffer_new mem_start = Inr (b', m') \<and> holds m' b' [7, 8] {})"
  using Buffer_write_appends [OF start_empty, of "[7, 8]"] start_empty by auto

text \<open>
  \<open>Buffer::read(len, char*)\<close> refines taking a prefix: for \<open>0 < n \<le> length bs\<close> it
  ends without an error, returns the first \<open>n\<close> bytes, leaves the rest in the buffer, and
  gives the emptied pieces back without touching anyone else's.
\<close>

theorem Buffer_read_takes:
  assumes "holds m b bs F" and "0 < n" and "n \<le> length bs"
  shows "\<exists>b' m'. Buffer_read n b m = Inr (take n bs, b', m') \<and> holds m' b' (drop n bs) F
    \<and> Buffer_length b' = length bs - n \<and> frame m m' F"
proof -
  obtain b' m' where "Buffer_read n b m = Inr (take n bs, b', m')" "holds m' b' (drop n bs) F" "frame m m' F"
    using Buffer_read_holds [OF assms] by blast
  then show ?thesis by (auto simp: holds_def Buffer_length_def)
qed

theorem Buffer_read_takes_witness:
  "holds (snd three_bytes) (fst three_bytes) [1, 2, 3] {} \<and>
   (\<exists>b' m'. Buffer_read 2 (fst three_bytes) (snd three_bytes) = Inr ([1, 2], b', m') \<and> holds m' b' [3] {})"
  using Buffer_read_takes [OF three_bytes_holds, of 2] three_bytes_holds by auto

text \<open>
  A sequence of writes followed by reads of the same lengths gives back what was written,
  in order: after everything already in the buffer, the new data is read unchanged.
\<close>

theorem Buffer_fifo_roundtrip:
  assumes "holds m b bs F" and "bs \<noteq> []" and "d \<noteq> []"
  shows "\<exists>b1 m1 b2 m2 b3 m3. Buffer_write d b m = Inr (b1, m1)
    \<and> Buffer_read (length bs) b1 m1 = Inr (bs, b2, m2)
    \<and> Buffer_read (length d) b2 m2 = Inr (d, b3, m3) \<and> holds m3 b3 [] F"
  using assms by (rule buffer_stream.write_then_read)

theorem Buffer_fifo_roundtrip_witness:
  "\<exists>b1 m1 b2 m2 b3 m3. Buffer_write [9] (fst three_bytes) (snd three_bytes) = Inr (b1, m1)
    \<and> Buffer_read 3 b1 m1 = Inr ([1, 2, 3], b2, m2) \<and> Buffer_read 1 b2 m2 = Inr ([9], b3, m3)"
  using Buffer_fifo_roundtrip [OF three_bytes_holds, of "[9]"] by (simp add: numeral_3_eq_3) blast

text \<open>
  How \<open>write\<close> lays data out in pieces: it fills the last piece and then links full
  pieces of 4096 bytes, never an empty one in between (the specification \<open>write_chunks\<close>);
  on an empty buffer the pieces are exactly the 4096-byte chunks of the data.
\<close>

theorem Buffer_write_layout:
  assumes "bchain m b as F"
  shows "\<exists>b' m' bs. Buffer_write d b m = Inr (b', m') \<and> bchain m' b' (as @ bs) F
    \<and> chunks m' (as @ bs) = write_chunks (chunks m as) (last_room m as) d"
  using Buffer_write_ok [OF assms] by blast

theorem Buffer_write_layout_witness:
  "bchain mem_start Buffer_new [] {} \<and> (\<exists>b' m' bs. Buffer_write [1, 2] Buffer_new mem_start = Inr (b', m')
    \<and> bchain m' b' bs {} \<and> chunks m' bs = [[1, 2]])"
proof -
  have ch: "chunks mem_start [] = []" by (simp add: chunks_def)
  have "write_chunks [] (last_room mem_start []) [1, 2] = [[1, 2]]"
    by (simp add: write_chunks_def chunked.simps kPieceCapacity_def)
  then show ?thesis
    using Buffer_write_layout [OF bchain_new [OF mem_inv_start], of "[1, 2]"] bchain_new [OF mem_inv_start] ch
    by simp
qed

text \<open>
  Integers travel in network byte order and come back unchanged: \<open>writeInt32\<close> appends the
  bytes of its argument from the most to the least significant, and a \<open>readInt32\<close> of the
  buffer, with whatever follows, returns the argument and removes exactly these four bytes.
\<close>

theorem writeInt32_readInt32:
  assumes "mem_inv m F"
  shows "\<exists>b1 m1 b2 m2 b3 m3. Buffer_writeInt32 x Buffer_new m = Inr (b1, m1)
    \<and> holds m1 b1 (rev (le_bytes 4 x)) F
    \<and> Buffer_write d b1 m1 = Inr (b2, m2) \<and> Buffer_readInt32 b2 m2 = Inr (x, b3, m3) \<and> holds m3 b3 d F"
proof -
  obtain b1 m1 where 1: "Buffer_writeInt32 x Buffer_new m = Inr (b1, m1)" "holds m1 b1 (le_bytes 4 (htonl x)) F"
    using Buffer_write_holds [OF holds_new [OF assms], of "le_bytes 4 (htonl x)"]
    by (auto simp: Buffer_writeInt32_def)
  obtain b2 m2 where 2: "Buffer_write d b1 m1 = Inr (b2, m2)" "holds m2 b2 (le_bytes 4 (htonl x) @ d) F"
    using Buffer_write_holds [OF 1(2)] by blast
  from Buffer_readInt32_holds [OF 2(2)] 1 2 show ?thesis by (auto simp: le_bytes_htonl)
qed

theorem writeInt32_readInt32_witness:
  "\<exists>b1 m1 b2 m2 b3 m3. Buffer_writeInt32 258 Buffer_new mem_start = Inr (b1, m1)
    \<and> holds m1 b1 [0, 0, 1, 2] {} \<and> Buffer_write [5] b1 m1 = Inr (b2, m2)
    \<and> Buffer_readInt32 b2 m2 = Inr (258, b3, m3)"
proof -
  have "rev (le_bytes 4 (258 :: uint32)) = [0, 0, 1, 2]"
    by (simp add: le_bytes_def upt_rec)
  then show ?thesis using writeInt32_readInt32 [OF mem_inv_start, of 258 "[5]"] by fastforce
qed

text \<open>
  A header can be put in front afterwards: after \<open>reservedPrepend(n)\<close> on an empty buffer
  and a write, prepending up to \<open>n\<close> bytes succeeds and the buffer carries header and data,
  in this order.
\<close>

theorem reserve_write_prepend:
  assumes "mem_inv m F" and "n < kPieceCapacity" and "length h \<le> n"
  shows "\<exists>b1 m1 b2 m2 b3 m3. Buffer_reservedPrepend n Buffer_new m = Inr (b1, m1)
    \<and> Buffer_write d b1 m1 = Inr (b2, m2) \<and> Buffer_prepend h b2 m2 = Inr (b3, m3)
    \<and> holds m3 b3 (h @ d) F \<and> frame m m3 F"
proof -
  obtain b1 m1 where 1: "Buffer_reservedPrepend n Buffer_new m = Inr (b1, m1)" "holds_reserve m1 b1 [] F n" "frame m m1 F"
    using reservedPrepend_ok [OF bchain_new [OF assms(1)] _ assms(2)] by (auto simp: Buffer_new_def)
  obtain b2 m2 where 2: "Buffer_write d b1 m1 = Inr (b2, m2)" "holds_reserve m2 b2 d F n" "frame m1 m2 F"
    using Buffer_write_reserve [OF 1(2), of d] by auto
  obtain b3 m3 where 3: "Buffer_prepend h b2 m2 = Inr (b3, m3)" "holds_reserve m3 b3 (h @ d) F (n - length h)" "frame m2 m3 F"
    using Buffer_prepend_reserve [OF 2(2) assms(3)] by blast
  have "frame m m3 F" using 1(3) 2(3) 3(3) frame_trans by blast
  with 1 2 3 show ?thesis using holds_reserve_holds by blast
qed

theorem reserve_write_prepend_witness:
  "\<exists>b1 m1 b2 m2 b3 m3. Buffer_reservedPrepend 4 Buffer_new mem_start = Inr (b1, m1)
    \<and> Buffer_write [1, 2] b1 m1 = Inr (b2, m2) \<and> Buffer_prepend [0, 2] b2 m2 = Inr (b3, m3)
    \<and> holds m3 b3 [0, 2, 1, 2] {}"
  using reserve_write_prepend [OF mem_inv_start, of 4 "[0, 2]" "[1, 2]"] by (auto simp: kPieceCapacity_def)

text \<open>
  \<open>peekInt32\<close> agrees with \<open>readInt32\<close> when the front piece holds all four bytes: it
  returns the big-endian value of the first four bytes and, being a const member, changes nothing.
\<close>

theorem peekInt32_front:
  assumes "bchain m b (a # as) F" and "blength b = length (chain_bytes (cells m) (a # as))"
    and "4 \<le> length (cell_bytes (cells m) a)"
    and "chain_bytes (cells m) (a # as) = rev (le_bytes 4 x) @ rest"
  shows "Buffer_peekInt32 b m = Inr x"
proof -
  obtain c where c: "cells m a = Some c" "piece_ok c" using bchain_cell [OF assms(1), of a] by auto
  have n: "4 \<le> unat (len c)" "4 \<le> blength b"
    using assms(2,3) c by (auto simp: cell_bytes_def)
  have "Buffer_peek 4 b m = Inr (le_bytes 4 (htonl x))"
    using Buffer_peek_front [OF assms(1) c(1) n] unfolding assms(4) by (simp add: le_bytes_htonl)
  then show ?thesis using n by (simp add: Buffer_peekInt32_def Buffer_length_def)
qed

text \<open>
  C35. When the integer starts in the front piece and ends in a later one, every \<open>peekInt32\<close>
  writes outside the local variable it fills: the pointer arithmetic \<open>&t + sizeof(T) - left\<close>
  is in units of \<open>T\<close>. The code does not do what it means to do here.
\<close>

theorem peekInt32_straddle_out_of_bounds:
  assumes "bchain m b (a # as) F" and "blength b = length (chain_bytes (cells m) (a # as))"
    and "cell_bytes (cells m) a \<noteq> []" and "length (cell_bytes (cells m) a) < 4" and "4 \<le> blength b"
  shows "Buffer_peekInt32 b m = Inl OutOfBounds"
proof -
  obtain c where c: "cells m a = Some c" "piece_ok c" using bchain_cell [OF assms(1), of a] by auto
  have "0 < unat (len c)" "unat (len c) < 4"
    using assms(3,4) c length_piece_bytes [OF c(2)] by (auto simp: cell_bytes_def simp flip: length_greater_0_conv)
  from Buffer_peek_straddle [OF assms(1) c(1) this assms(5,2)] show ?thesis
    using assms(5) by (simp add: Buffer_peekInt32_def Buffer_length_def)
qed

text \<open>Two pieces: the first one carries two bytes and the second one three.\<close>

definition straddle_mem :: mem where
  "straddle_mem = mem_start\<lparr>brk := 2, cells := (\<lambda>_. None)
     (0 \<mapsto> \<lparr>nxt = Some 1, off = 4094, len = 2, data = replicate 4096 0\<rparr>,
      1 \<mapsto> \<lparr>nxt = None, off = 0, len = 3, data = replicate 4096 0\<rparr>)\<rparr>"

definition straddle_buf :: buffer where
  "straddle_buf = \<lparr>qhead = Some 0, qtail = Some 1, qsize = 2, blength = 5\<rparr>"

lemma straddle_ok: "bchain straddle_mem straddle_buf [0, 1] {}"
proof -
  have "cache_rep straddle_mem {0, 1} []"
    by (auto simp: cache_rep_def straddle_mem_def mem_start_def PiecePool_new_def full_size_def kPieceCapacity_def)
  then show ?thesis
    by (auto simp: bchain_def mem_inv_def queue_rep_def straddle_buf_def straddle_mem_def cell_ok_def
        piece_ok_def kPieceCapacity_def)
qed

lemma straddle_bytes:
  "cell_bytes (cells straddle_mem) 0 = [0, 0]" "chain_bytes (cells straddle_mem) [0, 1] = [0, 0, 0, 0, 0]"
proof -
  have "replicate 2 (0 :: byte) = [0, 0]" "replicate 3 (0 :: byte) = [0, 0, 0]"
    by (simp_all add: numeral_2_eq_2 numeral_3_eq_3)
  then show "cell_bytes (cells straddle_mem) 0 = [0, 0]" "chain_bytes (cells straddle_mem) [0, 1] = [0, 0, 0, 0, 0]"
    by (simp_all add: straddle_mem_def cell_bytes_def piece_bytes_def)
qed

theorem peekInt32_straddle_out_of_bounds_witness:
  "bchain straddle_mem straddle_buf [0, 1] {} \<and> Buffer_peekInt32 straddle_buf straddle_mem = Inl OutOfBounds"
  using peekInt32_straddle_out_of_bounds [OF straddle_ok] straddle_ok straddle_bytes
  by (simp add: straddle_buf_def)

abbreviation int_buffer :: "buffer \<times> mem" where
  "int_buffer \<equiv> projr (Buffer_write (rev (le_bytes 4 (7 :: uint32))) Buffer_new mem_start)"

theorem peekInt32_front_witness: "Buffer_peekInt32 (fst int_buffer) (snd int_buffer) = Inr 7"
proof -
  let ?d = "rev (le_bytes 4 (7 :: uint32))"
  obtain b m bs where w: "Buffer_write ?d Buffer_new mem_start = Inr (b, m)" "bchain m b bs {}"
    "chunks m bs = [?d]" "blength b = 4"
    using Buffer_write_ok [OF bchain_new [OF mem_inv_start], of ?d]
    by (auto simp: chunks_def write_chunks_def chunked.simps kPieceCapacity_def Buffer_new_def)
  then obtain a where a: "bs = [a]" "cell_bytes (cells m) a = ?d" by (auto simp: chunks_def)
  have "Buffer_peekInt32 b m = Inr 7"
    by (rule peekInt32_front [of m b a "[]" "{}" 7 "[]"]) (use w a in simp_all)
  then show ?thesis using w(1) by simp
qed

text \<open>
  \<open>read(len, Buffer*)\<close> moves the first \<open>n\<close> bytes from one buffer to the end of the other
  when they are all in the front piece, whether the piece moves as a whole or is split.
\<close>

theorem read_buffer_within_front_piece:
  assumes "bchain2 m b (a # as) buf bs F" and "blength b = length (chain_bytes (cells m) (a # as))"
    and "blength buf = length (chain_bytes (cells m) bs)"
    and "0 < n" and "n \<le> length (cell_bytes (cells m) a)"
  shows "\<exists>b' buf' m'. Buffer_read_buffer n b buf m = Inr (b', buf', m')
    \<and> holds2 m' b' (drop n (chain_bytes (cells m) (a # as)))
         buf' (chain_bytes (cells m) bs @ take n (chain_bytes (cells m) (a # as))) F \<and> frame m m' F"
  using assms by (rule Buffer_read_buffer_front)

text \<open>
  \<open>read(len, Buffer*)\<close> does not decrease the count of what is left when it moves a whole
  piece. So it dereferences a null pointer whenever \<open>len\<close> is larger than every piece, although
  the buffer holds enough bytes; in particular for every \<open>len\<close> over 4096.
\<close>

theorem read_buffer_larger_than_pieces_fails:
  assumes "bchain2 m b as buf bs F" and "n \<le> blength b" and "0 < n"
    and "\<forall>a \<in> set as. length (cell_bytes (cells m) a) < n"
  shows "Buffer_read_buffer n b buf m = Inl NullDeref"
proof -
  have "bchain m b as (set bs \<union> F)" using assms(1) by (simp add: bchain2_def)
  then have "length as < Suc (brk m)" using bchain_few by (simp add: less_Suc_eq_le)
  then have "Buffer_read_buffer_loop (Suc (brk m)) n b buf m = Inl NullDeref"
    using Buffer_read_buffer_loop_fails [OF assms(1,4)] by blast
  then show ?thesis
    using assms(2,3) by (simp add: Buffer_read_buffer_def Buffer_length_def del: Buffer_read_buffer_loop.simps)
qed

lemma straddle_two: "bchain2 straddle_mem straddle_buf [0, 1] Buffer_new [] {}"
  using straddle_ok by (auto simp: bchain2_def bchain_def Buffer_new_def queue_rep_def)

theorem read_buffer_within_front_piece_witness:
  "\<exists>b' buf' m'. Buffer_read_buffer 1 straddle_buf Buffer_new straddle_mem = Inr (b', buf', m')
    \<and> holds2 m' b' [0, 0, 0, 0] buf' [0] {}"
  using read_buffer_within_front_piece [OF straddle_two, of 1] straddle_bytes
  by (auto simp: straddle_buf_def Buffer_new_def)

theorem read_buffer_larger_than_pieces_fails_witness:
  "blength straddle_buf = 5 \<and> Buffer_read_buffer 4 straddle_buf Buffer_new straddle_mem = Inl NullDeref"
proof -
  have "length (cell_bytes (cells straddle_mem) 1) = 3"
    by (simp add: straddle_mem_def cell_bytes_def piece_bytes_def)
  then show ?thesis
    using read_buffer_larger_than_pieces_fails [OF straddle_two, of 4] straddle_bytes
    by (simp add: straddle_buf_def)
qed

text \<open>
  \<open>Buffer::clear\<close> (and so the destructor) deletes every piece of the buffer and leaves it
  empty, but it bypasses the pool: \<open>using_count_\<close> still counts the deleted pieces.
\<close>

theorem Buffer_clear_frees:
  assumes "bchain m b as F" and "length as < 2 ^ 32"
  shows "\<exists>b' m'. Buffer_clear b m = Inr (b', m') \<and> holds m' b' [] F \<and> (\<forall>a \<in> set as. cells m' a = None)
    \<and> frame m m' F \<and> using_count (pool m') = using_count (pool m)"
proof -
  obtain b' m' where "Buffer_clear_loop (brk m) b m = Inr (b', m')" "bchain m' b' [] F" "frame m m' F"
    "pool m' = pool m" "\<forall>a. a \<in> set as \<or> cells m a = None \<longrightarrow> cells m' a = None"
    using Buffer_clear_loop_ok [OF assms(1) bchain_few [OF assms(1)] assms(2)] by blast
  then show ?thesis unfolding holds_def
    by (intro exI [of _ "b'\<lparr>blength := 0\<rparr>"] exI [of _ m'] conjI exI [of _ "[]"]) (simp_all add: Buffer_clear_def)
qed

theorem Buffer_clear_frees_witness:
  "\<exists>b' m'. Buffer_clear straddle_buf straddle_mem = Inr (b', m') \<and> holds m' b' [] {}
    \<and> cells m' 0 = None \<and> cells m' 1 = None"
  using Buffer_clear_frees [OF straddle_ok] by auto

end
