(* ===== verification/Buffer_Run.thy ===== *)
theory Buffer_Run
  imports Buffer_Laws
begin

text \<open>
  Programs over one \<open>Buffer\<close>, sequences of its operations, and the reference they are compared
  with: the same operations on a list of bytes. Operation by operation the buffer gives the results
  of the list and fails exactly when the list operation does.
\<close>

section \<open>Programs\<close>

datatype buffer_op = Write "byte list" | WriteString "byte list" | WriteInt32 uint32 | WriteInt16 uint16 | WriteInt8 byte
  | Read nat | ReadString nat | ReadAll | ReadInt32 | ReadInt16 | ReadInt8 | Skip nat

text \<open>What an operation returns.\<close>

datatype op_result = Void | Bytes "byte list" | Int32 uint32 | Int16 uint16 | Int8 byte

definition with_result :: "('a \<Rightarrow> op_result) \<Rightarrow> error + ('a \<times> 's) \<Rightarrow> error + (op_result \<times> 's)" where
  "with_result f r = rbind r (\<lambda>(x, s). Inr (f x, s))"

definition no_result :: "error + 's \<Rightarrow> error + (op_result \<times> 's)" where
  "no_result r = rbind r (\<lambda>s. Inr (Void, s))"

fun buffer_exec :: "buffer_op \<Rightarrow> buffer \<Rightarrow> mem \<Rightarrow> error + (op_result \<times> buffer \<times> mem)" where
  "buffer_exec (Write d) b m = no_result (Buffer_write d b m)"
| "buffer_exec (WriteString d) b m = no_result (Buffer_write_string d b m)"
| "buffer_exec (WriteInt32 x) b m = no_result (Buffer_writeInt32 x b m)"
| "buffer_exec (WriteInt16 x) b m = no_result (Buffer_writeInt16 x b m)"
| "buffer_exec (WriteInt8 x) b m = no_result (Buffer_writeInt8 x b m)"
| "buffer_exec (Read n) b m = with_result Bytes (Buffer_read n b m)"
| "buffer_exec (ReadString n) b m = with_result Bytes (Buffer_read_string n b m)"
| "buffer_exec ReadAll b m = with_result Bytes (Buffer_readAll b m)"
| "buffer_exec ReadInt32 b m = with_result Int32 (Buffer_readInt32 b m)"
| "buffer_exec ReadInt16 b m = with_result Int16 (Buffer_readInt16 b m)"
| "buffer_exec ReadInt8 b m = with_result Int8 (Buffer_readInt8 b m)"
| "buffer_exec (Skip n) b m = no_result (Buffer_skip n b m)"

primrec buffer_run :: "buffer_op list \<Rightarrow> buffer \<Rightarrow> mem \<Rightarrow> error + (op_result list \<times> buffer \<times> mem)" where
  "buffer_run [] b m = Inr ([], b, m)"
| "buffer_run (x # xs) b m = rbind (buffer_exec x b m) (\<lambda>(r, b1, m1).
     rbind (buffer_run xs b1 m1) (\<lambda>(rs, b2, m2). Inr (r # rs, b2, m2)))"

section \<open>The reference\<close>

text \<open>The big-endian bytes of a word and the word of big-endian bytes.\<close>

definition be_bytes :: "nat \<Rightarrow> 'a::len word \<Rightarrow> byte list" where
  "be_bytes n x = rev (le_bytes n x)"

definition of_be_bytes :: "byte list \<Rightarrow> 'a::len word" where
  "of_be_bytes bs = of_le_bytes (rev bs)"

text \<open>The front of a list, for a length that is neither zero nor too much.\<close>

definition list_take :: "nat \<Rightarrow> byte list \<Rightarrow> error + (byte list \<times> byte list)" where
  "list_take n bs = (if 0 < n \<and> n \<le> length bs then Inr (take n bs, drop n bs) else Inl AssertFailed)"

fun list_exec :: "buffer_op \<Rightarrow> byte list \<Rightarrow> error + (op_result \<times> byte list)" where
  "list_exec (Write d) bs = Inr (Void, bs @ d)"
| "list_exec (WriteString d) bs = Inr (Void, bs @ d)"
| "list_exec (WriteInt32 x) bs = Inr (Void, bs @ be_bytes 4 x)"
| "list_exec (WriteInt16 x) bs = Inr (Void, bs @ be_bytes 2 x)"
| "list_exec (WriteInt8 x) bs = Inr (Void, bs @ [x])"
| "list_exec (Read n) bs = with_result Bytes (list_take n bs)"
| "list_exec (ReadString n) bs = with_result Bytes (list_take n bs)"
| "list_exec ReadAll bs = with_result Bytes (list_take (length bs) bs)"
| "list_exec ReadInt32 bs = with_result (\<lambda>d. Int32 (of_be_bytes d)) (list_take 4 bs)"
| "list_exec ReadInt16 bs = with_result (\<lambda>d. Int16 (of_be_bytes d)) (list_take 2 bs)"
| "list_exec ReadInt8 bs = with_result (\<lambda>d. Int8 (hd d)) (list_take 1 bs)"
| "list_exec (Skip n) bs = with_result (\<lambda>_. Void) (list_take n bs)"

primrec list_run :: "buffer_op list \<Rightarrow> byte list \<Rightarrow> error + (op_result list \<times> byte list)" where
  "list_run [] bs = Inr ([], bs)"
| "list_run (x # xs) bs = rbind (list_exec x bs) (\<lambda>(r, bs1). rbind (list_run xs bs1) (\<lambda>(rs, bs2). Inr (r # rs, bs2)))"

text \<open>\<open>skip(0)\<close> is left out: on a buffer without pieces it dereferences null.\<close>

fun proper_op :: "buffer_op \<Rightarrow> bool" where
  "proper_op (Skip n) \<longleftrightarrow> 0 < n"
| "proper_op _ \<longleftrightarrow> True"

section \<open>Operation by operation\<close>

lemma ntohl_be: "length bs = 4 \<Longrightarrow> ntohl (of_le_bytes bs) = of_be_bytes bs"
  by (simp add: ntohl_def htonl_def of_be_bytes_def le_bytes_of_le_bytes)

lemma ntohs_be: "length bs = 2 \<Longrightarrow> ntohs (of_le_bytes bs) = of_be_bytes bs"
  by (simp add: ntohs_def htons_def of_be_bytes_def le_bytes_of_le_bytes)

lemma of_le_bytes_one: "length bs = 1 \<Longrightarrow> of_le_bytes bs = (hd bs :: byte)"
  by (cases bs) simp_all

lemma le_bytes_one: "le_bytes 1 x = [x :: byte]"
  by (simp add: le_bytes_def)

text \<open>A buffer against a list: the same failure, or the same result and content.\<close>

definition agrees :: "addr set \<Rightarrow> mem \<Rightarrow> error + ('r \<times> buffer \<times> mem) \<Rightarrow> error + ('r \<times> byte list) \<Rightarrow> bool" where
  "agrees F m x y \<longleftrightarrow> (case y of
     Inl e \<Rightarrow> x = Inl e
   | Inr (r, bs) \<Rightarrow> (\<exists>b' m'. x = Inr (r, b', m') \<and> holds m' b' bs F \<and> frame m m' F))"

lemma read_agrees:
  assumes "holds m b bs F"
  shows "agrees F m (Buffer_read n b m) (list_take n bs)"
proof (cases "0 < n \<and> n \<le> length bs")
  case True
  then show ?thesis using Buffer_read_holds [OF assms, of n] by (simp add: agrees_def list_take_def)
next
  case False
  then have "Buffer_read n b m = Inl AssertFailed"
    using assms by (auto simp: Buffer_read_def cassert_def Buffer_length_def holds_def)
  then show ?thesis using False by (auto simp: agrees_def list_take_def)
qed

lemma read_string_agrees: "holds m b bs F \<Longrightarrow> agrees F m (Buffer_read_string n b m) (list_take n bs)"
  using read_agrees [of m b bs F n]
  by (auto simp: Buffer_read_string_def cassert_def Buffer_length_def holds_def agrees_def list_take_def split: if_splits)

lemma agrees_result:
  assumes "agrees F m x y" and "\<And>r s. y = Inr (r, s) \<Longrightarrow> f r = g r"
  shows "agrees F m (with_result f x) (with_result g y)"
  using assms by (auto simp: agrees_def with_result_def split: sum.splits)

lemma agrees_write: "holds m b bs F \<Longrightarrow> agrees F m (no_result (Buffer_write d b m)) (Inr (Void, bs @ d))"
  using Buffer_write_holds [of m b bs F d] by (auto simp: agrees_def no_result_def)

lemma skip_agrees:
  assumes "holds m b bs F" and "0 < n"
  shows "agrees F m (no_result (Buffer_skip n b m)) (with_result (\<lambda>_. Void) (list_take n bs))"
proof (cases "n \<le> length bs")
  case True
  then show ?thesis using Buffer_skip_holds [OF assms(1), of n] assms(2)
    by (auto simp: agrees_def list_take_def with_result_def no_result_def)
next
  case False
  then have "Buffer_skip n b m = Inl AssertFailed"
    using assms by (auto simp: Buffer_skip_def cassert_def Buffer_length_def holds_def)
  then show ?thesis using False by (auto simp: agrees_def list_take_def with_result_def no_result_def)
qed

lemma readInt_as_read:
  "with_result Int32 (Buffer_readInt32 b m) = with_result (\<lambda>v. Int32 (ntohl (of_le_bytes v))) (Buffer_read 4 b m)"
  "with_result Int16 (Buffer_readInt16 b m) = with_result (\<lambda>v. Int16 (ntohs (of_le_bytes v))) (Buffer_read 2 b m)"
  "with_result Int8 (Buffer_readInt8 b m) = with_result (\<lambda>v. Int8 (of_le_bytes v)) (Buffer_read 1 b m)"
  by (cases "Buffer_read 4 b m"; cases "Buffer_read 2 b m"; cases "Buffer_read 1 b m";
      auto simp: with_result_def Buffer_readInt32_def Buffer_readInt16_def Buffer_readInt8_def)+

lemma list_take_length: "list_take n bs = Inr (d, r) \<Longrightarrow> length d = n"
  by (auto simp: list_take_def split: if_splits)

lemma exec_agrees:
  assumes "holds m b bs F" and "proper_op x"
  shows "agrees F m (buffer_exec x b m) (list_exec x bs)"
proof (cases x)
  case ReadInt32
  then show ?thesis unfolding ReadInt32 buffer_exec.simps list_exec.simps readInt_as_read
    by (intro agrees_result read_agrees assms(1)) (simp add: ntohl_be list_take_length)
next
  case ReadInt16
  then show ?thesis unfolding ReadInt16 buffer_exec.simps list_exec.simps readInt_as_read
    by (intro agrees_result read_agrees assms(1)) (simp add: ntohs_be list_take_length)
next
  case ReadInt8
  then show ?thesis unfolding ReadInt8 buffer_exec.simps list_exec.simps readInt_as_read
    by (intro agrees_result read_agrees assms(1)) (simp add: of_le_bytes_one list_take_length)
next
  case ReadAll
  have "Buffer_length b = length bs" using assms(1) by (auto simp: holds_def Buffer_length_def)
  then show ?thesis unfolding ReadAll buffer_exec.simps list_exec.simps Buffer_readAll_def
    by (simp add: agrees_result read_string_agrees [OF assms(1)])
qed (use assms in \<open>auto simp: agrees_write skip_agrees read_agrees read_string_agrees agrees_result Buffer_write_string_def
      Buffer_writeInt32_def Buffer_writeInt16_def Buffer_writeInt8_def le_bytes_htonl le_bytes_htons le_bytes_one be_bytes_def
      simp del: One_nat_def\<close>)

lemma run_agrees:
  "holds m b bs F \<Longrightarrow> \<forall>x \<in> set xs. proper_op x \<Longrightarrow> agrees F m (buffer_run xs b m) (list_run xs bs)"
proof (induction xs arbitrary: m b bs)
  case Nil
  then show ?case by (simp add: agrees_def)
next
  case (Cons x xs)
  note ex = exec_agrees [OF Cons.prems(1), of x]
  show ?case
  proof (cases "list_exec x bs")
    case (Inl e)
    then show ?thesis using ex Cons.prems(2) by (simp add: agrees_def)
  next
    case (Inr p)
    then obtain r bs1 b1 m1 where e: "list_exec x bs = Inr (r, bs1)" "buffer_exec x b m = Inr (r, b1, m1)" "holds m1 b1 bs1 F" "frame m m1 F"
      using ex Cons.prems(2) by (cases p) (auto simp: agrees_def)
    have "agrees F m1 (buffer_run xs b1 m1) (list_run xs bs1)" using Cons.IH [OF e(3)] Cons.prems(2) by simp
    then show ?thesis using e frame_trans [OF e(4)] by (cases "list_run xs bs1") (auto simp: agrees_def)
  qed
qed

section \<open>Properties\<close>

text \<open>
  C3. A \<open>Buffer\<close> behaves like a list of bytes under \<open>write\<close>, \<open>read\<close> and \<open>skip\<close> of at least one byte,
  in any sequence: the operations on bytes and strings, on integers of every width, and \<open>readAll\<close>.
  On a well-formed buffer they give the results they give on the list, in order, and fail exactly
  where the list operation does. When they return, the buffer carries the bytes of the list, however
  they are spread over pieces, and no piece of anyone else is touched. \<open>skip(0)\<close> is excluded (on an
  empty buffer it dereferences null, \<open>skip_zero_fails\<close>), and so are the peeks, the prepends and
  \<open>read(size_t, Buffer*)\<close>, which are not operations of the sequence.
\<close>

theorem buffer_is_byte_list:
  assumes "holds m b bs F" and "\<forall>x \<in> set xs. proper_op x"
  shows "case list_run xs bs of
      Inl e \<Rightarrow> buffer_run xs b m = Inl e
    | Inr (rs, bs') \<Rightarrow> \<exists>b' m'. buffer_run xs b m = Inr (rs, b', m') \<and> holds m' b' bs' F \<and> frame m m' F"
  using run_agrees [OF assms] by (simp add: agrees_def)

theorem buffer_is_byte_list_witness:
  "\<exists>b' m'. buffer_run [WriteInt16 258, Write [7, 8], ReadInt8, Skip 1, ReadAll] Buffer_new mem_start
     = Inr ([Void, Void, Int8 1, Void, Bytes [7, 8]], b', m') \<and> holds m' b' [] {}"
proof -
  have "be_bytes 2 (258 :: uint16) = [1, 2]" by (simp add: be_bytes_def le_bytes_def upt_rec)
  then have "list_run [WriteInt16 258, Write [7, 8], ReadInt8, Skip 1, ReadAll] [] = Inr ([Void, Void, Int8 1, Void, Bytes [7, 8]], [])"
    by (simp add: with_result_def list_take_def)
  then show ?thesis
    using buffer_is_byte_list [OF start_empty, of "[WriteInt16 258, Write [7, 8], ReadInt8, Skip 1, ReadAll]"] by auto
qed

text \<open>\<open>skip(0)\<close> on a buffer without pieces passes its assertion and dereferences the null front.\<close>

lemma skip_zero_fails: "Buffer_skip 0 Buffer_new m = Inl NullDeref"
  by (simp add: Buffer_skip_def cassert_def Buffer_length_def Buffer_new_def Queue_front_def mderef_def deref_def Let_def)

end
