(* ===== verification/Conn_Buffer.thy ===== *)
theory Conn_Buffer
  imports Buffer_Laws
begin

text \<open>
  The two buffer classes nested in \<open>TCPConn\<close> (\<^verbatim>\<open>src/netpp/net/tcp_conn.cpp\<close>): the input
  buffer takes received pieces whole or merges them into its last piece, the output buffer
  takes a queue of pieces and hands out one merged piece per asynchronous send. The lemmas say
  what each does to the bytes, and which pieces it loses on the way.
\<close>

section \<open>Operations\<close>

text \<open>\<open>memmove\<close> of the window to the start of the array.\<close>

definition compact :: "piece \<Rightarrow> error + piece" where
  "compact c = (if unat (off c) > 0
     then rbind (copy_out c (unat (off c)) (unat (len c))) (\<lambda>bs.
          rbind (copy_in 0 bs c) (\<lambda>c1. Inr (c1\<lparr>off := 0\<rparr>)))
     else Inr c)"

definition InputBuffer_writePiece :: "addr option \<Rightarrow> buffer \<Rightarrow> mem \<Rightarrow> error + (buffer \<times> mem)" where
  "InputBuffer_writePiece item b m =
     rbind (mderef item m) (\<lambda>i.
     rbind (cassert (unat (len i) > 0)) (\<lambda>_.
     let last = Queue_back b in
     rbind (case last of None \<Rightarrow> Inr None | Some _ \<Rightarrow> rbind (mderef last m) (\<lambda>c. Inr (Some c))) (\<lambda>lc.
     rbind (case lc of
         Some c \<Rightarrow>
           if unat (len c) + unat (len i) \<le> kPieceCapacity
           then rbind (compact c) (\<lambda>c1.
                rbind (copy_out i (unat (off i)) (unat (len i))) (\<lambda>bs.
                rbind (copy_in (unat (len c1)) bs c1) (\<lambda>c2.
                rbind (mstore last (c2\<lparr>len := len c2 + len i\<rparr>) m) (\<lambda>m1.
                rbind (deletePiece item m1) (\<lambda>m2. Inr (b, m2))))))
           else mpush item b m
       | None \<Rightarrow> mpush item b m) (\<lambda>(b1, m1).
     rbind (mderef item m1) (\<lambda>i1.
     Inr (b1\<lparr>blength := blength b1 + unat (len i1)\<rparr>, m1))))))"

primrec OutputBuffer_readPiece_loop :: "nat \<Rightarrow> addr option \<Rightarrow> buffer \<Rightarrow> mem \<Rightarrow> error + (buffer \<times> mem)" where
  "OutputBuffer_readPiece_loop 0 first b m = Inl Diverges"
| "OutputBuffer_readPiece_loop (Suc fuel) first b m =
     rbind (mderef first m) (\<lambda>c.
     if unat (len c) < kPieceCapacity
     then (case Queue_front b of
         None \<Rightarrow> Inr (b, m)
       | Some x \<Rightarrow> rbind (mderef (Some x) m) (\<lambda>n.
           if unat (len c) + unat (len n) \<le> kPieceCapacity
           then rbind (compact c) (\<lambda>c1.
                rbind (mpop b m) (\<lambda>(_, b1).
                rbind (copy_out n (unat (off n)) (unat (len n))) (\<lambda>bs.
                rbind (copy_in (unat (len c1)) bs c1) (\<lambda>c2.
                rbind (mstore first (c2\<lparr>len := len c2 + len n\<rparr>) m) (\<lambda>m1.
                OutputBuffer_readPiece_loop fuel first b1 m1)))))
           else Inr (b, m)))
     else Inr (b, m))"

definition OutputBuffer_readPiece :: "buffer \<Rightarrow> mem \<Rightarrow> error + (addr option \<times> buffer \<times> mem)" where
  "OutputBuffer_readPiece b m =
     rbind (cassert (Buffer_length b > 0)) (\<lambda>_.
     rbind (mpop b m) (\<lambda>(first, b1).
     if first \<noteq> None
     then rbind (OutputBuffer_readPiece_loop (Suc (brk m)) first b1 m) (\<lambda>(b2, m1).
          rbind (mderef first m1) (\<lambda>c.
          Inr (first, b2\<lparr>blength := blength b2 - unat (len c)\<rparr>, m1)))
     else Inr (first, b1, m)))"

text \<open>
  The loop reads \<open>item->next\<close> after \<open>push(item)\<close>, which has set it to null.
\<close>

primrec OutputBuffer_writePieceQueue_loop :: "nat \<Rightarrow> addr option \<Rightarrow> buffer \<Rightarrow> mem \<Rightarrow> error + (buffer \<times> mem)" where
  "OutputBuffer_writePieceQueue_loop 0 item b m = (if item = None then Inr (b, m) else Inl Diverges)"
| "OutputBuffer_writePieceQueue_loop (Suc fuel) item b m =
     (if item = None then Inr (b, m)
      else rbind (mderef item m) (\<lambda>c.
           rbind (cassert (unat (len c) > 0)) (\<lambda>_.
           rbind (mpush item b m) (\<lambda>(b1, m1).
           rbind (mderef item m1) (\<lambda>c1.
           OutputBuffer_writePieceQueue_loop fuel (nxt c1)
             (b1\<lparr>blength := blength b1 + unat (len c1)\<rparr>) m1)))))"

definition OutputBuffer_writePieceQueue :: "addr option \<Rightarrow> buffer \<Rightarrow> mem \<Rightarrow> error + (buffer \<times> mem)" where
  "OutputBuffer_writePieceQueue queue_head b m =
     rbind (cassert (queue_head \<noteq> None)) (\<lambda>_.
     OutputBuffer_writePieceQueue_loop (Suc (brk m)) queue_head b m)"

section \<open>Merging two pieces\<close>

lemma compact_ok:
  assumes "piece_ok c"
  shows "\<exists>c1. compact c = Inr c1 \<and> off c1 = 0 \<and> len c1 = len c \<and> nxt c1 = nxt c \<and> piece_ok c1
     \<and> piece_bytes c1 = piece_bytes c"
proof (cases "unat (off c) > 0")
  case True
  have l: "length (piece_bytes c) = unat (len c)" and d: "length (data c) = kPieceCapacity"
    and w: "unat (off c) + unat (len c) \<le> kPieceCapacity" using assms by (simp_all add: piece_ok_def)
  let ?c = "c\<lparr>data := piece_bytes c @ drop (unat (len c)) (data c), off := 0\<rparr>"
  have "compact c = Inr ?c"
    using True l d w by (simp add: compact_def copy_out_ok copy_in_def flip: piece_bytes_def)
  moreover have "piece_ok ?c" "piece_bytes ?c = piece_bytes c"
    using l d w by (simp_all add: piece_ok_def piece_bytes_def [of ?c])
  ultimately show ?thesis by auto
next
  case False
  then show ?thesis using assms by (simp add: compact_def unat_eq_0)
qed

text \<open>The result of merging piece \<open>n\<close> into piece \<open>c\<close>, as both classes do it.\<close>

definition merged :: "piece \<Rightarrow> piece \<Rightarrow> error + piece" where
  "merged c n = rbind (compact c) (\<lambda>c1.
     rbind (copy_out n (unat (off n)) (unat (len n))) (\<lambda>bs.
     rbind (copy_in (unat (len c1)) bs c1) (\<lambda>c2. Inr (c2\<lparr>len := len c2 + len n\<rparr>))))"

lemma merged_ok:
  assumes c: "piece_ok c" and n: "piece_ok n" and room: "unat (len c) + unat (len n) \<le> kPieceCapacity"
  shows "\<exists>c2. merged c n = Inr c2 \<and> piece_ok c2 \<and> nxt c2 = nxt c
     \<and> piece_bytes c2 = piece_bytes c @ piece_bytes n \<and> unat (len c2) = unat (len c) + unat (len n)"
proof -
  obtain c1 where c1: "compact c = Inr c1" "off c1 = 0" "len c1 = len c" "nxt c1 = nxt c" "piece_ok c1"
    "piece_bytes c1 = piece_bytes c"
    using compact_ok [OF c] by blast
  let ?bs = "piece_bytes n"
  have l: "length ?bs = unat (len n)" using n by simp
  have out: "copy_out n (unat (off n)) (unat (len n)) = Inr ?bs"
    using n by (simp add: copy_out_ok piece_ok_def piece_bytes_def)
  let ?c2 = "c1\<lparr>data := take (unat (len c)) (data c1) @ ?bs @ drop (unat (len c) + length ?bs) (data c1),
               len := len c1 + word_of_nat (length ?bs)\<rparr>"
  have ap: "piece_ok ?c2" "piece_bytes ?c2 = piece_bytes c @ ?bs"
    using piece_append [OF c1(5), of ?bs] room l c1 by simp_all
  have "merged c n = Inr ?c2"
    using c1 out room l by (simp add: merged_def copy_in_def piece_ok_def)
  moreover have "unat (len ?c2) = unat (len c) + unat (len n)"
    using ap length_piece_bytes [OF ap(1)] l length_piece_bytes [OF c] by simp
  ultimately show ?thesis using ap c1(4) by auto
qed

section \<open>The input buffer\<close>

text \<open>Whether \<open>deletePiece\<close> will keep the piece in the cache.\<close>

definition cache_has_room :: "mem \<Rightarrow> bool" where
  "cache_has_room m \<longleftrightarrow> qsize (pqueue (pool m)) < using_count (pool m) - 1 + BASE_CACHE_COUNT"

text \<open>Whether \<open>writePiece\<close> merges the item into the last piece.\<close>

definition merges :: "mem \<Rightarrow> addr list \<Rightarrow> addr \<Rightarrow> bool" where
  "merges m as a \<longleftrightarrow> as \<noteq> [] \<and>
     length (cell_bytes (cells m) (last as)) + length (cell_bytes (cells m) a) \<le> kPieceCapacity"

lemma writePiece_push:
  assumes rep: "bchain m b as (insert a F)" and aF: "a \<notin> F" and i: "cells m a = Some i" "piece_ok i"
    and pos: "0 < unat (len i)" and no: "\<not> merges m as a"
  shows "\<exists>b' m'. InputBuffer_writePiece (Some a) b m = Inr (b', m') \<and> bchain m' b' (as @ [a]) F
     \<and> chunks m' (as @ [a]) = chunks m as @ [piece_bytes i]
     \<and> blength b' = blength b + unat (len i) \<and> frame m m' F \<and> pool m' = pool m"
proof -
  obtain b1 m1 where p: "mpush (Some a) b m = Inr (b1, m1)" "bchain m1 b1 (as @ [a]) F"
    "chunks m1 (as @ [a]) = chunks m as @ [piece_bytes i]" "blength b1 = blength b" "frame m m1 F"
    and u: "unlinked (cells m1) = unlinked (cells m)"
    using bchain_push [OF rep aF i] by blast
  obtain i1 where i1: "cells m1 a = Some i1" "len i1 = len i"
    using fun_cong [OF u, of a] i by (cases "cells m1 a") (auto simp: unlinked_def unlink_eq_iff)
  have "InputBuffer_writePiece (Some a) b m = Inr (b1\<lparr>blength := blength b1 + unat (len i)\<rparr>, m1)"
  proof (cases "as = []")
    case True
    then show ?thesis
      using Queue_back_bchain [OF rep] i pos p i1 by (simp add: InputBuffer_writePiece_def mem_simps)
  next
    case False
    then obtain c where c: "cells m (last as) = Some c" "piece_ok c"
      using bchain_cell [OF rep, of "last as"] by auto
    then have "\<not> unat (len c) + unat (len i) \<le> kPieceCapacity"
      using no False i by (simp add: merges_def cell_bytes_def)
    then show ?thesis
      using Queue_back_bchain [OF rep] False c i pos p i1 by (simp add: InputBuffer_writePiece_def mem_simps)
  qed
  moreover have "pool m1 = pool m" using p(1) by (auto simp: mpush_def rbind_eq_Inr_iff)
  ultimately show ?thesis using p by auto
qed

text \<open>The state in which \<open>deletePiece(item)\<close> is called when the item is merged.\<close>

lemma writePiece_merge_step:
  assumes rep: "bchain m b (as @ [z]) (insert a F)" and aF: "a \<notin> F" and i: "cells m a = Some i" "piece_ok i"
    and pos: "0 < unat (len i)" and yes: "merges m (as @ [z]) a"
  shows "\<exists>m1. bchain m1 b (as @ [z]) (insert a F) \<and> pool m1 = pool m \<and> cells m1 a = Some i
     \<and> chunks m1 (as @ [z]) = chunks m as @ [cell_bytes (cells m) z @ piece_bytes i] \<and> frame m m1 F
     \<and> InputBuffer_writePiece (Some a) b m =
         rbind (deletePiece (Some a) m1) (\<lambda>m2. rbind (mderef (Some a) m2) (\<lambda>i1.
         Inr (b\<lparr>blength := blength b + unat (len i1)\<rparr>, m2)))"
proof -
  obtain c where c: "cells m z = Some c" "piece_ok c" using bchain_cell [OF rep, of z] by auto
  have room: "unat (len c) + unat (len i) \<le> kPieceCapacity"
    using yes c i by (simp add: merges_def cell_bytes_def)
  obtain c2 where c2: "merged c i = Inr c2" "piece_ok c2" "nxt c2 = nxt c"
    "piece_bytes c2 = piece_bytes c @ piece_bytes i"
    using merged_ok [OF c(2) i(2) room] by blast
  let ?m = "m\<lparr>cells := (cells m)(z \<mapsto> c2)\<rparr>"
  note upd = bchain_upd [OF rep _ c(1) c2(2,3)]
  have az: "a \<noteq> z" using rep by (auto simp: bchain_def)
  have "chunks ?m (as @ [z]) = chunks m as @ [cell_bytes (cells m) z @ piece_bytes i]"
    using upd(3) c c2(4) by (simp only: map_upd_last [OF bchain_notin [OF rep]] chunks_def) (simp add: cell_bytes_def)
  moreover have "frame m ?m F" using upd(2) by (auto intro: frame_mono)
  moreover have "InputBuffer_writePiece (Some a) b m =
         rbind (deletePiece (Some a) ?m) (\<lambda>m2. rbind (mderef (Some a) m2) (\<lambda>i1.
         Inr (b\<lparr>blength := blength b + unat (len i1)\<rparr>, m2)))"
  proof -
    obtain c1 bs c3 where "compact c = Inr c1" "copy_out i (unat (off i)) (unat (len i)) = Inr bs"
      "copy_in (unat (len c1)) bs c1 = Inr c3" "c2 = c3\<lparr>len := len c3 + len i\<rparr>"
      using c2(1) by (auto simp: merged_def rbind_eq_Inr_iff)
    then show ?thesis
      using Queue_back_bchain [OF rep] c i pos room
      by (simp add: InputBuffer_writePiece_def mem_simps rbind_assoc)
  qed
  ultimately show ?thesis using upd(1) i az by (intro exI [of _ ?m]) auto
qed

lemma writePiece_merge:
  assumes rep: "bchain m b (as @ [z]) (insert a F)" and aF: "a \<notin> F" and i: "cells m a = Some i" "piece_ok i"
    and pos: "0 < unat (len i)" and yes: "merges m (as @ [z]) a" and cache: "cache_has_room m"
  shows "\<exists>b' m'. InputBuffer_writePiece (Some a) b m = Inr (b', m') \<and> bchain m' b' (as @ [z]) F
     \<and> chunks m' (as @ [z]) = chunks m as @ [cell_bytes (cells m) z @ piece_bytes i]
     \<and> blength b' = blength b + unat (len i) \<and> frame m m' F
     \<and> unat (qsize (pqueue (pool m'))) = unat (qsize (pqueue (pool m))) + 1
     \<and> using_count (pool m') = using_count (pool m) - 1"
proof -
  let ?G = "set (as @ [z]) \<union> F"
  obtain m1 where rep1: "bchain m1 b (as @ [z]) (insert a F)" and p1: "pool m1 = pool m" "cells m1 a = Some i"
    and ch1: "chunks m1 (as @ [z]) = chunks m as @ [cell_bytes (cells m) z @ piece_bytes i]" and fr1: "frame m m1 F"
    and run: "InputBuffer_writePiece (Some a) b m =
         rbind (deletePiece (Some a) m1) (\<lambda>m2. rbind (mderef (Some a) m2) (\<lambda>i1.
         Inr (b\<lparr>blength := blength b + unat (len i1)\<rparr>, m2)))"
    using writePiece_merge_step [OF rep aF i pos yes] by blast
  have aG: "a \<notin> ?G" using rep aF by (auto simp: bchain_def)
  have "mem_inv m1 (insert a ?G)" using rep1 by (simp add: bchain_def)
  then obtain ps where ps: "cache_rep m1 (insert a ?G) ps" by (auto simp: mem_inv_def)
  obtain m2 d where del: "deletePiece (Some a) m1 = Inr m2" "cache_rep m2 ?G (ps @ [a])" "frame m1 m2 ?G"
    "cells m2 a = Some d" "len d = len i" "using_count (pool m2) = using_count (pool m) - 1"
    using deletePiece_cached [OF ps aG p1(2)] cache p1(1) by (auto simp: cache_has_room_def)
  have "unat (qsize (pqueue (pool m2))) = unat (qsize (pqueue (pool m))) + 1"
    using cache_rep_size [OF del(2)] cache_rep_size [OF ps] p1(1) by simp
  note pl = this
  have inv: "mem_inv m2 ?G" using del(2) by (auto simp: mem_inv_def)
  have "frame m1 m2 (set (as @ [z]))" using del(3) by (rule frame_mono) auto
  moreover have "set (as @ [z]) \<inter> F = {}" using rep by (auto simp: bchain_def)
  ultimately have "bchain m2 b (as @ [z]) F" "chunks m2 (as @ [z]) = chunks m1 (as @ [z])"
    using bchain_frame [OF rep1 _ inv] by auto
  moreover have "frame m m2 F" using fr1 del(3) by (auto simp: frame_def)
  ultimately show ?thesis using run del ch1 pl by (simp add: mem_simps)
qed

lemma writePiece_chain:
  assumes rep: "bchain m b as (insert a F)" "a \<notin> F" and a: "cell_ok (cells m) a" "cell_bytes (cells m) a \<noteq> []"
    and room: "merges m as a \<longrightarrow> cache_has_room m"
  shows "\<exists>b' m' as'. InputBuffer_writePiece (Some a) b m = Inr (b', m') \<and> bchain m' b' as' F
     \<and> concat (chunks m' as') = concat (chunks m as) @ cell_bytes (cells m) a
     \<and> blength b' = blength b + length (cell_bytes (cells m) a) \<and> frame m m' F
     \<and> ((\<forall>c \<in> set (chunks m as). c \<noteq> []) \<longrightarrow> (\<forall>c \<in> set (chunks m' as'). c \<noteq> []))"
proof -
  obtain i where i: "cells m a = Some i" "piece_ok i" using a(1) by (auto simp: cell_ok_iff)
  have ib: "cell_bytes (cells m) a = piece_bytes i" using i by (simp add: cell_bytes_def)
  have li: "length (piece_bytes i) = unat (len i)" using i by simp
  have pos: "0 < unat (len i)" using a(2) ib li by (simp flip: length_greater_0_conv)
  show ?thesis
  proof (cases "merges m as a")
    case False
    obtain b' m' where "InputBuffer_writePiece (Some a) b m = Inr (b', m')" "bchain m' b' (as @ [a]) F"
      "chunks m' (as @ [a]) = chunks m as @ [piece_bytes i]" "blength b' = blength b + unat (len i)" "frame m m' F"
      using writePiece_push [OF rep i pos False] by blast
    then show ?thesis using ib li a(2) by (intro exI [of _ b'] exI [of _ m'] exI [of _ "as @ [a]"]) simp
  next
    case True
    then obtain xs z where as: "as = xs @ [z]" by (metis merges_def append_butlast_last_id)
    obtain b' m' where "InputBuffer_writePiece (Some a) b m = Inr (b', m')" "bchain m' b' (xs @ [z]) F"
      "chunks m' (xs @ [z]) = chunks m xs @ [cell_bytes (cells m) z @ piece_bytes i]"
      "blength b' = blength b + unat (len i)" "frame m m' F"
      using writePiece_merge [of m b xs z a F i] rep room i pos True as by blast
    moreover have "chunks m as = chunks m xs @ [cell_bytes (cells m) z]" using as by (simp add: chunks_def)
    ultimately show ?thesis using as ib li a(2) by (intro exI [of _ b'] exI [of _ m'] exI [of _ as]) simp
  qed
qed

lemma writePiece_holds:
  assumes "bchain m b as (insert a F)" and "a \<notin> F" and "blength b = length (chain_bytes (cells m) as)"
    and "cell_ok (cells m) a" and "cell_bytes (cells m) a \<noteq> []"
    and "merges m as a \<longrightarrow> cache_has_room m"
  shows "\<exists>b' m'. InputBuffer_writePiece (Some a) b m = Inr (b', m')
    \<and> holds m' b' (chain_bytes (cells m) as @ cell_bytes (cells m) a) F \<and> frame m m' F"
proof -
  obtain b' m' as' where "InputBuffer_writePiece (Some a) b m = Inr (b', m')" "bchain m' b' as' F"
    "concat (chunks m' as') = concat (chunks m as) @ cell_bytes (cells m) a"
    "blength b' = blength b + length (cell_bytes (cells m) a)" "frame m m' F"
    using writePiece_chain [OF assms(1,2,4-6)] by blast
  then show ?thesis using assms(3) by (auto simp: holds_def concat_chunks)
qed

lemma writePiece_use_after_free:
  assumes rep: "bchain m b (as @ [z]) (insert a F)" and aF: "a \<notin> F" and i: "cells m a = Some i" "piece_ok i"
    and pos: "0 < unat (len i)" and yes: "merges m (as @ [z]) a"
    and full: "\<not> cache_has_room m" and small: "unat (qsize (pqueue (pool m))) < 2 ^ 32 - 1"
  shows "InputBuffer_writePiece (Some a) b m = Inl UseAfterFree"
proof -
  let ?G = "set (as @ [z]) \<union> F"
  obtain m1 where rep1: "bchain m1 b (as @ [z]) (insert a F)" and p1: "pool m1 = pool m" "cells m1 a = Some i"
    and run: "InputBuffer_writePiece (Some a) b m =
         rbind (deletePiece (Some a) m1) (\<lambda>m2. rbind (mderef (Some a) m2) (\<lambda>i1.
         Inr (b\<lparr>blength := blength b + unat (len i1)\<rparr>, m2)))"
    using writePiece_merge_step [OF rep aF i pos yes] by blast
  have aG: "a \<notin> ?G" using rep aF by (auto simp: bchain_def)
  have "mem_inv m1 (insert a ?G)" using rep1 by (simp add: bchain_def)
  then obtain ps where ps: "cache_rep m1 (insert a ?G) ps" by (auto simp: mem_inv_def)
  have no: "\<not> qsize (pqueue (pool m1)) < using_count (pool m1) - 1 + BASE_CACHE_COUNT"
    using full p1(1) by (simp add: cache_has_room_def)
  define s where "s = qsize (pqueue (pool m1))"
  define l where "l = using_count (pool m1) - 1 + BASE_CACHE_COUNT"
  have "unat (s - l) \<le> unat s" using no by (simp add: unat_sub s_def l_def)
  then have "unat (s - l + 1) = unat (s - l) + 1"
    using small p1(1) by (simp add: unat_word_ariths s_def)
  then have "0 < (if s - l + 1 > MAX_DELETE_ONCE then MAX_DELETE_ONCE else s - l + 1)"
    by (auto simp: word_less_nat_alt MAX_DELETE_ONCE_def)
  then obtain m2 where "deletePiece (Some a) m1 = Inr m2" "cells m2 a = None"
    using deletePiece_freed [OF ps aG no] unfolding s_def l_def by blast
  then show ?thesis using run by (simp add: mderef_def deref_def)
qed

section \<open>The output buffer\<close>

text \<open>
  The specification of \<open>readPiece\<close> on the contents of the pieces: following pieces are
  merged into the first one as long as they fit.
\<close>

fun gather :: "byte list \<Rightarrow> byte list list \<Rightarrow> byte list \<times> byte list list" where
  "gather x [] = (x, [])"
| "gather x (c # cs) = (if length x < kPieceCapacity \<and> length x + length c \<le> kPieceCapacity
     then gather (x @ c) cs else (x, c # cs))"

lemma gather_concat: "gather x cs = (y, ds) \<Longrightarrow> y @ concat ds = x @ concat cs"
  by (induction x cs rule: gather.induct) (auto split: if_splits)

lemma gather_bound: "gather x cs = (y, ds) \<Longrightarrow> length x \<le> kPieceCapacity \<Longrightarrow>
    length x \<le> length y \<and> length y \<le> kPieceCapacity"
  by (induction x cs rule: gather.induct) (auto split: if_splits)

lemma readPiece_loop_step:
  assumes rep: "bchain m b (n # as) (insert a F)" and aF: "a \<notin> F" and c: "cells m a = Some c" "piece_ok c"
    and d: "cells m n = Some d" "piece_ok d" and room: "unat (len c) < kPieceCapacity"
      "unat (len c) + unat (len d) \<le> kPieceCapacity"
  shows "\<exists>b1 m1 c2. OutputBuffer_readPiece_loop (Suc fuel) (Some a) b m = OutputBuffer_readPiece_loop fuel (Some a) b1 m1
     \<and> bchain m1 b1 as (insert a (insert n F)) \<and> chunks m1 as = chunks m as
     \<and> cells m1 a = Some c2 \<and> piece_ok c2 \<and> piece_bytes c2 = piece_bytes c @ piece_bytes d
     \<and> blength b1 = blength b \<and> frame m m1 (insert n F) \<and> pool m1 = pool m \<and> brk m1 = brk m"
proof -
  obtain b1 where pop: "mpop b m = Inr (Some n, b1)" and rep1: "bchain m b1 as (insert n (insert a F))"
    and bl: "blength b1 = blength b"
    using bchain_pop [OF rep] by blast
  obtain c2 where c2: "merged c d = Inr c2" "piece_ok c2" "nxt c2 = nxt c"
    "piece_bytes c2 = piece_bytes c @ piece_bytes d"
    using merged_ok [OF c(2) d(2) room(2)] by blast
  let ?m = "m\<lparr>cells := (cells m)(a \<mapsto> c2)\<rparr>"
  have an: "a \<noteq> n" "a \<notin> set as" using rep by (auto simp: bchain_def)
  obtain c1 bs c3 where ops: "compact c = Inr c1" "copy_out d (unat (off d)) (unat (len d)) = Inr bs"
    "copy_in (unat (len c1)) bs c1 = Inr c3" "c2 = c3\<lparr>len := len c3 + len d\<rparr>"
    using c2(1) by (auto simp: merged_def rbind_eq_Inr_iff)
  have run: "OutputBuffer_readPiece_loop (Suc fuel) (Some a) b m = OutputBuffer_readPiece_loop fuel (Some a) b1 ?m"
    using Queue_front_bchain [OF rep] c d room pop ops by (simp add: mem_simps)
  have "mem_inv ?m (set as \<union> insert a (insert n F))"
    using rep1 c2(2) by (intro mem_inv_upd) (auto simp: bchain_def piece_ok_def insert_commute)
  moreover have fr: "frame m ?m (set as)" using an by (auto simp: frame_def)
  moreover have "set as \<inter> insert a (insert n F) = {}" using rep1 by (auto simp: bchain_def)
  ultimately have "bchain ?m b1 as (insert a (insert n F))" "chunks ?m as = chunks m as"
    using bchain_frame [OF rep1 fr] by blast+
  moreover have "frame m ?m (insert n F)" using an aF by (auto simp: frame_def)
  ultimately show ?thesis using run c2 bl by (intro exI [of _ b1] exI [of _ ?m] exI [of _ c2]) simp
qed

lemma readPiece_loop_ok:
  "bchain m b as (insert a F) \<Longrightarrow> a \<notin> F \<Longrightarrow> cells m a = Some c \<Longrightarrow> piece_ok c \<Longrightarrow> length as < fuel \<Longrightarrow>
   \<exists>b' m' lost rest c'. OutputBuffer_readPiece_loop fuel (Some a) b m = Inr (b', m') \<and> as = lost @ rest
     \<and> bchain m' b' rest (insert a (set lost \<union> F)) \<and> cells m' a = Some c' \<and> piece_ok c'
     \<and> gather (piece_bytes c) (chunks m as) = (piece_bytes c', chunks m' rest)
     \<and> blength b' = blength b \<and> frame m m' F \<and> pool m' = pool m"
proof (induction fuel arbitrary: m b as c F)
  case 0
  then show ?case by simp
next
  case (Suc fuel)
  note rep = Suc.prems(1) and aF = Suc.prems(2) and c = Suc.prems(3,4)
  have stop: ?case if "OutputBuffer_readPiece_loop (Suc fuel) (Some a) b m = Inr (b, m)"
    and "gather (piece_bytes c) (chunks m as) = (piece_bytes c, chunks m as)"
    using that rep c by (intro exI [of _ b] exI [of _ m] exI [of _ "[]"] exI [of _ as] exI [of _ c]) simp
  show ?case
  proof (cases as)
    case Nil
    then show ?thesis using Queue_front_bchain [OF rep] c by (intro stop) (auto simp: mem_simps chunks_def)
  next
    case (Cons n xs)
    then obtain d where d: "cells m n = Some d" "piece_ok d" using bchain_cell [OF rep, of n] by auto
    have nb: "cell_bytes (cells m) n = piece_bytes d" using d by (simp add: cell_bytes_def)
    show ?thesis
    proof (cases "unat (len c) < kPieceCapacity \<and> unat (len c) + unat (len d) \<le> kPieceCapacity")
      case True
      obtain b1 m1 c2 where st: "OutputBuffer_readPiece_loop (Suc fuel) (Some a) b m = OutputBuffer_readPiece_loop fuel (Some a) b1 m1"
        "bchain m1 b1 xs (insert a (insert n F))" "chunks m1 xs = chunks m xs"
        "cells m1 a = Some c2" "piece_ok c2" "piece_bytes c2 = piece_bytes c @ piece_bytes d"
        "blength b1 = blength b" "frame m m1 (insert n F)" "pool m1 = pool m"
        using readPiece_loop_step [of m b n xs a F c d fuel] rep Cons aF c d True by blast
      have "a \<notin> insert n F" using rep Cons aF by (auto simp: bchain_def)
      moreover have "length xs < fuel" using Suc.prems(5) Cons by simp
      ultimately obtain b' m' lost rest c' where IH:
        "OutputBuffer_readPiece_loop fuel (Some a) b1 m1 = Inr (b', m')" "xs = lost @ rest"
        "bchain m' b' rest (insert a (set lost \<union> insert n F))" "cells m' a = Some c'" "piece_ok c'"
        "gather (piece_bytes c2) (chunks m1 xs) = (piece_bytes c', chunks m' rest)"
        "blength b' = blength b1" "frame m1 m' (insert n F)" "pool m' = pool m1"
        using Suc.IH [OF st(2) _ st(4,5)] by blast
      have "set lost \<union> insert n F = set (n # lost) \<union> F" by auto
      moreover have "frame m m' F" using st(8) IH(8) by (auto simp: frame_def)
      moreover have "gather (piece_bytes c) (chunks m as) = (piece_bytes c', chunks m' rest)"
      proof -
        have "chunks m as = piece_bytes d # chunks m xs" using Cons nb by (simp add: chunks_def)
        then show ?thesis using IH(6) st(3,6) True c d by simp
      qed
      ultimately show ?thesis using IH st Cons
        by (intro exI [of _ b'] exI [of _ m'] exI [of _ "n # lost"] exI [of _ rest] exI [of _ c']) simp
    next
      case False
      have "gather (piece_bytes c) (chunks m as) = (piece_bytes c, chunks m as)"
        using False Cons nb c d by (auto simp: chunks_def)
      moreover have "OutputBuffer_readPiece_loop (Suc fuel) (Some a) b m = Inr (b, m)"
        using Queue_front_bchain [OF rep] Cons c d False by (auto simp: mem_simps)
      ultimately show ?thesis by (intro stop)
    qed
  qed
qed

lemma OutputBuffer_readPiece_ok:
  assumes rep: "bchain m b (a # as) F" and bl: "blength b = length (chain_bytes (cells m) (a # as))" "0 < blength b"
  shows "\<exists>b' m' lost rest. OutputBuffer_readPiece b m = Inr (Some a, b', m') \<and> as = lost @ rest
     \<and> bchain m' b' rest (insert a (set lost \<union> F))
     \<and> gather (cell_bytes (cells m) a) (chunks m as) = (cell_bytes (cells m') a, chunks m' rest)
     \<and> blength b' = length (chain_bytes (cells m') rest) \<and> frame m m' F \<and> pool m' = pool m"
proof -
  obtain b1 where pop: "mpop b m = Inr (Some a, b1)" and rep1: "bchain m b1 as (insert a F)"
    and bl1: "blength b1 = blength b"
    using bchain_pop [OF rep] by blast
  obtain c where c: "cells m a = Some c" "piece_ok c" using bchain_cell [OF rep, of a] by auto
  have cb: "cell_bytes (cells m) a = piece_bytes c" using c by (simp add: cell_bytes_def)
  have aF: "a \<notin> F" using rep by (auto simp: bchain_def)
  have "length as < Suc (brk m)" using bchain_few [OF rep1] by simp
  then obtain b' m' lost rest c' where l: "OutputBuffer_readPiece_loop (Suc (brk m)) (Some a) b1 m = Inr (b', m')"
    and res: "as = lost @ rest" "bchain m' b' rest (insert a (set lost \<union> F))" and c': "cells m' a = Some c'" "piece_ok c'"
    and g: "gather (piece_bytes c) (chunks m as) = (piece_bytes c', chunks m' rest)"
    and bl': "blength b' = blength b1" and fr: "frame m m' F" "pool m' = pool m"
    using readPiece_loop_ok [OF rep1 aF c] by blast
  have "piece_bytes c' @ chain_bytes (cells m') rest = chain_bytes (cells m) (a # as)"
    using gather_concat [OF g] cb by (simp add: concat_chunks)
  from arg_cong [OF this, of length]
  have "blength b' - unat (len c') = length (chain_bytes (cells m') rest)"
    using bl' bl1 bl(1) length_piece_bytes [OF c'(2)] by simp
  moreover have "OutputBuffer_readPiece b m = Inr (Some a, b'\<lparr>blength := blength b' - unat (len c')\<rparr>, m')"
    using bl(2) pop l c' by (simp add: OutputBuffer_readPiece_def Buffer_length_def mem_simps
        del: OutputBuffer_readPiece_loop.simps)
  moreover have "cell_bytes (cells m') a = piece_bytes c'" using c' by (simp add: cell_bytes_def)
  ultimately show ?thesis using res g cb fr
    by (intro exI [of _ "b'\<lparr>blength := blength b' - unat (len c')\<rparr>"] exI [of _ m'] exI [of _ lost] exI [of _ rest]) simp
qed

lemma OutputBuffer_writePieceQueue_ok:
  assumes rep: "bchain m b bs (insert a F)" and aF: "a \<notin> F" and c: "cells m a = Some c" "piece_ok c" "0 < unat (len c)"
  shows "\<exists>b' m'. OutputBuffer_writePieceQueue (Some a) b m = Inr (b', m') \<and> bchain m' b' (bs @ [a]) F
     \<and> chunks m' (bs @ [a]) = chunks m bs @ [piece_bytes c]
     \<and> blength b' = blength b + unat (len c) \<and> frame m m' F \<and> pool m' = pool m"
proof -
  obtain b1 m1 where p: "mpush (Some a) b m = Inr (b1, m1)" "bchain m1 b1 (bs @ [a]) F"
    "chunks m1 (bs @ [a]) = chunks m bs @ [piece_bytes c]" "blength b1 = blength b" "frame m m1 F"
    "unlinked (cells m1) = unlinked (cells m)"
    using bchain_push [OF rep aF c(1,2)] by blast
  obtain c1 where c1: "cells m1 a = Some c1" "len c1 = len c"
    using fun_cong [OF p(6), of a] c by (cases "cells m1 a") (auto simp: unlinked_def unlink_eq_iff)
  have "chain (cells m1) (qhead b1) (bs @ [a]) None" using p(2) by (simp add: bchain_def queue_rep_def)
  then have "nxt c1 = None" using c1 by auto
  then have "OutputBuffer_writePieceQueue (Some a) b m = Inr (b1\<lparr>blength := blength b1 + unat (len c)\<rparr>, m1)"
    using c p(1) c1 by (cases "brk m") (simp_all add: OutputBuffer_writePieceQueue_def mem_simps)
  moreover have "pool m1 = pool m" using p(1) by (auto simp: mpush_def rbind_eq_Inr_iff)
  ultimately show ?thesis using p by auto
qed

section \<open>Example for the witnesses\<close>

text \<open>
  Three pieces with one byte each: the first one in a buffer, the others allocated and held by
  the caller; the cache of the pool is empty.
\<close>

definition one_byte :: "byte \<Rightarrow> piece" where
  "one_byte x = \<lparr>nxt = None, off = 0, len = 1, data = x # replicate 4095 0\<rparr>"

definition held_mem :: mem where
  "held_mem = \<lparr>cells = (\<lambda>_. None)(0 \<mapsto> one_byte 10, 1 \<mapsto> (one_byte 11)\<lparr>nxt := Some 2\<rparr>, 2 \<mapsto> one_byte 12),
     brk = 3, pool = \<lparr>pqueue = Queue_new, using_count = 3\<rparr>\<rparr>"

definition held_buf :: buffer where
  "held_buf = \<lparr>qhead = Some 0, qtail = Some 0, qsize = 1, blength = 1\<rparr>"

lemma one_byte_ok [simp]: "piece_ok (one_byte x)" "piece_bytes (one_byte x) = [x]" "unat (len (one_byte x)) = 1"
  by (simp_all add: one_byte_def piece_ok_def piece_bytes_def kPieceCapacity_def)

lemma held_ok: "bchain held_mem held_buf [0] {1, 2}"
proof -
  have "cache_rep held_mem {0, 1, 2} []"
    by (auto simp: cache_rep_def held_mem_def full_size_def one_byte_def kPieceCapacity_def)
  then show ?thesis
    by (auto simp: bchain_def mem_inv_def queue_rep_def held_buf_def cell_ok_def held_mem_def insert_commute)
      (simp_all add: one_byte_def)
qed

lemma held_cells: "cells held_mem 0 = Some (one_byte 10)" "cells held_mem 1 = Some ((one_byte 11)\<lparr>nxt := Some 2\<rparr>)"
    "cells held_mem 2 = Some (one_byte 12)"
  by (simp_all add: held_mem_def)

lemma held_room: "cache_has_room held_mem" "merges held_mem [0] 2"
  by (simp_all add: cache_has_room_def held_mem_def Queue_new_def BASE_CACHE_COUNT_def merges_def cell_bytes_def
      kPieceCapacity_def)

section \<open>Properties\<close>

text \<open>
  A received piece is appended to the input buffer: \<open>writePiece\<close> either links it or merges
  it into the last piece, in both cases the buffer then carries the old bytes followed by the
  received ones. When the pieces merge this needs room in the pool's cache, since the code reads
  \<open>item->len\<close> after \<open>deletePiece(item)\<close>.
\<close>

theorem writePiece_appends:
  assumes "bchain m b as (insert a F)" and "a \<notin> F" and "blength b = length (chain_bytes (cells m) as)"
    and "cell_ok (cells m) a" and "cell_bytes (cells m) a \<noteq> []"
    and "merges m as a \<longrightarrow> cache_has_room m"
  shows "\<exists>b' m'. InputBuffer_writePiece (Some a) b m = Inr (b', m')
    \<and> holds m' b' (chain_bytes (cells m) as @ cell_bytes (cells m) a) F \<and> frame m m' F"
  using assms by (rule writePiece_holds)

theorem writePiece_appends_witness:
  "\<exists>b' m'. InputBuffer_writePiece (Some 2) held_buf held_mem = Inr (b', m') \<and> holds m' b' [10, 12] {1}"
proof -
  have "bchain held_mem held_buf [0] (insert 2 {1})" using held_ok by (simp add: insert_commute)
  from writePiece_appends [OF this] held_room held_cells show ?thesis
    by (simp add: cell_ok_def cell_bytes_def held_buf_def) blast
qed

text \<open>
  C37. When the pieces merge and the cache is full, \<open>deletePiece\<close> deletes the item, and
  \<open>writePiece\<close> then reads its \<open>len\<close> field: a use after free.
\<close>

theorem writePiece_reads_deleted_piece:
  assumes "bchain m b as (insert a F)" and "a \<notin> F" and "cell_ok (cells m) a" and "cell_bytes (cells m) a \<noteq> []"
    and "merges m as a" and "\<not> cache_has_room m" and "unat (qsize (pqueue (pool m))) < 2 ^ 32 - 1"
  shows "InputBuffer_writePiece (Some a) b m = Inl UseAfterFree"
proof -
  obtain i where i: "cells m a = Some i" "piece_ok i" using assms(3) by (auto simp: cell_ok_iff)
  have pos: "0 < unat (len i)"
    using assms(4) i length_piece_bytes [OF i(2)] by (simp add: cell_bytes_def flip: length_greater_0_conv)
  obtain xs z where as: "as = xs @ [z]" using assms(5) by (metis merges_def append_butlast_last_id)
  show ?thesis using writePiece_use_after_free [of m b xs z a F i] assms i pos as by blast
qed

text \<open>Two pieces in use and nine in the cache, which is more than the limit of \<open>1 + 8\<close> minus one.\<close>

definition full_cache_mem :: mem where
  "full_cache_mem = \<lparr>cells = (\<lambda>a. if a = 0 then Some (one_byte 10) else if a = 2 then Some (one_byte 12)
       else if 10 \<le> a \<and> a < 19 then Some ((one_byte 0)\<lparr>nxt := if a = 18 then None else Some (Suc a)\<rparr>) else None),
     brk = 19, pool = \<lparr>pqueue = \<lparr>qhead = Some 10, qtail = Some 18, qsize = 9\<rparr>, using_count = 2\<rparr>\<rparr>"

lemma full_cache_rep: "cache_rep full_cache_mem {2, 0} [10, 11, 12, 13, 14, 15, 16, 17, 18]"
proof -
  have "full_size (cells full_cache_mem) a" if "a \<in> {2, 0} \<union> {10..<19}" for a
    using that by (auto simp: full_cache_mem_def full_size_def one_byte_def kPieceCapacity_def)
  moreover have "set [10, 11, 12, 13, 14, 15, 16, 17, 18 :: addr] \<subseteq> {10..<19}" by auto
  ultimately have "\<forall>a \<in> {2, 0} \<union> set [10, 11, 12, 13, 14, 15, 16, 17, 18]. full_size (cells full_cache_mem) a"
    by blast
  moreover have "queue_rep (cells full_cache_mem) (pqueue (pool full_cache_mem)) [10, 11, 12, 13, 14, 15, 16, 17, 18]"
    by (simp add: queue_rep_def full_cache_mem_def)
  moreover have "\<forall>a. brk full_cache_mem \<le> a \<longrightarrow> cells full_cache_mem a = None"
    by (simp add: full_cache_mem_def)
  ultimately show ?thesis by (simp add: cache_rep_def)
qed

theorem writePiece_reads_deleted_piece_witness:
  "InputBuffer_writePiece (Some 2) held_buf full_cache_mem = Inl UseAfterFree"
proof -
  have "bchain full_cache_mem held_buf [0] {2}"
    using full_cache_rep unfolding bchain_def mem_inv_def
    by (auto simp: queue_rep_def held_buf_def cell_ok_def insert_commute)
      (simp_all add: full_cache_mem_def, simp add: one_byte_def)
  from writePiece_reads_deleted_piece [OF this] show ?thesis
    by (simp add: full_cache_mem_def cell_ok_def cell_bytes_def merges_def cache_has_room_def Queue_new_def
        BASE_CACHE_COUNT_def kPieceCapacity_def)
qed

text \<open>
  \<open>readPiece\<close> hands out the front of the output buffer in order: the piece it returns
  carries the first piece's bytes followed by those of the pieces that still fit into 4096
  bytes, the rest stays in the buffer and the byte count follows. The pieces it has merged are
  in no queue any more and are never given back: they stay allocated.
\<close>

theorem readPiece_prefix:
  assumes "bchain m b (a # as) F" and "blength b = length (chain_bytes (cells m) (a # as))" and "0 < blength b"
  shows "\<exists>b' m' lost rest. OutputBuffer_readPiece b m = Inr (Some a, b', m') \<and> as = lost @ rest
    \<and> bchain m' b' rest (insert a (set lost \<union> F))
    \<and> gather (cell_bytes (cells m) a) (chunks m as) = (cell_bytes (cells m') a, chunks m' rest)
    \<and> cell_bytes (cells m') a @ chain_bytes (cells m') rest = chain_bytes (cells m) (a # as)
    \<and> length (cell_bytes (cells m') a) \<le> kPieceCapacity
    \<and> blength b' = length (chain_bytes (cells m') rest)
    \<and> (\<forall>x \<in> set lost. cells m' x \<noteq> None) \<and> pool m' = pool m"
proof -
  obtain b' m' lost rest where r: "OutputBuffer_readPiece b m = Inr (Some a, b', m')" "as = lost @ rest"
    "bchain m' b' rest (insert a (set lost \<union> F))"
    "gather (cell_bytes (cells m) a) (chunks m as) = (cell_bytes (cells m') a, chunks m' rest)"
    "blength b' = length (chain_bytes (cells m') rest)" "pool m' = pool m"
    using OutputBuffer_readPiece_ok [OF assms] by blast
  have "cell_bytes (cells m') a @ chain_bytes (cells m') rest = chain_bytes (cells m) (a # as)"
    using gather_concat [OF r(4)] by (simp add: concat_chunks)
  moreover have "length (cell_bytes (cells m) a) \<le> kPieceCapacity"
    using bchain_cell [OF assms(1), of a] by (auto simp: cell_bytes_def piece_ok_def piece_bytes_def)
  then have "length (cell_bytes (cells m') a) \<le> kPieceCapacity" using gather_bound [OF r(4)] by blast
  moreover have "mem_inv m' (set rest \<union> insert a (set lost \<union> F))" using r(3) by (simp add: bchain_def)
  then have "\<forall>x \<in> set lost. cells m' x \<noteq> None" by (auto dest!: mem_inv_alive)
  ultimately show ?thesis using r by blast
qed

theorem readPiece_prefix_witness:
  "\<exists>b' m' lost rest. OutputBuffer_readPiece held_buf held_mem = Inr (Some 0, b', m') \<and> [] = lost @ rest
    \<and> bchain m' b' rest (insert 0 (set lost \<union> {1, 2}))"
  using readPiece_prefix [OF held_ok] held_cells by (simp add: held_buf_def cell_bytes_def) blast

text \<open>
  C36. \<open>writePieceQueue\<close> is given the head of a chain of pieces and takes only the first one:
  \<open>push(item)\<close> clears \<open>item->next\<close> before the loop follows it. The bytes of all further
  pieces are lost, and the pieces stay allocated, in no queue.
\<close>

theorem writePieceQueue_takes_first_only:
  assumes "bchain m b bs (set (a # as) \<union> F)" and "chain (cells m) (Some a) (a # as) None"
    and "blength b = length (chain_bytes (cells m) bs)" and "set (a # as) \<inter> F = {}"
    and "cell_ok (cells m) a" and "cell_bytes (cells m) a \<noteq> []"
  shows "\<exists>b' m'. OutputBuffer_writePieceQueue (Some a) b m = Inr (b', m')
    \<and> holds m' b' (chain_bytes (cells m) bs @ cell_bytes (cells m) a) (set as \<union> F)
    \<and> (\<forall>x \<in> set as. cells m' x \<noteq> None) \<and> pool m' = pool m"
proof -
  obtain c where c: "cells m a = Some c" "piece_ok c" using assms(5) by (auto simp: cell_ok_iff)
  have cb: "cell_bytes (cells m) a = piece_bytes c" "length (piece_bytes c) = unat (len c)"
    using c by (simp_all add: cell_bytes_def)
  then have pos: "0 < unat (len c)" using assms(6) by (simp flip: length_greater_0_conv)
  have aF: "a \<notin> set as \<union> F" using assms(4) chain_distinct [OF assms(2)] by auto
  have "set (a # as) \<union> F = insert a (set as \<union> F)" by auto
  with assms(1) have "bchain m b bs (insert a (set as \<union> F))" by simp
  from OutputBuffer_writePieceQueue_ok [OF this aF c pos] obtain b' m' where
    w: "OutputBuffer_writePieceQueue (Some a) b m = Inr (b', m')" "bchain m' b' (bs @ [a]) (set as \<union> F)"
    "chunks m' (bs @ [a]) = chunks m bs @ [piece_bytes c]" "blength b' = blength b + unat (len c)"
    "pool m' = pool m" by blast
  have "chain_bytes (cells m') (bs @ [a]) = chain_bytes (cells m) bs @ piece_bytes c"
    using arg_cong [OF w(3), of concat] by (simp only: concat_chunks concat_append concat.simps append_Nil2)
  moreover have "mem_inv m' (set (bs @ [a]) \<union> (set as \<union> F))" using w(2) by (simp add: bchain_def)
  then have "\<forall>x \<in> set as. cells m' x \<noteq> None" by (auto dest!: mem_inv_alive)
  ultimately show ?thesis using w assms(3) cb unfolding holds_def by (metis length_append)
qed

theorem writePieceQueue_takes_first_only_witness:
  "chain (cells held_mem) (Some 1) [1, 2] None \<and> cell_bytes (cells held_mem) 2 = [12] \<and>
   (\<exists>b' m'. OutputBuffer_writePieceQueue (Some 1) held_buf held_mem = Inr (b', m') \<and> holds m' b' [10, 11] {2})"
proof -
  have c: "chain (cells held_mem) (Some 1) [1, 2] None" using held_cells by (simp add: one_byte_def)
  have "bchain held_mem held_buf [0] (set [1, 2] \<union> {})" using held_ok by simp
  from writePieceQueue_takes_first_only [OF this c] c held_cells show ?thesis
    by (simp add: cell_ok_def cell_bytes_def held_buf_def) blast
qed

end
