(* ===== verification/Zero_Copy.thy ===== *)
theory Zero_Copy
  imports Conn_Buffer
begin

text \<open>
  The two adapters between the byte buffer and protobuf:
  \<^verbatim>\<open>src/netpp/net/protobuf/buffer_output_stream.h\<close> and
  \<^verbatim>\<open>src/netpp/net/protobuf/buffer_input_stream.h\<close>, and the way protobuf drives them.

  Serialisation goes through protobuf's \<open>CodedOutputStream\<close>
  (\<^verbatim>\<open>google/protobuf/io/coded_stream.cc\<close>, vendored), whose calls of \<open>Next\<close> and \<open>BackUp\<close> are
  modelled here; the raw writes a message makes are a parameter, a list of byte strings.
  Parsing is a parameter too: a \<open>reader\<close> asks for chunks and stops with a result and the number
  of bytes of the last chunk it has not consumed, which is what the destructor of
  \<open>CodedInputStream\<close> backs up.
\<close>

section \<open>The output stream\<close>

record ostream =
  obuffer :: buffer
  ooriginal :: nat

definition BufferOutputStream_new :: "buffer \<Rightarrow> ostream" where
  "BufferOutputStream_new b = \<lparr>obuffer = b, ooriginal = Buffer_length b\<rparr>"

text \<open>\<open>Next\<close> hands out a pointer (a piece and a position in its array) and a size.\<close>

definition FlatOutputBuffer_flatNext :: "buffer \<Rightarrow> mem \<Rightarrow> error + ((addr option \<times> nat) \<times> nat \<times> buffer \<times> mem)" where
  "FlatOutputBuffer_flatNext b m =
     rbind (case Queue_back b of
              None \<Rightarrow> Buffer_push_new b m
            | Some a \<Rightarrow> rbind (mderef (Some a) m) (\<lambda>c.
                if unat (off c) + unat (len c) = kPieceCapacity then Buffer_push_new b m else Inr (b, m)))
       (\<lambda>(b1, m1).
     let last = Queue_back b1 in
     rbind (mderef last m1) (\<lambda>c.
     let size = kPieceCapacity - unat (off c) - unat (len c) in
     rbind (mstore last (c\<lparr>len := word_of_nat (kPieceCapacity - unat (off c))\<rparr>) m1) (\<lambda>m2.
     Inr ((last, unat (off c) + unat (len c)), size, b1\<lparr>blength := blength b1 + size\<rparr>, m2))))"

definition FlatOutputBuffer_flatBackUp :: "nat \<Rightarrow> buffer \<Rightarrow> mem \<Rightarrow> error + (buffer \<times> mem)" where
  "FlatOutputBuffer_flatBackUp n b m =
     (let last = Queue_back b in
      rbind (cassert (last \<noteq> None)) (\<lambda>_.
      rbind (mderef last m) (\<lambda>c.
      rbind (cassert (n < unat (len c))) (\<lambda>_.
      rbind (mstore last (c\<lparr>len := len c - word_of_nat n\<rparr>) m) (\<lambda>m1.
      Inr (b\<lparr>blength := blength b - n\<rparr>, m1))))))"

definition BufferOutputStream_Next :: "ostream \<Rightarrow> mem \<Rightarrow> error + (bool \<times> (addr option \<times> nat) \<times> nat \<times> ostream \<times> mem)" where
  "BufferOutputStream_Next s m = rbind (FlatOutputBuffer_flatNext (obuffer s) m) (\<lambda>(p, size, b, m1).
     Inr (True, p, size, s\<lparr>obuffer := b\<rparr>, m1))"

definition BufferOutputStream_BackUp :: "nat \<Rightarrow> ostream \<Rightarrow> mem \<Rightarrow> error + (ostream \<times> mem)" where
  "BufferOutputStream_BackUp n s m = rbind (FlatOutputBuffer_flatBackUp n (obuffer s) m) (\<lambda>(b, m1).
     Inr (s\<lparr>obuffer := b\<rparr>, m1))"

definition BufferOutputStream_ByteCount :: "ostream \<Rightarrow> int" where
  "BufferOutputStream_ByteCount s = sint (word_of_int (int (Buffer_length (obuffer s)) - int (ooriginal s)) :: 64 word)"

section \<open>The coded output stream\<close>

record coded_out =
  out_ptr :: "addr option \<times> nat"
  out_size :: nat
  had_error :: bool

text \<open>\<open>memcpy\<close> to a pointer that \<open>Next\<close> has handed out.\<close>

definition write_at :: "addr option \<times> nat \<Rightarrow> byte list \<Rightarrow> mem \<Rightarrow> error + mem" where
  "write_at p d m = (if d = [] then Inr m
     else rbind (mderef (fst p) m) (\<lambda>c. rbind (copy_in (snd p) d c) (\<lambda>c1. mstore (fst p) c1 m)))"

definition CodedOutputStream_Advance :: "nat \<Rightarrow> coded_out \<Rightarrow> coded_out" where
  "CodedOutputStream_Advance n e = e\<lparr>out_ptr := (fst (out_ptr e), snd (out_ptr e) + n), out_size := out_size e - n\<rparr>"

definition CodedOutputStream_Refresh :: "coded_out \<Rightarrow> ostream \<Rightarrow> mem \<Rightarrow> error + (bool \<times> coded_out \<times> ostream \<times> mem)" where
  "CodedOutputStream_Refresh e s m = rbind (BufferOutputStream_Next s m) (\<lambda>(ok, p, size, s1, m1).
     if ok then Inr (True, e\<lparr>out_ptr := p, out_size := size\<rparr>, s1, m1)
     else Inr (False, e\<lparr>out_ptr := (None, 0), out_size := 0, had_error := True\<rparr>, s1, m1))"

definition CodedOutputStream_new :: "ostream \<Rightarrow> mem \<Rightarrow> error + (coded_out \<times> ostream \<times> mem)" where
  "CodedOutputStream_new s m =
     rbind (CodedOutputStream_Refresh \<lparr>out_ptr = (None, 0), out_size = 0, had_error = False\<rparr> s m)
       (\<lambda>(_, e, s1, m1). Inr (e\<lparr>had_error := False\<rparr>, s1, m1))"

definition CodedOutputStream_Trim :: "coded_out \<Rightarrow> ostream \<Rightarrow> mem \<Rightarrow> error + (coded_out \<times> ostream \<times> mem)" where
  "CodedOutputStream_Trim e s m = (if out_size e > 0
     then rbind (BufferOutputStream_BackUp (out_size e) s m) (\<lambda>(s1, m1).
          Inr (e\<lparr>out_ptr := (None, 0), out_size := 0\<rparr>, s1, m1))
     else Inr (e, s, m))"

primrec CodedOutputStream_WriteRaw_loop ::
    "nat \<Rightarrow> byte list \<Rightarrow> coded_out \<Rightarrow> ostream \<Rightarrow> mem \<Rightarrow> error + (coded_out \<times> ostream \<times> mem)" where
  "CodedOutputStream_WriteRaw_loop 0 d e s m = Inl Diverges"
| "CodedOutputStream_WriteRaw_loop (Suc fuel) d e s m =
     (if out_size e < length d
      then rbind (write_at (out_ptr e) (take (out_size e) d) m) (\<lambda>m1.
           rbind (CodedOutputStream_Refresh e s m1) (\<lambda>(ok, e1, s1, m2).
           if ok then CodedOutputStream_WriteRaw_loop fuel (drop (out_size e) d) e1 s1 m2
           else Inr (e1, s1, m2)))
      else rbind (write_at (out_ptr e) d m) (\<lambda>m1.
           Inr (CodedOutputStream_Advance (length d) e, s, m1)))"

definition CodedOutputStream_WriteRaw :: "byte list \<Rightarrow> coded_out \<Rightarrow> ostream \<Rightarrow> mem \<Rightarrow> error + (coded_out \<times> ostream \<times> mem)" where
  "CodedOutputStream_WriteRaw d e s m = CodedOutputStream_WriteRaw_loop (Suc (Suc (length d))) d e s m"

text \<open>
  \<open>SerializeWithCachedSizes\<close> is generated code for each message: \<open>ws\<close> are the raw writes it
  makes. When the whole message fits the current chunk it is written there directly.
\<close>

primrec SerializeWithCachedSizes :: "byte list list \<Rightarrow> coded_out \<Rightarrow> ostream \<Rightarrow> mem \<Rightarrow> error + (coded_out \<times> ostream \<times> mem)" where
  "SerializeWithCachedSizes [] e s m = Inr (e, s, m)"
| "SerializeWithCachedSizes (w # ws) e s m = rbind (CodedOutputStream_WriteRaw w e s m) (\<lambda>(e1, s1, m1).
     SerializeWithCachedSizes ws e1 s1 m1)"

definition SerializePartialToCodedStream ::
    "byte list list \<Rightarrow> coded_out \<Rightarrow> ostream \<Rightarrow> mem \<Rightarrow> error + (bool \<times> coded_out \<times> ostream \<times> mem)" where
  "SerializePartialToCodedStream ws e s m =
     (let size = length (concat ws) in
      if size > 2147483647 then Inr (False, e, s, m)
      else if size \<le> out_size e
      then rbind (write_at (out_ptr e) (concat ws) m) (\<lambda>m1.
           Inr (True, CodedOutputStream_Advance size e, s, m1))
      else rbind (SerializeWithCachedSizes ws e s m) (\<lambda>(e1, s1, m1).
           Inr (\<not> had_error e1, e1, s1, m1)))"

definition SerializeToZeroCopyStream :: "byte list list \<Rightarrow> ostream \<Rightarrow> mem \<Rightarrow> error + (bool \<times> ostream \<times> mem)" where
  "SerializeToZeroCopyStream ws s m =
     rbind (CodedOutputStream_new s m) (\<lambda>(e, s1, m1).
     rbind (SerializePartialToCodedStream ws e s1 m1) (\<lambda>(ok, e1, s2, m2).
     rbind (CodedOutputStream_Trim e1 s2 m2) (\<lambda>(_, s3, m3). Inr (ok, s3, m3))))"

section \<open>The input stream\<close>

record istream =
  ibuffer :: buffer
  drop_piece :: "addr option"
  ioriginal :: nat

definition BufferInputStream_new :: "buffer \<Rightarrow> istream" where
  "BufferInputStream_new b = \<lparr>ibuffer = b, drop_piece = None, ioriginal = Buffer_length b\<rparr>"

text \<open>
  \<open>flatNext\<close> returns the bytes of the front piece, which stays allocated in \<open>drop_\<close> while the
  caller reads them, or nothing when there is no front piece with bytes.
\<close>

definition FlatInputBuffer_flatNext :: "addr option \<Rightarrow> buffer \<Rightarrow> mem \<Rightarrow> error + (byte list option \<times> addr option \<times> buffer)" where
  "FlatInputBuffer_flatNext dropp b m =
     (let first = Queue_front b in
      if first = None then Inr (None, dropp, b)
      else rbind (mderef first m) (\<lambda>c.
        if unat (len c) > 0
        then rbind (copy_out c (unat (off c)) (unat (len c))) (\<lambda>bs.
             rbind (mpop (b\<lparr>blength := blength b - unat (len c)\<rparr>) m) (\<lambda>(item, b1).
             Inr (Some bs, item, b1)))
        else Inr (None, dropp, b)))"

definition FlatInputBuffer_flatBackUp :: "nat \<Rightarrow> addr option \<Rightarrow> buffer \<Rightarrow> mem \<Rightarrow> error + (buffer \<times> mem)" where
  "FlatInputBuffer_flatBackUp n dropp b m =
     rbind (cassert (dropp \<noteq> None)) (\<lambda>_.
     rbind (mderef dropp m) (\<lambda>c.
     rbind (cassert (unat (len c) > n)) (\<lambda>_.
     rbind (mstore dropp (c\<lparr>off := off c + (len c - word_of_nat n), len := word_of_nat n, nxt := qhead b\<rparr>) m) (\<lambda>m1.
     Inr (b\<lparr>qhead := dropp, qsize := qsize b + 1, blength := blength b + n\<rparr>, m1)))))"

definition BufferInputStream_delete :: "istream \<Rightarrow> mem \<Rightarrow> error + mem" where
  "BufferInputStream_delete s m = (if drop_piece s \<noteq> None then deletePiece (drop_piece s) m else Inr m)"

definition BufferInputStream_Next :: "istream \<Rightarrow> mem \<Rightarrow> error + (byte list option \<times> istream \<times> mem)" where
  "BufferInputStream_Next s m =
     rbind (if drop_piece s \<noteq> None
            then rbind (deletePiece (drop_piece s) m) (\<lambda>m1. Inr (s\<lparr>drop_piece := None\<rparr>, m1))
            else Inr (s, m)) (\<lambda>(s1, m1).
     rbind (FlatInputBuffer_flatNext (drop_piece s1) (ibuffer s1) m1) (\<lambda>(bs, d, b).
     Inr (bs, s1\<lparr>ibuffer := b, drop_piece := d\<rparr>, m1)))"

definition BufferInputStream_BackUp :: "nat \<Rightarrow> istream \<Rightarrow> mem \<Rightarrow> error + (istream \<times> mem)" where
  "BufferInputStream_BackUp n s m =
     rbind (cassert (drop_piece s \<noteq> None)) (\<lambda>_.
     rbind (FlatInputBuffer_flatBackUp n (drop_piece s) (ibuffer s) m) (\<lambda>(b, m1).
     Inr (s\<lparr>ibuffer := b, drop_piece := None\<rparr>, m1)))"

text \<open>The comparison \<open>count <= buffer_->length()\<close> converts the \<open>int\<close> to an unsigned 64-bit number.\<close>

definition BufferInputStream_Skip :: "int \<Rightarrow> istream \<Rightarrow> mem \<Rightarrow> error + (bool \<times> istream \<times> mem)" where
  "BufferInputStream_Skip count s m =
     (let n = unat (word_of_int count :: 64 word) in
      if n \<le> Buffer_length (ibuffer s)
      then rbind (Buffer_skip n (ibuffer s) m) (\<lambda>(b, m1). Inr (True, s\<lparr>ibuffer := b\<rparr>, m1))
      else Inr (False, s, m))"

definition BufferInputStream_ByteCount :: "istream \<Rightarrow> int" where
  "BufferInputStream_ByteCount s = sint (word_of_int (int (ioriginal s) - int (Buffer_length (ibuffer s))) :: 64 word)"

text \<open>A reader of chunks, and how protobuf runs it on the stream.\<close>

datatype 'r reader = Done nat 'r | More "byte list option \<Rightarrow> 'r reader"

primrec run_reader :: "'r reader \<Rightarrow> istream \<Rightarrow> mem \<Rightarrow> error + ('r \<times> istream \<times> mem)" where
  "run_reader (Done n r) s m = (if n > 0
     then rbind (BufferInputStream_BackUp n s m) (\<lambda>(s1, m1). Inr (r, s1, m1)) else Inr (r, s, m))"
| "run_reader (More k) s m = rbind (BufferInputStream_Next s m) (\<lambda>(bs, s1, m1). run_reader (k bs) s1 m1)"

section \<open>Serialisation appends\<close>

text \<open>
  Between \<open>Next\<close> and \<open>BackUp\<close> the last piece claims its whole array: the buffer carries the
  bytes written so far and then \<open>out_size\<close> bytes that are not written yet.
\<close>

definition out_rep :: "mem \<Rightarrow> buffer \<Rightarrow> coded_out \<Rightarrow> addr list \<Rightarrow> addr set \<Rightarrow> byte list \<Rightarrow> bool" where
  "out_rep m b e as F bs \<longleftrightarrow> (\<exists>zs a c junk. as = zs @ [a] \<and> bchain m b as F \<and> cells m a = Some c
     \<and> unat (off c) + unat (len c) = kPieceCapacity
     \<and> out_ptr e = (Some a, kPieceCapacity - out_size e) \<and> length junk = out_size e
     \<and> out_size e \<le> unat (len c) \<and> chain_bytes (cells m) as = bs @ junk
     \<and> blength b = length bs + out_size e)"

text \<open>At least one byte of the last piece is in use, so that \<open>BackUp\<close> does not hit its assertion.\<close>

definition out_used :: "mem \<Rightarrow> coded_out \<Rightarrow> addr list \<Rightarrow> bool" where
  "out_used m e as \<longleftrightarrow> (case cells m (last as) of None \<Rightarrow> False | Some c \<Rightarrow> out_size e < unat (len c))"

lemma flatNext_open:
  assumes rep: "bchain m b (zs @ [a]) F" and c: "cells m a = Some c"
    and n: "n = kPieceCapacity - unat (off c) - unat (len c)"
    and bs: "chain_bytes (cells m) (zs @ [a]) = bs" "blength b = length bs"
  defines "c' \<equiv> c\<lparr>len := word_of_nat (kPieceCapacity - unat (off c))\<rparr>"
  defines "m' \<equiv> m\<lparr>cells := (cells m)(a \<mapsto> c')\<rparr>"
  shows "mstore (Some a) c' m = Inr m' \<and> frame m m' F \<and> keeps_off m m' (zs @ [a])
     \<and> out_rep m' (b\<lparr>blength := blength b + n\<rparr>)
          (e\<lparr>out_ptr := (Some a, unat (off c) + unat (len c)), out_size := n\<rparr>) (zs @ [a]) F bs
     \<and> (out_used m' (e\<lparr>out_ptr := (Some a, unat (off c) + unat (len c)), out_size := n\<rparr>) (zs @ [a])
          \<longleftrightarrow> 0 < unat (len c))"
proof -
  have ok: "piece_ok c" using bchain_cell [OF rep, of a] c by auto
  have cap: "kPieceCapacity = 4096" by (simp add: kPieceCapacity_def)
  have l: "unat (len c') = kPieceCapacity - unat (off c)" by (simp add: c'_def cap)
  have ok': "piece_ok c'" using ok l by (auto simp: piece_ok_def c'_def)
  have pb: "piece_bytes c' = piece_bytes c @ take n (drop (unat (off c) + unat (len c)) (data c))"
    using ok l by (auto simp: piece_bytes_def c'_def n piece_ok_def add.commute take_add [symmetric] drop_drop [symmetric]
        simp del: drop_drop simp flip: take_add)
  have upd: "bchain m' b (zs @ [a]) F" "frame m m' F"
    "chunks m' (zs @ [a]) = map (\<lambda>x. if x = a then piece_bytes c' else cell_bytes (cells m) x) (zs @ [a])"
    using bchain_upd [OF rep, of a c c'] c ok' by (simp_all add: c'_def m'_def)
  have "a \<notin> set zs" using rep by (rule bchain_notin)
  then have "chain_bytes (cells m') (zs @ [a]) = bs @ take n (drop (unat (off c) + unat (len c)) (data c))"
    using bs(1) c pb by (auto simp: m'_def cell_bytes_def)
  then show ?thesis
    using c ok l upd bs cap
    by (auto simp: mem_simps m'_def out_rep_def out_used_def c'_def n piece_ok_def keeps_off_def)
qed

lemma Refresh_open:
  assumes start: "(case Queue_back b of None \<Rightarrow> Buffer_push_new b m
      | Some a \<Rightarrow> rbind (mderef (Some a) m) (\<lambda>c.
          if unat (off c) + unat (len c) = kPieceCapacity then Buffer_push_new b m else Inr (b, m)))
      = Inr (b1, m1)"
    and rep: "bchain m1 b1 (zs @ [a]) F" and c: "cells m1 a = Some c"
    and bs: "chain_bytes (cells m1) (zs @ [a]) = bs" "blength b1 = length bs"
  shows "\<exists>e' b' m'. CodedOutputStream_Refresh e (s\<lparr>obuffer := b\<rparr>) m = Inr (True, e', s\<lparr>obuffer := b'\<rparr>, m')
     \<and> out_rep m' b' e' (zs @ [a]) F bs \<and> had_error e' = had_error e
     \<and> out_size e' = kPieceCapacity - unat (off c) - unat (len c)
     \<and> frame m1 m' F \<and> keeps_off m1 m' (zs @ [a]) \<and> (0 < unat (len c) \<longrightarrow> out_used m' e' (zs @ [a]))"
proof -
  have q: "Queue_back b1 = Some a" using Queue_back_bchain [OF rep] by simp
  note f = flatNext_open [where e = e, OF rep c refl bs]
  let ?n = "kPieceCapacity - unat (off c) - unat (len c)"
  let ?m = "m1\<lparr>cells := (cells m1)(a \<mapsto> c\<lparr>len := word_of_nat (kPieceCapacity - unat (off c))\<rparr>)\<rparr>"
  let ?e = "e\<lparr>out_ptr := (Some a, unat (off c) + unat (len c)), out_size := ?n\<rparr>"
  have "CodedOutputStream_Refresh e (s\<lparr>obuffer := b\<rparr>) m
      = Inr (True, ?e, s\<lparr>obuffer := b1\<lparr>blength := blength b1 + ?n\<rparr>\<rparr>, ?m)"
    using start q f mderef_Some [OF c]
    by (simp add: CodedOutputStream_Refresh_def BufferOutputStream_Next_def FlatOutputBuffer_flatNext_def Let_def)
  then show ?thesis using f
    by (intro exI [of _ ?e] exI [of _ "b1\<lparr>blength := blength b1 + ?n\<rparr>"] exI [of _ ?m] conjI) simp_all
qed

text \<open>The last piece has room, or a new piece is linked.\<close>

lemma Refresh_room:
  assumes rep: "bchain m b as F" and bs: "chain_bytes (cells m) as = bs" "blength b = length bs" and pos: "0 < last_room m as"
  shows "\<exists>e' b' m'. CodedOutputStream_Refresh e (s\<lparr>obuffer := b\<rparr>) m = Inr (True, e', s\<lparr>obuffer := b'\<rparr>, m')
     \<and> out_rep m' b' e' as F bs \<and> had_error e' = had_error e \<and> out_size e' = last_room m as
     \<and> frame m m' F \<and> keeps_off m m' as \<and> (cell_bytes (cells m) (last as) \<noteq> [] \<longrightarrow> out_used m' e' as)"
proof -
  obtain zs a c where as: "as = zs @ [a]" and c: "cells m a = Some c"
    and room: "unat (off c) + unat (len c) < kPieceCapacity"
    using pos by (cases as rule: rev_cases) (auto simp: last_room_def split: option.splits)
  have ok: "piece_ok c" using bchain_cell [OF rep, of a] c as by auto
  have q: "Queue_back b = Some a" using Queue_back_bchain [OF rep] as by simp
  have "(case Queue_back b of None \<Rightarrow> Buffer_push_new b m
      | Some a \<Rightarrow> rbind (mderef (Some a) m) (\<lambda>c.
          if unat (off c) + unat (len c) = kPieceCapacity then Buffer_push_new b m else Inr (b, m))) = Inr (b, m)"
    using q room mderef_Some [OF c] by simp
  from Refresh_open [OF this rep [unfolded as] c bs [unfolded as], of e s]
  obtain e' b' m' where r: "CodedOutputStream_Refresh e (s\<lparr>obuffer := b\<rparr>) m = Inr (True, e', s\<lparr>obuffer := b'\<rparr>, m')"
    "out_rep m' b' e' as F bs" "had_error e' = had_error e"
    "out_size e' = kPieceCapacity - unat (off c) - unat (len c)" "frame m m' F" "keeps_off m m' as"
    "0 < unat (len c) \<longrightarrow> out_used m' e' as"
    by (elim exE conjE) (rule that, simp_all add: as)
  have "cell_bytes (cells m) (last as) \<noteq> [] \<longrightarrow> 0 < unat (len c)"
    using as c by (auto simp: cell_bytes_def piece_bytes_def)
  moreover have "out_size e' = last_room m as" using r(4) as c by (simp add: last_room_def)
  ultimately show ?thesis
    using r by (intro exI [of _ e'] exI [of _ b'] exI [of _ m'] conjI) simp_all
qed

lemma Refresh_full:
  assumes rep: "bchain m b as F" and bs: "chain_bytes (cells m) as = bs" "blength b = length bs" and full: "last_room m as = 0"
  shows "\<exists>e' b' m' a. CodedOutputStream_Refresh e (s\<lparr>obuffer := b\<rparr>) m = Inr (True, e', s\<lparr>obuffer := b'\<rparr>, m')
     \<and> out_rep m' b' e' (as @ [a]) F bs \<and> had_error e' = had_error e \<and> out_size e' = kPieceCapacity
     \<and> frame m m' F \<and> keeps_off m m' as"
proof -
  obtain a c b1 m1 where p: "Buffer_push_new b m = Inr (b1, m1)" "bchain m1 b1 (as @ [a]) F"
     "cells m1 a = Some c" "off c = 0" "len c = 0"
     "chunks m1 (as @ [a]) = chunks m as @ [[]]" "blength b1 = blength b" "frame m m1 F" "keeps_off m m1 as"
    using bchain_push_new [OF rep] by blast
  have start: "(case Queue_back b of None \<Rightarrow> Buffer_push_new b m
      | Some a \<Rightarrow> rbind (mderef (Some a) m) (\<lambda>c.
          if unat (off c) + unat (len c) = kPieceCapacity then Buffer_push_new b m else Inr (b, m)))
      = Inr (b1, m1)"
  proof (cases as rule: rev_cases)
    case Nil
    then show ?thesis using Queue_back_bchain [OF rep] p(1) by simp
  next
    case (snoc zs z)
    obtain d where d: "cells m z = Some d" "piece_ok d" using bchain_cell [OF rep, of z] snoc by auto
    then show ?thesis using Queue_back_bchain [OF rep] p(1) snoc full
      by (auto simp: mem_simps last_room_def piece_ok_def)
  qed
  have "chain_bytes (cells m1) (as @ [a]) = bs"
    using p(6) bs(1) concat_chunks [of m1 "as @ [a]"] concat_chunks [of m as] by simp
  moreover have "blength b1 = length bs" using p(7) bs(2) by simp
  ultimately obtain e' b' m' where r: "CodedOutputStream_Refresh e (s\<lparr>obuffer := b\<rparr>) m = Inr (True, e', s\<lparr>obuffer := b'\<rparr>, m')"
    "out_rep m' b' e' (as @ [a]) F bs" "had_error e' = had_error e"
    "out_size e' = kPieceCapacity - unat (off c) - unat (len c)" "frame m1 m' F" "keeps_off m1 m' (as @ [a])"
    using Refresh_open [OF start p(2,3), where e = e and s = s] by blast
  have "out_size e' = kPieceCapacity" using r(4) p(4,5) by simp
  moreover have "keeps_off m m' as" using keeps_off_trans [OF p(9)] r(6) by simp
  ultimately show ?thesis using r(1-3) frame_trans [OF p(8) r(5)]
    by (intro exI [of _ e'] exI [of _ b'] exI [of _ m'] exI [of _ a] conjI) simp_all
qed

lemma Refresh_ok:
  assumes rep: "bchain m b as F" and bs: "chain_bytes (cells m) as = bs" "blength b = length bs"
  shows "\<exists>e' b' m' xs. CodedOutputStream_Refresh e (s\<lparr>obuffer := b\<rparr>) m = Inr (True, e', s\<lparr>obuffer := b'\<rparr>, m')
     \<and> out_rep m' b' e' (as @ xs) F bs \<and> had_error e' = had_error e \<and> 0 < out_size e'
     \<and> frame m m' F \<and> keeps_off m m' as
     \<and> (0 < last_room m as \<and> cell_bytes (cells m) (last as) \<noteq> [] \<longrightarrow> out_used m' e' (as @ xs))
     \<and> (last_room m as = 0 \<longrightarrow> out_size e' = kPieceCapacity)
     \<and> (0 < last_room m as \<longrightarrow> xs = [] \<and> out_size e' = last_room m as)"
proof (cases "0 < last_room m as")
  case True
  obtain e' b' m' where "CodedOutputStream_Refresh e (s\<lparr>obuffer := b\<rparr>) m = Inr (True, e', s\<lparr>obuffer := b'\<rparr>, m')"
    "out_rep m' b' e' as F bs" "had_error e' = had_error e" "out_size e' = last_room m as" "frame m m' F" "keeps_off m m' as"
    "cell_bytes (cells m) (last as) \<noteq> [] \<longrightarrow> out_used m' e' as"
    using Refresh_room [OF rep bs True, of e s] by blast
  then show ?thesis using True by (intro exI [of _ e'] exI [of _ b'] exI [of _ m'] exI [of _ "[]"] conjI) simp_all
next
  case False
  then obtain e' b' m' a where "CodedOutputStream_Refresh e (s\<lparr>obuffer := b\<rparr>) m = Inr (True, e', s\<lparr>obuffer := b'\<rparr>, m')"
    "out_rep m' b' e' (as @ [a]) F bs" "had_error e' = had_error e" "out_size e' = kPieceCapacity" "frame m m' F" "keeps_off m m' as"
    using Refresh_full [OF rep bs, of e s] by blast
  then show ?thesis using False
    by (intro exI [of _ e'] exI [of _ b'] exI [of _ m'] exI [of _ "[a]"] conjI) (simp_all add: kPieceCapacity_def)
qed

text \<open>Writing into the open part of the last piece.\<close>

lemma piece_overwrite:
  assumes ok: "piece_ok c" and full: "unat (off c) + unat (len c) = kPieceCapacity"
    and n: "n \<le> unat (len c)" "length d \<le> n"
  defines "pos \<equiv> kPieceCapacity - n"
  defines "c' \<equiv> c\<lparr>data := take pos (data c) @ d @ drop (pos + length d) (data c)\<rparr>"
  shows "copy_in pos d c = Inr c'" and "piece_ok c'"
    and "\<exists>x. piece_bytes c = x @ drop pos (data c) \<and> piece_bytes c' = x @ d @ drop (pos + length d) (data c)"
proof -
  have l: "length (data c) = kPieceCapacity" using ok by (simp add: piece_ok_def)
  have o: "unat (off c) \<le> pos" using full n by (simp add: pos_def)
  have p: "pos + length d \<le> kPieceCapacity" using full n by (simp add: pos_def)
  show "copy_in pos d c = Inr c'" using l p by (simp add: copy_in_def c'_def)
  show "piece_ok c'" using ok l p by (simp add: piece_ok_def c'_def)
  have all: "piece_bytes e = drop (unat (off e)) (data e)"
    if "length (data e) = kPieceCapacity" "unat (off e) + unat (len e) = kPieceCapacity" for e
    using that by (simp add: piece_bytes_def)
  have "data c = take pos (data c) @ drop pos (data c)" by simp
  then have "piece_bytes c = drop (unat (off c)) (take pos (data c)) @ drop pos (data c)"
    using all [of c] l full o p by (metis append_take_drop_id drop_append length_take diff_is_0_eq drop0 min.absorb2 add_leD1)
  moreover have "piece_bytes c' = drop (unat (off c)) (take pos (data c)) @ d @ drop (pos + length d) (data c)"
    using all [of c'] l full o p by (simp add: c'_def)
  ultimately show "\<exists>x. piece_bytes c = x @ drop pos (data c) \<and> piece_bytes c' = x @ d @ drop (pos + length d) (data c)"
    by blast
qed

lemma out_write:
  assumes rep: "out_rep m b e as F bs" and d: "length d \<le> out_size e"
  shows "\<exists>m'. write_at (out_ptr e) d m = Inr m'
     \<and> out_rep m' b (CodedOutputStream_Advance (length d) e) as F (bs @ d)
     \<and> frame m m' F \<and> keeps_off m m' as
     \<and> (d \<noteq> [] \<or> out_used m e as \<longrightarrow> out_used m' (CodedOutputStream_Advance (length d) e) as)"
proof -
  obtain zs a c junk where as: "as = zs @ [a]" and ch: "bchain m b as F" and c: "cells m a = Some c"
    and full: "unat (off c) + unat (len c) = kPieceCapacity"
    and ptr: "out_ptr e = (Some a, kPieceCapacity - out_size e)" and junk: "length junk = out_size e"
    and le: "out_size e \<le> unat (len c)" and bytes: "chain_bytes (cells m) as = bs @ junk"
    and bl: "blength b = length bs + out_size e"
    using rep by (auto simp: out_rep_def)
  have ok: "piece_ok c" using bchain_cell [OF ch, of a] c as by auto
  define pos where "pos = kPieceCapacity - out_size e"
  define c' where "c' = c\<lparr>data := take pos (data c) @ d @ drop (pos + length d) (data c)\<rparr>"
  define m' where "m' = m\<lparr>cells := (cells m)(a \<mapsto> c')\<rparr>"
  note over = piece_overwrite [OF ok full le d, folded pos_def, folded c'_def]
  have run: "write_at (out_ptr e) d m = Inr m \<and> d = [] \<or> write_at (out_ptr e) d m = Inr m'"
    using c over(1) by (auto simp: write_at_def ptr mem_simps m'_def pos_def)
  have upd: "bchain m' b as F" "frame m m' F"
    using bchain_upd [OF ch, of a c c'] c as over(2) by (auto simp: c'_def m'_def)
  have nz: "a \<notin> set zs" using ch as by (auto dest: bchain_notin)
  have koff: "keeps_off m m' as" using c by (auto simp: keeps_off_def m'_def c'_def)
  from over(3) obtain x where x: "piece_bytes c = x @ drop pos (data c)"
    "piece_bytes c' = x @ d @ drop (pos + length d) (data c)" by blast
  have lj: "length (drop pos (data c)) = length junk"
    using ok full le junk by (simp add: pos_def piece_ok_def)
  have "bs = chain_bytes (cells m) zs @ x"
    using bytes as c x(1) lj by (auto simp: cell_bytes_def simp flip: append_assoc)
  then have bytes': "chain_bytes (cells m') as = (bs @ d) @ drop (pos + length d) (data c)"
    using as nz x(2) by (simp add: m'_def)
  have lj': "length (drop (pos + length d) (data c)) = out_size e - length d"
    using lj junk by simp
  have ptr': "out_ptr (CodedOutputStream_Advance (length d) e)
      = (Some a, kPieceCapacity - out_size (CodedOutputStream_Advance (length d) e))"
    using ptr d le full by (simp add: CodedOutputStream_Advance_def)
  have "out_rep m' b (CodedOutputStream_Advance (length d) e) as F (bs @ d)"
    unfolding out_rep_def
    using as upd(1) full ptr' lj' le bytes' bl d
    by (intro exI [of _ zs] exI [of _ a] exI [of _ c'] exI conjI)
      (simp_all add: m'_def c'_def CodedOutputStream_Advance_def)
  moreover have "d \<noteq> [] \<or> out_used m e as \<longrightarrow> out_used m' (CodedOutputStream_Advance (length d) e) as"
  proof
    assume "d \<noteq> [] \<or> out_used m e as"
    then have "d \<noteq> [] \<or> out_size e < unat (len c)" using as c by (simp add: out_used_def)
    then have "out_size e - length d < unat (len c)" using le d by (cases d) auto
    then show "out_used m' (CodedOutputStream_Advance (length d) e) as"
      using as by (simp add: out_used_def m'_def c'_def CodedOutputStream_Advance_def)
  qed
  moreover have "m = m'" if "d = []"
    using that c by (simp add: m'_def c'_def fun_upd_idem)
  ultimately show ?thesis using run upd(2) koff by auto
qed

lemma out_rep_full:
  "out_rep m b e as F bs \<Longrightarrow> out_size e = 0 \<Longrightarrow>
   bchain m b as F \<and> chain_bytes (cells m) as = bs \<and> blength b = length bs"
  by (auto simp: out_rep_def)

lemma WriteRaw_loop_ok:
  "out_rep m b e as F bs \<Longrightarrow> \<not> had_error e \<Longrightarrow> length d + (if out_size e = 0 then 1 else 0) < fuel \<Longrightarrow>
   \<exists>e' b' m' xs. CodedOutputStream_WriteRaw_loop fuel d e (s\<lparr>obuffer := b\<rparr>) m = Inr (e', s\<lparr>obuffer := b'\<rparr>, m')
     \<and> out_rep m' b' e' (as @ xs) F (bs @ d) \<and> \<not> had_error e' \<and> frame m m' F \<and> keeps_off m m' as
     \<and> (d \<noteq> [] \<or> out_used m e as \<longrightarrow> out_used m' e' (as @ xs))"
proof (induction fuel arbitrary: m b e as bs d)
  case 0
  then show ?case by simp
next
  case (Suc fuel)
  let ?adv = "CodedOutputStream_Advance"
  show ?case
  proof (cases "out_size e < length d")
    case False
    then obtain m' where w: "write_at (out_ptr e) d m = Inr m'" "out_rep m' b (?adv (length d) e) as F (bs @ d)"
      "frame m m' F" "keeps_off m m' as" "d \<noteq> [] \<or> out_used m e as \<longrightarrow> out_used m' (?adv (length d) e) as"
      using out_write [OF Suc.prems(1), of d] by auto
    moreover have "\<not> had_error (?adv (length d) e)"
      using Suc.prems(2) by (simp add: CodedOutputStream_Advance_def)
    ultimately show ?thesis using False
      by (intro exI [of _ "?adv (length d) e"] exI [of _ b] exI [of _ m'] exI [of _ "[]"]) simp
  next
    case True
    let ?d1 = "take (out_size e) d" and ?d2 = "drop (out_size e) d"
    have l1: "length ?d1 = out_size e" using True by simp
    obtain m1 where w: "write_at (out_ptr e) ?d1 m = Inr m1" "out_rep m1 b (?adv (length ?d1) e) as F (bs @ ?d1)"
      "frame m m1 F" "keeps_off m m1 as"
      using out_write [OF Suc.prems(1), of ?d1] by auto
    have "out_size (?adv (length ?d1) e) = 0" using l1 by (simp add: CodedOutputStream_Advance_def)
    with w(2) have full: "bchain m1 b as F" "chain_bytes (cells m1) as = bs @ ?d1" "blength b = length (bs @ ?d1)"
      using out_rep_full by blast+
    from Refresh_ok [OF full, of e s] obtain e1 b1 m2 xs where r:
      "CodedOutputStream_Refresh e (s\<lparr>obuffer := b\<rparr>) m1 = Inr (True, e1, s\<lparr>obuffer := b1\<rparr>, m2)"
      "out_rep m2 b1 e1 (as @ xs) F (bs @ ?d1)" "had_error e1 = had_error e" "0 < out_size e1"
      "frame m1 m2 F" "keeps_off m1 m2 as"
      by (elim exE conjE) (rule that)
    have fuel: "length ?d2 + (if out_size e1 = 0 then 1 else 0) < fuel"
      using Suc.prems(3) True r(4) by (auto split: if_splits)
    obtain e' b' m' ys where ih:
      "CodedOutputStream_WriteRaw_loop fuel ?d2 e1 (s\<lparr>obuffer := b1\<rparr>) m2 = Inr (e', s\<lparr>obuffer := b'\<rparr>, m')"
      "out_rep m' b' e' ((as @ xs) @ ys) F ((bs @ ?d1) @ ?d2)" "\<not> had_error e'" "frame m2 m' F"
      "keeps_off m2 m' (as @ xs)" "?d2 \<noteq> [] \<longrightarrow> out_used m' e' ((as @ xs) @ ys)"
      using Suc.IH [OF r(2) _ fuel] r(3) Suc.prems(2) by blast
    have "CodedOutputStream_WriteRaw_loop (Suc fuel) d e (s\<lparr>obuffer := b\<rparr>) m = Inr (e', s\<lparr>obuffer := b'\<rparr>, m')"
      using True w(1) r(1) ih(1) by simp
    moreover have "frame m m' F" using w(3) r(5) ih(4) by (blast intro: frame_trans)
    moreover have "keeps_off m m' as" using w(4) r(6) ih(5) by (auto intro: keeps_off_trans)
    ultimately show ?thesis using ih(2,3,6) True
      by (intro exI [of _ e'] exI [of _ b'] exI [of _ m'] exI [of _ "xs @ ys"]) simp
  qed
qed

lemma WriteRaw_ok:
  assumes "out_rep m b e as F bs" and "\<not> had_error e"
  shows "\<exists>e' b' m' xs. CodedOutputStream_WriteRaw d e (s\<lparr>obuffer := b\<rparr>) m = Inr (e', s\<lparr>obuffer := b'\<rparr>, m')
     \<and> out_rep m' b' e' (as @ xs) F (bs @ d) \<and> \<not> had_error e' \<and> frame m m' F \<and> keeps_off m m' as
     \<and> (d \<noteq> [] \<or> out_used m e as \<longrightarrow> out_used m' e' (as @ xs))"
  unfolding CodedOutputStream_WriteRaw_def by (rule WriteRaw_loop_ok [OF assms]) simp

lemma SerializeWithCachedSizes_ok:
  "out_rep m b e as F bs \<Longrightarrow> \<not> had_error e \<Longrightarrow>
   \<exists>e' b' m' xs. SerializeWithCachedSizes ws e (s\<lparr>obuffer := b\<rparr>) m = Inr (e', s\<lparr>obuffer := b'\<rparr>, m')
     \<and> out_rep m' b' e' (as @ xs) F (bs @ concat ws) \<and> \<not> had_error e' \<and> frame m m' F \<and> keeps_off m m' as
     \<and> (concat ws \<noteq> [] \<or> out_used m e as \<longrightarrow> out_used m' e' (as @ xs))"
proof (induction ws arbitrary: m b e as bs)
  case Nil
  then show ?case by (intro exI [of _ e] exI [of _ b] exI [of _ m] exI [of _ "[]"]) (simp add: keeps_off_def)
next
  case (Cons w ws)
  obtain e1 b1 m1 xs where w: "CodedOutputStream_WriteRaw w e (s\<lparr>obuffer := b\<rparr>) m = Inr (e1, s\<lparr>obuffer := b1\<rparr>, m1)"
    "out_rep m1 b1 e1 (as @ xs) F (bs @ w)" "\<not> had_error e1" "frame m m1 F" "keeps_off m m1 as"
    "w \<noteq> [] \<or> out_used m e as \<longrightarrow> out_used m1 e1 (as @ xs)"
    using WriteRaw_ok [OF Cons.prems] by blast
  obtain e' b' m' ys where ih:
    "SerializeWithCachedSizes ws e1 (s\<lparr>obuffer := b1\<rparr>) m1 = Inr (e', s\<lparr>obuffer := b'\<rparr>, m')"
    "out_rep m' b' e' ((as @ xs) @ ys) F ((bs @ w) @ concat ws)" "\<not> had_error e'" "frame m1 m' F"
    "keeps_off m1 m' (as @ xs)" "concat ws \<noteq> [] \<or> out_used m1 e1 (as @ xs) \<longrightarrow> out_used m' e' ((as @ xs) @ ys)"
    using Cons.IH [OF w(2,3)] by blast
  have "concat (w # ws) \<noteq> [] \<or> out_used m e as \<longrightarrow> out_used m' e' (as @ xs @ ys)"
    using w(6) ih(6) by auto
  moreover have "keeps_off m m' as" using w(5) ih(5) by (auto intro: keeps_off_trans)
  ultimately show ?case using w(1) ih(1-3) frame_trans [OF w(4) ih(4)]
    by (intro exI [of _ e'] exI [of _ b'] exI [of _ m'] exI [of _ "xs @ ys"]) simp
qed

lemma Trim_ok:
  assumes rep: "out_rep m b e as F bs" and used: "out_used m e as"
  shows "\<exists>e' b' m'. CodedOutputStream_Trim e (s\<lparr>obuffer := b\<rparr>) m = Inr (e', s\<lparr>obuffer := b'\<rparr>, m')
     \<and> bchain m' b' as F \<and> chain_bytes (cells m') as = bs \<and> blength b' = length bs
     \<and> frame m m' F \<and> keeps_off m m' as"
proof (cases "out_size e = 0")
  case True
  then show ?thesis using out_rep_full [OF rep]
    by (intro exI [of _ e] exI [of _ b] exI [of _ m]) (simp add: CodedOutputStream_Trim_def keeps_off_def)
next
  case False
  obtain zs a c junk where as: "as = zs @ [a]" and ch: "bchain m b as F" and c: "cells m a = Some c"
    and junk: "length junk = out_size e" and bytes: "chain_bytes (cells m) as = bs @ junk"
    and bl: "blength b = length bs + out_size e"
    using rep by (auto simp: out_rep_def)
  have ok: "piece_ok c" using bchain_cell [OF ch, of a] c as by auto
  have lt: "out_size e < unat (len c)" using used as c by (simp add: out_used_def)
  define c' where "c' = c\<lparr>len := len c - word_of_nat (out_size e)\<rparr>"
  define m' where "m' = m\<lparr>cells := (cells m)(a \<mapsto> c')\<rparr>"
  have l: "unat (len c') = unat (len c) - out_size e" using lt by (simp add: c'_def)
  then have ok': "piece_ok c'" using ok by (auto simp: piece_ok_def c'_def)
  have pb: "piece_bytes c' = take (unat (len c) - out_size e) (piece_bytes c)"
    using l by (simp add: piece_bytes_def c'_def)
  have upd: "bchain m' b as F" "frame m m' F"
    using bchain_upd [OF ch, of a c c'] c as ok' by (auto simp: c'_def m'_def)
  have nz: "a \<notin> set zs" using ch as by (auto dest: bchain_notin)
  let ?all = "chain_bytes (cells m) as"
  have all: "?all = chain_bytes (cells m) zs @ piece_bytes c" using as c by (simp add: cell_bytes_def)
  then have "chain_bytes (cells m') as = take (length ?all - out_size e) ?all"
    using as nz pb lt ok by (simp add: m'_def)
  then have "chain_bytes (cells m') as = take (length (bs @ junk) - out_size e) (bs @ junk)"
    by (simp only: bytes)
  then have bs: "chain_bytes (cells m') as = bs" using junk by simp
  have q: "Queue_back b = Some a" using Queue_back_bchain [OF ch] as by simp
  have "CodedOutputStream_Trim e (s\<lparr>obuffer := b\<rparr>) m
      = Inr (e\<lparr>out_ptr := (None, 0), out_size := 0\<rparr>, s\<lparr>obuffer := b\<lparr>blength := blength b - out_size e\<rparr>\<rparr>, m')"
    using False lt c q by (simp add: CodedOutputStream_Trim_def BufferOutputStream_BackUp_def
        FlatOutputBuffer_flatBackUp_def mem_simps m'_def c'_def)
  moreover have "keeps_off m m' as" using c by (auto simp: keeps_off_def m'_def c'_def)
  ultimately show ?thesis using upd bs bl by auto
qed

lemma SerializePartial_ok:
  assumes rep: "out_rep m b e as F bs" and err: "\<not> had_error e" and size: "length (concat ws) \<le> 2147483647"
  shows "\<exists>e' b' m' xs. SerializePartialToCodedStream ws e (s\<lparr>obuffer := b\<rparr>) m = Inr (True, e', s\<lparr>obuffer := b'\<rparr>, m')
     \<and> out_rep m' b' e' (as @ xs) F (bs @ concat ws) \<and> frame m m' F \<and> keeps_off m m' as
     \<and> (concat ws \<noteq> [] \<or> out_used m e as \<longrightarrow> out_used m' e' (as @ xs))
     \<and> (length (concat ws) \<le> out_size e \<longrightarrow> xs = [])"
proof (cases "length (concat ws) \<le> out_size e")
  case True
  let ?e = "CodedOutputStream_Advance (length (concat ws)) e"
  obtain m' where "write_at (out_ptr e) (concat ws) m = Inr m'" "out_rep m' b ?e as F (bs @ concat ws)"
    "frame m m' F" "keeps_off m m' as" "concat ws \<noteq> [] \<or> out_used m e as \<longrightarrow> out_used m' ?e as"
    using out_write [OF rep True] by blast
  then show ?thesis using True size
    by (intro exI [of _ ?e] exI [of _ b] exI [of _ m'] exI [of _ "[]"]) (simp add: SerializePartialToCodedStream_def)
next
  case False
  obtain e' b' m' xs where "SerializeWithCachedSizes ws e (s\<lparr>obuffer := b\<rparr>) m = Inr (e', s\<lparr>obuffer := b'\<rparr>, m')"
    "out_rep m' b' e' (as @ xs) F (bs @ concat ws)" "\<not> had_error e'" "frame m m' F" "keeps_off m m' as"
    "concat ws \<noteq> [] \<or> out_used m e as \<longrightarrow> out_used m' e' (as @ xs)"
    using SerializeWithCachedSizes_ok [OF rep err] by blast
  with False size show ?thesis
    by (intro exI [of _ e'] exI [of _ b'] exI [of _ m'] exI [of _ xs]) (simp add: SerializePartialToCodedStream_def)
qed

lemma SerializeToZeroCopyStream_ok:
  assumes rep: "bchain m b as F" and bs: "chain_bytes (cells m) as = bs" "blength b = length bs"
    and size: "length (concat ws) \<le> 2147483647"
    and some: "concat ws \<noteq> [] \<or> 0 < last_room m as \<and> cell_bytes (cells m) (last as) \<noteq> []"
  shows "\<exists>b' m' xs. SerializeToZeroCopyStream ws (s\<lparr>obuffer := b\<rparr>) m = Inr (True, s\<lparr>obuffer := b'\<rparr>, m')
     \<and> bchain m' b' (as @ xs) F \<and> chain_bytes (cells m') (as @ xs) = bs @ concat ws
     \<and> blength b' = length (bs @ concat ws) \<and> frame m m' F \<and> keeps_off m m' as
     \<and> (0 < last_room m as \<and> length (concat ws) \<le> last_room m as \<longrightarrow> xs = [])"
proof -
  let ?e0 = "\<lparr>out_ptr = (None, 0), out_size = 0, had_error = False\<rparr>"
  from Refresh_ok [OF rep bs, of ?e0 s] obtain e1 b1 m1 xs where r:
    "CodedOutputStream_Refresh ?e0 (s\<lparr>obuffer := b\<rparr>) m = Inr (True, e1, s\<lparr>obuffer := b1\<rparr>, m1)"
    "out_rep m1 b1 e1 (as @ xs) F bs" "had_error e1 = had_error ?e0" "frame m m1 F" "keeps_off m m1 as"
    "0 < last_room m as \<and> cell_bytes (cells m) (last as) \<noteq> [] \<longrightarrow> out_used m1 e1 (as @ xs)"
    "0 < last_room m as \<longrightarrow> xs = [] \<and> out_size e1 = last_room m as"
    by (elim exE conjE) (rule that)
  have err: "\<not> had_error e1" using r(3) by simp
  then have e1: "e1\<lparr>had_error := False\<rparr> = e1" by (cases e1) simp
  obtain e2 b2 m2 ys where p:
    "SerializePartialToCodedStream ws e1 (s\<lparr>obuffer := b1\<rparr>) m1 = Inr (True, e2, s\<lparr>obuffer := b2\<rparr>, m2)"
    "out_rep m2 b2 e2 ((as @ xs) @ ys) F (bs @ concat ws)" "frame m1 m2 F" "keeps_off m1 m2 (as @ xs)"
    "concat ws \<noteq> [] \<or> out_used m1 e1 (as @ xs) \<longrightarrow> out_used m2 e2 ((as @ xs) @ ys)"
    "length (concat ws) \<le> out_size e1 \<longrightarrow> ys = []"
    using SerializePartial_ok [OF r(2) err size] by blast
  have "out_used m2 e2 ((as @ xs) @ ys)" using some r(6) p(5) by blast
  from Trim_ok [OF p(2) this, of s] obtain e3 b3 m3 where t:
    "CodedOutputStream_Trim e2 (s\<lparr>obuffer := b2\<rparr>) m2 = Inr (e3, s\<lparr>obuffer := b3\<rparr>, m3)"
    "bchain m3 b3 ((as @ xs) @ ys) F" "chain_bytes (cells m3) ((as @ xs) @ ys) = bs @ concat ws"
    "blength b3 = length (bs @ concat ws)" "frame m2 m3 F" "keeps_off m2 m3 ((as @ xs) @ ys)"
    by blast
  have "SerializeToZeroCopyStream ws (s\<lparr>obuffer := b\<rparr>) m = Inr (True, s\<lparr>obuffer := b3\<rparr>, m3)"
    using r(1) e1 p(1) t(1) by (simp add: SerializeToZeroCopyStream_def CodedOutputStream_new_def)
  moreover have "frame m m3 F" using r(4) p(3) t(5) by (blast intro: frame_trans)
  moreover have "keeps_off m m3 as" using r(5) p(4) t(6) by (auto intro: keeps_off_trans)
  ultimately show ?thesis using t(2-4) r(7) p(6)
    by (intro exI [of _ b3] exI [of _ m3] exI [of _ "xs @ ys"]) simp
qed

lemma Buffer_write_one:
  assumes "holds_one m b bs F r" and "r + length bs < kPieceCapacity" and "r + length bs + length d \<le> kPieceCapacity"
  shows "\<exists>b' m'. Buffer_write d b m = Inr (b', m') \<and> holds_one m' b' (bs @ d) F r \<and> frame m m' F"
proof -
  obtain a c where a: "bchain m b [a] F" "cells m a = Some c" "unat (off c) = r" "piece_bytes c = bs" "blength b = length bs"
    using assms(1) by (auto simp: holds_one_def)
  have ok: "piece_ok c" using bchain_cell [OF a(1), of a] a(2) by auto
  then have room: "last_room m [a] = kPieceCapacity - r - length bs"
    using a by (auto simp: last_room_def)
  obtain b' m' ys where w: "Buffer_write d b m = Inr (b', m')" "bchain m' b' ([a] @ ys) F"
    "chunks m' ([a] @ ys) = write_chunks (chunks m [a]) (last_room m [a]) d"
    "blength b' = blength b + length d" "frame m m' F" "keeps_off m m' [a]"
    using Buffer_write_ok [OF a(1)] by blast
  have "write_chunks (chunks m [a]) (last_room m [a]) d = [bs @ d]"
    using assms(2,3) room a by (auto simp: write_chunks_def chunks_def fill_def cell_bytes_def)
  with w(3) have one: "ys = []" "cell_bytes (cells m') a = bs @ d" by (simp_all add: chunks_def)
  obtain c' where "cells m' a = Some c'" "unat (off c') = r"
    using w(6) a(2,3) by (auto simp: keeps_off_def)
  then show ?thesis using w one a(5) by (auto simp: holds_one_def cell_bytes_def)
qed

text \<open>The same on the abstraction, with the reserve in front of the buffer.\<close>

lemma SerializeToZeroCopyStream_reserve:
  assumes "holds_reserve m b bs F r" and "bs \<noteq> []" and size: "length (concat ws) \<le> 2147483647"
    and some: "concat ws \<noteq> [] \<or> holds_one m b bs F r \<and> r + length bs < kPieceCapacity"
  shows "\<exists>s' m'. SerializeToZeroCopyStream ws (BufferOutputStream_new b) m = Inr (True, s', m')
     \<and> holds_reserve m' (obuffer s') (bs @ concat ws) F r \<and> frame m m' F"
proof -
  let ?s = "BufferOutputStream_new b"
  have s: "?s = ?s\<lparr>obuffer := b\<rparr>" by (simp add: BufferOutputStream_new_def)
  obtain a as c where h: "bchain m b (a # as) F" "chain_bytes (cells m) (a # as) = bs" "blength b = length bs"
    "cells m a = Some c" "unat (off c) = r"
    using assms(1) by (auto simp: holds_reserve_def)
  have ok: "piece_ok c" using bchain_cell [OF h(1), of a] h(4) by auto
  have some': "concat ws \<noteq> [] \<or> 0 < last_room m (a # as) \<and> cell_bytes (cells m) (last (a # as)) \<noteq> []"
  proof (rule disjE [OF some])
    assume "holds_one m b bs F r \<and> r + length bs < kPieceCapacity"
    then obtain x d where d: "bchain m b [x] F" "cells m x = Some d" "unat (off d) = r" "piece_bytes d = bs"
      "r + length bs < kPieceCapacity"
      by (auto simp: holds_one_def)
    then have "a # as = [x]" using h(1) by (auto simp: bchain_def queue_rep_def dest: chain_unique)
    moreover have "piece_ok d" using bchain_cell [OF d(1), of x] d(2) by auto
    ultimately show ?thesis using d assms(2) by (auto simp: last_room_def cell_bytes_def)
  qed blast
  from SerializeToZeroCopyStream_ok [OF h(1-3) size some', of ?s] obtain b' m' xs where
    "SerializeToZeroCopyStream ws ?s m = Inr (True, ?s\<lparr>obuffer := b'\<rparr>, m')"
    "bchain m' b' ((a # as) @ xs) F" "chain_bytes (cells m') ((a # as) @ xs) = bs @ concat ws"
    "blength b' = length (bs @ concat ws)" "frame m m' F" "keeps_off m m' (a # as)"
    unfolding s [symmetric] by blast
  moreover from this h(4,5) obtain c' where "cells m' a = Some c'" "unat (off c') = r"
    by (auto simp: keeps_off_def)
  ultimately show ?thesis unfolding holds_reserve_def
    by (intro exI [of _ "?s\<lparr>obuffer := b'\<rparr>"] exI [of _ m'] conjI exI [of _ a] exI [of _ "as @ xs"] exI [of _ c']) simp_all
qed

text \<open>A message that fits into the only piece of the buffer stays in it.\<close>

lemma SerializeToZeroCopyStream_one:
  assumes "holds_one m b bs F r" and "bs \<noteq> []" and room: "r + length bs < kPieceCapacity"
    and fits: "r + length bs + length (concat ws) \<le> kPieceCapacity"
  shows "\<exists>s' m'. SerializeToZeroCopyStream ws (BufferOutputStream_new b) m = Inr (True, s', m')
     \<and> holds_one m' (obuffer s') (bs @ concat ws) F r \<and> frame m m' F"
proof -
  let ?s = "BufferOutputStream_new b"
  have s: "?s = ?s\<lparr>obuffer := b\<rparr>" by (simp add: BufferOutputStream_new_def)
  obtain a c where a: "bchain m b [a] F" "cells m a = Some c" "unat (off c) = r" "piece_bytes c = bs" "blength b = length bs"
    using assms(1) by (auto simp: holds_one_def)
  have "piece_ok c" using bchain_cell [OF a(1), of a] a(2) by auto
  then have lr: "last_room m [a] = kPieceCapacity - r - length bs" using a by (auto simp: last_room_def)
  have "0 < last_room m [a] \<and> cell_bytes (cells m) (last [a]) \<noteq> []" "chain_bytes (cells m) [a] = bs"
    using a lr room assms(2) by (simp_all add: cell_bytes_def)
  moreover have "length (concat ws) \<le> 2147483647" using fits by (simp add: kPieceCapacity_def)
  ultimately obtain b' m' xs where "SerializeToZeroCopyStream ws ?s m = Inr (True, ?s\<lparr>obuffer := b'\<rparr>, m')"
    "bchain m' b' ([a] @ xs) F" "chain_bytes (cells m') ([a] @ xs) = bs @ concat ws"
    "blength b' = length (bs @ concat ws)" "frame m m' F" "keeps_off m m' [a]" "xs = []"
    using SerializeToZeroCopyStream_ok [OF a(1) _ a(5), of ws ?s] lr fits room unfolding s [symmetric] by auto
  moreover from this a(2,3) obtain c' where "cells m' a = Some c'" "unat (off c') = r"
    by (auto simp: keeps_off_def)
  ultimately show ?thesis
    by (intro exI [of _ "?s\<lparr>obuffer := b'\<rparr>"] exI [of _ m']) (auto simp: holds_one_def cell_bytes_def)
qed

section \<open>Reading chunk by chunk\<close>

text \<open>
  The state of an input stream: the chunk handed out last, which \<open>drop_\<close> keeps alive, and the
  chunks still in the buffer.
\<close>

definition held_piece :: "istream \<Rightarrow> addr set" where
  "held_piece s = set_option (drop_piece s)"

definition in_rep :: "mem \<Rightarrow> istream \<Rightarrow> byte list \<Rightarrow> byte list list \<Rightarrow> addr set \<Rightarrow> bool" where
  "in_rep m s cur css F \<longleftrightarrow> (\<exists>as. bchain m (ibuffer s) as (held_piece s \<union> F) \<and> chunks m as = css
     \<and> blength (ibuffer s) = length (concat css)
     \<and> (case drop_piece s of None \<Rightarrow> cur = [] | Some d \<Rightarrow> d \<notin> F \<and> cell_ok (cells m) d \<and> cell_bytes (cells m) d = cur))"

text \<open>What a reader does with a list of chunks: the result, the bytes left of the last chunk and the chunks left.\<close>

primrec feed :: "'r reader \<Rightarrow> byte list \<Rightarrow> byte list list \<Rightarrow> 'r \<times> byte list \<times> byte list list" where
  "feed (Done n r) cur css = (r, drop (length cur - n) cur, css)"
| "feed (More k) cur css = (case css of [] \<Rightarrow> feed (k None) [] [] | c # cs \<Rightarrow> feed (k (Some c)) c cs)"

text \<open>The reader never backs up a whole chunk, nor any part of the last chunk of the buffer.\<close>

primrec tame :: "'r reader \<Rightarrow> byte list \<Rightarrow> byte list list \<Rightarrow> bool" where
  "tame (Done n r) cur css = (n = 0 \<or> n < length cur \<and> css \<noteq> [])"
| "tame (More k) cur css = (case css of [] \<Rightarrow> tame (k None) [] [] | c # cs \<Rightarrow> tame (k (Some c)) c cs)"

lemma in_rep_new: "bchain m b as F \<Longrightarrow> blength b = length (chain_bytes (cells m) as) \<Longrightarrow>
    in_rep m (BufferInputStream_new b) [] (chunks m as) F"
  by (auto simp: in_rep_def BufferInputStream_new_def held_piece_def concat_chunks)

lemma in_rep_delete:
  assumes "in_rep m s cur css F"
  shows "\<exists>m'. BufferInputStream_delete s m = Inr m' \<and> in_rep m' (s\<lparr>drop_piece := None\<rparr>) [] css F \<and> frame m m' F"
proof (cases "drop_piece s")
  case None
  then show ?thesis using assms by (auto simp: BufferInputStream_delete_def in_rep_def held_piece_def)
next
  case (Some d)
  then obtain as where a: "bchain m (ibuffer s) as (insert d F)" "chunks m as = css" "d \<notin> F"
    "blength (ibuffer s) = length (concat css)"
    using assms by (auto simp: in_rep_def held_piece_def)
  then have "mem_inv m (insert d (set as \<union> F))" "d \<notin> set as \<union> F" by (auto simp: bchain_def)
  then obtain m' where m': "deletePiece (Some d) m = Inr m'" "mem_inv m' (set as \<union> F)" "frame m m' (set as \<union> F)"
    using deletePiece_ok by blast
  have "set as \<inter> F = {}" using a(1) by (auto simp: bchain_def)
  then have "bchain m' (ibuffer s) as F" "chunks m' as = chunks m as"
    using bchain_frame [OF a(1) frame_mono [OF m'(3)] m'(2)] by auto
  moreover have "frame m m' F" using m'(3) by (auto intro: frame_mono)
  ultimately show ?thesis using a m' Some
    by (auto simp: BufferInputStream_delete_def in_rep_def held_piece_def)
qed

lemma BufferInputStream_Next_alt:
  "BufferInputStream_Next s m = rbind (BufferInputStream_delete s m) (\<lambda>m1.
     rbind (FlatInputBuffer_flatNext None (ibuffer s) m1) (\<lambda>(bs, d, b).
     Inr (bs, s\<lparr>ibuffer := b, drop_piece := d\<rparr>, m1)))"
  by (cases "drop_piece s") (simp_all add: BufferInputStream_Next_def BufferInputStream_delete_def rbind_assoc)

lemma Next_chunk:
  assumes rep: "in_rep m s cur (c # css) F" and ne: "c \<noteq> []"
  shows "\<exists>s' m'. BufferInputStream_Next s m = Inr (Some c, s', m') \<and> in_rep m' s' c css F \<and> frame m m' F
     \<and> drop_piece s' \<noteq> None"
proof -
  obtain m1 where d: "BufferInputStream_delete s m = Inr m1" "in_rep m1 (s\<lparr>drop_piece := None\<rparr>) [] (c # css) F" "frame m m1 F"
    using in_rep_delete [OF rep] by blast
  then obtain a as where a: "bchain m1 (ibuffer s) (a # as) F" "cell_bytes (cells m1) a = c" "chunks m1 as = css"
    "blength (ibuffer s) = length (c @ concat css)"
    by (auto simp: in_rep_def held_piece_def chunks_def)
  obtain p where p: "cells m1 a = Some p" "piece_ok p" using bchain_cell [OF a(1)] by auto
  then have pc: "piece_bytes p = c" "unat (len p) = length c"
    using a(2) by (auto simp: cell_bytes_def)
  let ?b = "(ibuffer s)\<lparr>blength := blength (ibuffer s) - unat (len p)\<rparr>"
  obtain b' where b': "mpop ?b m1 = Inr (Some a, b')" "bchain m1 b' as (insert a F)" "blength b' = blength ?b"
    using bchain_pop [of m1 ?b a as F] a(1) by auto
  have "copy_out p (unat (off p)) (unat (len p)) = Inr c"
    using p(2) pc(1) by (auto simp: mem_simps piece_ok_def piece_bytes_def)
  then have "FlatInputBuffer_flatNext None (ibuffer s) m1 = Inr (Some c, Some a, b')"
    using Queue_front_bchain [OF a(1)] p(1) b'(1) pc(2) ne
    by (simp add: FlatInputBuffer_flatNext_def mem_simps)
  then have "BufferInputStream_Next s m = Inr (Some c, s\<lparr>ibuffer := b', drop_piece := Some a\<rparr>, m1)"
    using d(1) by (simp add: BufferInputStream_Next_alt)
  moreover have "a \<notin> F" using a(1) by (auto simp: bchain_def)
  ultimately show ?thesis using a b' p pc d(3)
    by (auto simp: in_rep_def held_piece_def cell_ok_iff)
qed

lemma Next_stop:
  assumes rep: "in_rep m s cur css F" and stop: "css = [] \<or> hd css = []"
  shows "\<exists>s' m'. BufferInputStream_Next s m = Inr (None, s', m') \<and> in_rep m' s' [] css F \<and> frame m m' F"
proof -
  obtain m1 where d: "BufferInputStream_delete s m = Inr m1" "in_rep m1 (s\<lparr>drop_piece := None\<rparr>) [] css F" "frame m m1 F"
    using in_rep_delete [OF rep] by blast
  then obtain as where a: "bchain m1 (ibuffer s) as F" "chunks m1 as = css"
    by (auto simp: in_rep_def held_piece_def)
  have "FlatInputBuffer_flatNext None (ibuffer s) m1 = Inr (None, None, ibuffer s)"
  proof (cases as)
    case Nil
    then show ?thesis using Queue_front_bchain [OF a(1)] by (simp add: FlatInputBuffer_flatNext_def)
  next
    case (Cons x xs)
    obtain p where p: "cells m1 x = Some p" "piece_ok p" using bchain_cell [OF a(1)] Cons by auto
    then have "piece_bytes p = []" using stop a(2) Cons by (auto simp: chunks_def cell_bytes_def)
    then have "unat (len p) = 0" using length_piece_bytes [OF p(2)] by (simp only: list.size)
    then show ?thesis using Queue_front_bchain [OF a(1)] Cons p(1)
      by (simp add: FlatInputBuffer_flatNext_def mem_simps)
  qed
  then have "BufferInputStream_Next s m = Inr (None, s\<lparr>ibuffer := ibuffer s, drop_piece := None\<rparr>, m1)"
    using d(1) by (simp add: BufferInputStream_Next_alt)
  then show ?thesis using d by fastforce
qed

text \<open>The piece that is put back: its window shrinks to the last \<open>n\<close> bytes.\<close>

lemma backed_up_piece:
  assumes c: "piece_ok c" "piece_bytes c = cur" and n: "n < length cur"
    and c'_def: "c' = c\<lparr>off := off c + (len c - word_of_nat n), len := word_of_nat n, nxt := x\<rparr>"
  shows "piece_ok c'" and "piece_bytes c' = drop (length cur - n) cur"
proof -
  have l: "unat (len c) = length cur" using length_piece_bytes [OF c(1)] c(2) by simp
  have cap: "unat (off c) + unat (len c) \<le> 4096" "length (data c) = 4096"
    using c(1) by (auto simp: piece_ok_def kPieceCapacity_def)
  have sub: "len c - word_of_nat n = word_of_nat (length cur - n)"
    using n l cap by (simp add: word_unat_eq_iff)
  have c'f: "unat (len c') = n" "unat (off c') = unat (off c) + (length cur - n)"
    using n l cap by (simp_all add: c'_def sub del: of_nat_diff)
  show "piece_ok c'" using c'f l cap n by (simp add: piece_ok_def kPieceCapacity_def c'_def)
  have "drop (length cur - n) cur = take n (drop (unat (off c) + (length cur - n)) (data c))"
    using n by (subst c(2) [symmetric]) (simp add: piece_bytes_def l drop_take add.commute)
  then show "piece_bytes c' = drop (length cur - n) cur" using c'f by (simp add: piece_bytes_def c'_def)
qed

lemma BackUp_ok:
  assumes rep: "in_rep m s cur css F" and held: "drop_piece s = Some d"
    and n: "0 < n" "n < length cur" and more: "css \<noteq> []"
  shows "\<exists>s' m'. BufferInputStream_BackUp n s m = Inr (s', m')
     \<and> in_rep m' s' [] (drop (length cur - n) cur # css) F \<and> frame m m' F"
proof -
  obtain as where a: "bchain m (ibuffer s) as (insert d F)" "chunks m as = css" "d \<notin> F"
    "blength (ibuffer s) = length (concat css)" "cell_ok (cells m) d" "cell_bytes (cells m) d = cur"
    using rep held by (auto simp: in_rep_def held_piece_def)
  then obtain c where c: "cells m d = Some c" "piece_ok c" "piece_bytes c = cur" "unat (len c) = length cur"
    by (auto simp: cell_ok_iff cell_bytes_def)
  have ne: "as \<noteq> []" and dn: "d \<notin> set as" using more a(1,2) by (auto simp: chunks_def bchain_def)
  let ?b = "ibuffer s"
  define c' where "c' = c\<lparr>off := off c + (len c - word_of_nat n), len := word_of_nat n, nxt := qhead ?b\<rparr>"
  define m' where "m' = m\<lparr>cells := (cells m)(d \<mapsto> c')\<rparr>"
  define b' where "b' = ?b\<lparr>qhead := Some d, qsize := qsize ?b + 1, blength := blength ?b + n\<rparr>"
  have ok': "piece_ok c'" and bytes': "piece_bytes c' = drop (length cur - n) cur"
    using backed_up_piece [OF c(2,3) n(2) c'_def] by simp_all
  have run: "BufferInputStream_BackUp n s m = Inr (s\<lparr>ibuffer := b', drop_piece := None\<rparr>, m')"
    using held c(1,4) n by (simp add: BufferInputStream_BackUp_def FlatInputBuffer_flatBackUp_def
        mem_simps m'_def b'_def c'_def)
  have q: "queue_rep (cells m) ?b as" using a(1) by (simp add: bchain_def)
  then have "queue_rep (cells m') ?b as" using dn by (simp add: m'_def)
  then have "queue_rep (cells m') b' (d # as)"
    using ne by (auto simp: queue_rep_def b'_def m'_def c'_def)
  moreover have "mem_inv m' (insert d (set as \<union> F))"
    using a(1) c(2) unfolding m'_def
    by (intro mem_inv_upd) (auto simp: bchain_def c'_def piece_ok_def)
  ultimately have "bchain m' b' (d # as) F"
    using a(1,3) ok' dn by (auto simp: bchain_def m'_def)
  moreover have "chunks m' (d # as) = drop (length cur - n) cur # css"
    using a(2) dn bytes' by (auto simp: chunks_def m'_def)
  moreover have "blength b' = length (concat (drop (length cur - n) cur # css))"
    using a(4) n by (simp add: b'_def)
  moreover have "frame m m' F" using a(3) by (auto simp: frame_def m'_def)
  ultimately show ?thesis using run
    by (intro exI [of _ "s\<lparr>ibuffer := b', drop_piece := None\<rparr>"] exI [of _ m'])
      (auto simp: in_rep_def held_piece_def)
qed

lemma run_reader_ok:
  "in_rep m s cur css F \<Longrightarrow> (cur = [] \<or> drop_piece s \<noteq> None) \<Longrightarrow> \<forall>c \<in> set css. c \<noteq> [] \<Longrightarrow> tame r cur css \<Longrightarrow>
   feed r cur css = (x, left, rest) \<Longrightarrow>
   \<exists>s' m' cur'. run_reader r s m = Inr (x, s', m')
     \<and> in_rep m' s' cur' (if left = [] then rest else left # rest) F \<and> frame m m' F"
proof (induction r arbitrary: m s cur css)
  case (Done n r)
  show ?case
  proof (cases "n = 0")
    case True
    then show ?thesis using Done.prems by auto
  next
    case False
    with Done.prems(4) have n: "0 < n" "n < length cur" "css \<noteq> []" by auto
    then obtain d where "drop_piece s = Some d" using Done.prems(2) by auto
    from BackUp_ok [OF Done.prems(1) this n] n Done.prems(5) show ?thesis
      by fastforce
  qed
next
  case (More k)
  show ?case
  proof (cases css)
    case Nil
    then obtain s1 m1 where n: "BufferInputStream_Next s m = Inr (None, s1, m1)" "in_rep m1 s1 [] [] F" "frame m m1 F"
      using Next_stop [OF More.prems(1)] by blast
    have "\<exists>s' m' cur'. run_reader (k None) s1 m1 = Inr (x, s', m')
      \<and> in_rep m' s' cur' (if left = [] then rest else left # rest) F \<and> frame m1 m' F"
      using More.prems(4,5) Nil by (intro More.IH [OF _ n(2)]) auto
    then show ?thesis using n(1,3) by (auto intro: frame_trans)
  next
    case (Cons c cs)
    then have "c \<noteq> []" using More.prems(3) by simp
    then obtain s1 m1 where n: "BufferInputStream_Next s m = Inr (Some c, s1, m1)" "in_rep m1 s1 c cs F" "frame m m1 F"
      "drop_piece s1 \<noteq> None"
      using Next_chunk More.prems(1) Cons by blast
    have "\<exists>s' m' cur'. run_reader (k (Some c)) s1 m1 = Inr (x, s', m')
      \<and> in_rep m' s' cur' (if left = [] then rest else left # rest) F \<and> frame m1 m' F"
      using More.prems(3-5) Cons n(4) by (intro More.IH [OF _ n(2)]) auto
    then show ?thesis using n(1,3) by (auto intro: frame_trans)
  qed
qed

section \<open>The stream errors\<close>

text \<open>
  A buffer whose queue has a head and no tail: what backing up into a queue that \<open>Next\<close> has
  emptied leaves. Its one piece carries \<open>bs\<close> and is nobody else's.
\<close>

definition tailless :: "mem \<Rightarrow> buffer \<Rightarrow> byte list \<Rightarrow> addr set \<Rightarrow> bool" where
  "tailless m b bs F \<longleftrightarrow> qtail b = None \<and> blength b = length bs
     \<and> (case qhead b of None \<Rightarrow> False | Some a \<Rightarrow> a \<notin> F \<and> cell_ok (cells m) a \<and> cell_bytes (cells m) a = bs)"

lemma flatBackUp_lone_piece:
  assumes rep: "bchain m b [a] F" and bs: "cell_bytes (cells m) a = bs" "blength b = length bs"
    and n: "0 < n" "n < length bs"
  shows "\<exists>s1 m1 s2 m2. BufferInputStream_Next (BufferInputStream_new b) m = Inr (Some bs, s1, m1)
     \<and> BufferInputStream_BackUp n s1 m1 = Inr (s2, m2) \<and> drop_piece s2 = None
     \<and> tailless m2 (ibuffer s2) (drop (length bs - n) bs) F \<and> mem_inv m2 F \<and> frame m m2 F"
proof -
  have "in_rep m (BufferInputStream_new b) [] [bs] F"
    using in_rep_new [OF rep] bs by (simp add: chunks_def)
  then obtain s1 m1 where n1: "BufferInputStream_Next (BufferInputStream_new b) m = Inr (Some bs, s1, m1)"
    "in_rep m1 s1 bs [] F" "frame m m1 F" "drop_piece s1 \<noteq> None"
    using Next_chunk n(2) by (cases bs) (simp, blast)
  then obtain d where d: "drop_piece s1 = Some d" "bchain m1 (ibuffer s1) [] (insert d F)" "cell_ok (cells m1) d"
    "cell_bytes (cells m1) d = bs" "blength (ibuffer s1) = 0" "d \<notin> F"
    by (auto simp: in_rep_def held_piece_def chunks_def)
  obtain c where c: "cells m1 d = Some c" "piece_ok c" "piece_bytes c = bs" "unat (len c) = length bs"
    using d(3,4) by (auto simp: cell_ok_iff cell_bytes_def)
  let ?c = "c\<lparr>off := off c + (len c - word_of_nat n), len := word_of_nat n, nxt := qhead (ibuffer s1)\<rparr>"
  let ?m = "m1\<lparr>cells := (cells m1)(d \<mapsto> ?c)\<rparr>"
  have run: "BufferInputStream_BackUp n s1 m1
      = Inr (s1\<lparr>ibuffer := (ibuffer s1)\<lparr>qhead := Some d, qsize := qsize (ibuffer s1) + 1,
               blength := blength (ibuffer s1) + n\<rparr>, drop_piece := None\<rparr>, ?m)"
    using d(1) c n by (simp add: BufferInputStream_BackUp_def FlatInputBuffer_flatBackUp_def mem_simps)
  have "mem_inv ?m (insert d F)"
    using d(2) c(2) by (intro mem_inv_upd) (auto simp: bchain_def piece_ok_def)
  then have inv: "mem_inv ?m F" by (auto intro: mem_inv_mono)
  have "frame m1 ?m F" using d(6) by (auto simp: frame_def)
  moreover have "piece_ok ?c" "piece_bytes ?c = drop (length bs - n) bs"
    using backed_up_piece [OF c(2,3) n(2) refl] by auto
  moreover have "qtail (ibuffer s1) = None" using d(2) by (simp add: bchain_def queue_rep_def)
  ultimately show ?thesis using n1(1) run d(5,6) inv frame_trans [OF n1(3)] n
    by (auto simp: tailless_def cell_ok_def cell_bytes_def)
qed

lemma push_without_tail:
  assumes "cells m x = Some c" and "qtail b = None" and "qhead b \<noteq> None"
  shows "mpush (Some x) b m = Inl AssertFailed"
  using assms by (auto simp: mpush_def Queue_push_def mem_simps)

lemma write_without_tail:
  assumes "mem_inv m F" and "qtail b = None" and "qhead b \<noteq> None"
  shows "Buffer_write d b m = Inl AssertFailed"
proof -
  obtain a m' c where "newPiece m = Inr (Some a, m')" "cells m' a = Some c"
    using newPiece_ok [OF assms(1)] by blast
  then show ?thesis using push_without_tail [OF _ assms(2,3)] assms(2)
    by (simp add: Buffer_write_def Queue_back_def Buffer_push_new_def)
qed

lemma writePiece_without_tail:
  assumes "cells m x = Some c" and "0 < unat (len c)" and "qtail b = None" and "qhead b \<noteq> None"
  shows "InputBuffer_writePiece (Some x) b m = Inl AssertFailed"
  using assms push_without_tail [OF assms(1,3,4)]
  by (simp add: InputBuffer_writePiece_def Queue_back_def mem_simps)

lemma Trim_fails:
  assumes rep: "out_rep m b e as F bs" and size: "out_size e = kPieceCapacity"
  shows "CodedOutputStream_Trim e (s\<lparr>obuffer := b\<rparr>) m = Inl AssertFailed"
proof -
  obtain zs a c where as: "as = zs @ [a]" and ch: "bchain m b as F" and c: "cells m a = Some c"
    using rep by (auto simp: out_rep_def)
  then have "\<not> kPieceCapacity < unat (len c)"
    using bchain_cell [OF ch, of a] by (auto simp: piece_ok_def)
  moreover have "Queue_back b = Some a" using Queue_back_bchain [OF ch] as by simp
  moreover have "0 < kPieceCapacity" by (simp add: kPieceCapacity_def)
  ultimately show ?thesis using size c
    by (simp add: CodedOutputStream_Trim_def BufferOutputStream_BackUp_def FlatOutputBuffer_flatBackUp_def mem_simps)
qed

lemma serialize_nothing_fails:
  assumes rep: "bchain m b as F" and bs: "blength b = length (chain_bytes (cells m) as)"
    and full: "last_room m as = 0" and none: "concat ws = []"
  shows "SerializeToZeroCopyStream ws (BufferOutputStream_new b) m = Inl AssertFailed"
proof -
  let ?s = "BufferOutputStream_new b"
  let ?e0 = "\<lparr>out_ptr = (None, 0), out_size = 0, had_error = False\<rparr>"
  have s: "?s\<lparr>obuffer := b\<rparr> = ?s" by (simp add: BufferOutputStream_new_def)
  from Refresh_ok [OF rep refl bs, of ?e0 ?s] obtain e1 b1 m1 xs where r:
    "CodedOutputStream_Refresh ?e0 ?s m = Inr (True, e1, ?s\<lparr>obuffer := b1\<rparr>, m1)"
    "out_rep m1 b1 e1 (as @ xs) F (chain_bytes (cells m) as)" "had_error e1 = had_error ?e0"
    "out_size e1 = kPieceCapacity"
    using full unfolding s by (elim exE conjE) (rule that, simp_all)
  then have e1: "e1\<lparr>had_error := False\<rparr> = e1" "CodedOutputStream_Advance 0 e1 = e1"
    by (cases e1, simp add: CodedOutputStream_Advance_def)+
  show ?thesis
    using r(1) e1 none Trim_fails [OF r(2,4)]
    by (simp add: SerializeToZeroCopyStream_def CodedOutputStream_new_def SerializePartialToCodedStream_def
        write_at_def del: concat_eq_Nil_conv)
qed

section \<open>Witness states\<close>

text \<open>A buffer with one piece of two bytes.\<close>

definition pair_mem :: mem where
  "pair_mem = mem_start\<lparr>brk := 1,
     cells := (\<lambda>_. None)(0 \<mapsto> \<lparr>nxt = None, off = 0, len = 2, data = 7 # 8 # replicate 4094 0\<rparr>)\<rparr>"

definition pair_buf :: buffer where
  "pair_buf = \<lparr>qhead = Some 0, qtail = Some 0, qsize = 1, blength = 2\<rparr>"

lemma pair_ok: "bchain pair_mem pair_buf [0] {}" "cell_bytes (cells pair_mem) 0 = [7, 8]" "blength pair_buf = 2"
proof -
  have "cache_rep pair_mem {0} []"
    by (auto simp: cache_rep_def pair_mem_def mem_start_def PiecePool_new_def full_size_def kPieceCapacity_def)
  then show "bchain pair_mem pair_buf [0] {}"
    by (auto simp: bchain_def mem_inv_def queue_rep_def pair_buf_def pair_mem_def cell_ok_def piece_ok_def kPieceCapacity_def)
  show "cell_bytes (cells pair_mem) 0 = [7, 8]" "blength pair_buf = 2"
    by (simp_all add: pair_mem_def cell_bytes_def piece_bytes_def pair_buf_def)
qed

text \<open>A reader that takes chunks until there are none and returns them all.\<close>

primrec collect :: "nat \<Rightarrow> byte list \<Rightarrow> byte list reader" where
  "collect 0 acc = Done 0 acc"
| "collect (Suc n) acc = More (\<lambda>c. case c of None \<Rightarrow> Done 0 acc | Some bs \<Rightarrow> collect n (acc @ bs))"

section \<open>Properties\<close>

text \<open>
  C21. Serialising a message into a buffer appends exactly the bytes the message writes: whatever
  raw writes \<open>ws\<close> the message makes (at least one byte in all, at most \<open>INT_MAX\<close>: a message of no
  bytes can fail an assertion, \<open>serialize_empty_message_asserts\<close> below), through any number
  of chunks that \<open>BufferOutputStream::Next\<close> hands out and the final \<open>BackUp\<close>, the call returns
  true, the buffer carries \<open>bs @ concat ws\<close>, and \<open>ByteCount\<close> is the number of bytes written.
\<close>

theorem serialize_appends:
  assumes "holds m b bs F" and "concat ws \<noteq> []" and "length (concat ws) \<le> 2147483647"
  shows "\<exists>s' m'. SerializeToZeroCopyStream ws (BufferOutputStream_new b) m = Inr (True, s', m')
    \<and> holds m' (obuffer s') (bs @ concat ws) F \<and> frame m m' F
    \<and> BufferOutputStream_ByteCount s' = int (length (concat ws))"
proof -
  let ?s = "BufferOutputStream_new b"
  have s: "?s\<lparr>obuffer := b\<rparr> = ?s" by (simp add: BufferOutputStream_new_def)
  obtain as where as: "bchain m b as F" "chain_bytes (cells m) as = bs" "blength b = length bs"
    using assms(1) by (auto simp: holds_def)
  obtain b' m' xs where r: "SerializeToZeroCopyStream ws ?s m = Inr (True, ?s\<lparr>obuffer := b'\<rparr>, m')"
    "bchain m' b' (as @ xs) F" "chain_bytes (cells m') (as @ xs) = bs @ concat ws"
    "blength b' = length (bs @ concat ws)" "frame m m' F"
    using SerializeToZeroCopyStream_ok [OF as assms(3), of ?s] assms(2) unfolding s by blast
  have "BufferOutputStream_ByteCount (?s\<lparr>obuffer := b'\<rparr>) = int (length (concat ws))"
    using r(4) as(3) assms(3)
    by (simp add: BufferOutputStream_ByteCount_def BufferOutputStream_new_def Buffer_length_def)
  then show ?thesis using r by (intro exI [of _ "?s\<lparr>obuffer := b'\<rparr>"] exI [of _ m']) (auto simp: holds_def)
qed

theorem serialize_appends_witness:
  "\<exists>s' m'. SerializeToZeroCopyStream [[1], [2, 3]] (BufferOutputStream_new Buffer_new) mem_start = Inr (True, s', m')
    \<and> holds m' (obuffer s') [1, 2, 3] {}"
  using serialize_appends [OF start_empty, of "[[1], [2, 3]]"] by auto

text \<open>
  Serialising a message without bytes (every field has its default value) into a buffer whose
  last piece is full, or that has no piece, runs into the assertion of
  \<open>FlatOutputBuffer::flatBackUp\<close>: protobuf asks for a chunk eagerly and gives all of it back.
\<close>

theorem serialize_empty_message_asserts:
  assumes "bchain m b as F" and "blength b = length (chain_bytes (cells m) as)"
    and "last_room m as = 0" and "concat ws = []"
  shows "SerializeToZeroCopyStream ws (BufferOutputStream_new b) m = Inl AssertFailed"
  using assms by (rule serialize_nothing_fails)

theorem serialize_empty_message_asserts_witness:
  "bchain mem_start Buffer_new [] {} \<and>
   SerializeToZeroCopyStream [] (BufferOutputStream_new Buffer_new) mem_start = Inl AssertFailed"
  using serialize_empty_message_asserts [OF bchain_new [OF mem_inv_start], of "[]"] bchain_new [OF mem_inv_start]
  by (simp add: Buffer_new_def last_room_def)

text \<open>
  C22. A reader that consumes the buffer through \<open>BufferInputStream\<close> sees the pieces in order,
  one chunk each, and after the stream is destroyed the buffer carries exactly what the reader has
  left: the part of the last chunk it backed up and the pieces it never asked for. No piece of
  anyone else is touched and no error occurs, provided no piece is empty and the reader neither
  backs up a whole chunk nor backs up when the buffer has no further piece.
\<close>

theorem reader_consumes_chunks:
  assumes "bchain m b as F" and "blength b = length (chain_bytes (cells m) as)"
    and "\<forall>c \<in> set (chunks m as). c \<noteq> []" and "tame r [] (chunks m as)"
    and "feed r [] (chunks m as) = (x, left, rest)"
  shows "\<exists>s1 m1 m2. run_reader r (BufferInputStream_new b) m = Inr (x, s1, m1)
    \<and> BufferInputStream_delete s1 m1 = Inr m2 \<and> holds m2 (ibuffer s1) (left @ concat rest) F \<and> frame m m2 F"
proof -
  have "in_rep m (BufferInputStream_new b) [] (chunks m as) F"
    using in_rep_new [OF assms(1,2)] .
  then obtain s1 m1 cur where r: "run_reader r (BufferInputStream_new b) m = Inr (x, s1, m1)"
    "in_rep m1 s1 cur (if left = [] then rest else left # rest) F" "frame m m1 F"
    using run_reader_ok [OF _ _ assms(3-5)] by blast
  obtain m2 where d: "BufferInputStream_delete s1 m1 = Inr m2" "frame m1 m2 F"
    "in_rep m2 (s1\<lparr>drop_piece := None\<rparr>) [] (if left = [] then rest else left # rest) F"
    using in_rep_delete [OF r(2)] by blast
  have "holds m2 (ibuffer s1) (left @ concat rest) F"
    using d(3) by (auto simp: in_rep_def holds_def held_piece_def simp flip: concat_chunks split: if_splits)
  then show ?thesis using r(1) d(1) frame_trans [OF r(3) d(2)] by blast
qed

theorem reader_consumes_chunks_witness:
  "\<exists>s1 m1 m2. run_reader (collect 3 []) (BufferInputStream_new pair_buf) pair_mem = Inr ([7, 8], s1, m1)
    \<and> BufferInputStream_delete s1 m1 = Inr m2 \<and> holds m2 (ibuffer s1) [] {}"
  using reader_consumes_chunks [OF pair_ok(1), of "collect 3 []" "[7, 8]" "[]" "[]"] pair_ok(2,3)
  by (auto simp: chunks_def numeral_3_eq_3)

text \<open>
  Backing up into a buffer that \<open>Next\<close> has emptied leaves a queue with a head and no tail:
  the bytes are there (\<open>length()\<close> counts them), but every later write to the buffer fails the
  assertion in \<open>Queue::push\<close>, and so does appending a received piece.
\<close>

theorem backup_into_emptied_buffer:
  assumes "bchain m b [a] F" and "cell_bytes (cells m) a = bs" and "blength b = length bs"
    and "0 < n" and "n < length bs"
  shows "\<exists>s1 m1 s2 m2. BufferInputStream_Next (BufferInputStream_new b) m = Inr (Some bs, s1, m1)
    \<and> BufferInputStream_BackUp n s1 m1 = Inr (s2, m2) \<and> Buffer_length (ibuffer s2) = n
    \<and> (\<forall>d. Buffer_write d (ibuffer s2) m2 = Inl AssertFailed)
    \<and> (\<forall>x c. cells m2 x = Some c \<and> 0 < unat (len c) \<longrightarrow>
          InputBuffer_writePiece (Some x) (ibuffer s2) m2 = Inl AssertFailed)"
proof -
  obtain s1 m1 s2 m2 where r: "BufferInputStream_Next (BufferInputStream_new b) m = Inr (Some bs, s1, m1)"
    "BufferInputStream_BackUp n s1 m1 = Inr (s2, m2)" "tailless m2 (ibuffer s2) (drop (length bs - n) bs) F" "mem_inv m2 F"
    using flatBackUp_lone_piece [OF assms] by blast
  then have t: "qtail (ibuffer s2) = None" "qhead (ibuffer s2) \<noteq> None" "blength (ibuffer s2) = n"
    using assms(5) by (auto simp: tailless_def split: option.splits)
  then show ?thesis
    using r(1,2) write_without_tail [OF r(4) t(1,2)] writePiece_without_tail [OF _ _ t(1,2)]
    by (auto simp: Buffer_length_def)
qed

theorem backup_into_emptied_buffer_witness:
  "\<exists>s1 m1 s2 m2. BufferInputStream_Next (BufferInputStream_new pair_buf) pair_mem = Inr (Some [7, 8], s1, m1)
    \<and> BufferInputStream_BackUp 1 s1 m1 = Inr (s2, m2) \<and> Buffer_length (ibuffer s2) = 1
    \<and> (\<forall>d. Buffer_write d (ibuffer s2) m2 = Inl AssertFailed)"
  using backup_into_emptied_buffer [OF pair_ok(1,2), of 1] pair_ok(3) by auto

end
