(* ===== verification/Codec.thy ===== *)
theory Codec
  imports Zero_Copy
begin

text \<open>
  The message framing of \<^verbatim>\<open>src/netpp/net/protobuf/codec.h\<close> and
  \<^verbatim>\<open>src/netpp/net/protobuf/codec.cpp\<close>. A frame is
  \<^item> a length header, four bytes in network order, counting everything after it,
  \<^item> the length of the type name including its terminating zero, four bytes in network order,
  \<^item> the type name with the zero, and
  \<^item> the serialised message.

  Protobuf's messages are a parameter: the record \<open>protobuf_api\<close> has the functions of the
  library the codec calls (descriptor lookup, prototypes, the writes and the parser of a message).
  The user's callbacks are parameters that thread the memory and a state \<open>'w\<close> of their own.
\<close>

section \<open>Data\<close>

datatype ErrorCode = kNoError | kInvalidLength | kInvalidNameLen | kUnknownMessageType | kParseError

definition kHeaderLen :: int where "kHeaderLen = 4"
definition kMinMessageLen :: int where "kMinMessageLen = 2 * kHeaderLen + 2"
definition kMaxMessageLen :: int where "kMaxMessageLen = 64 * 1024 * 1024"

definition kNoErrorStr :: string where "kNoErrorStr = ''NoError''"
definition kInvalidLengthStr :: string where "kInvalidLengthStr = ''InvalidLength''"
definition kCheckSumErrorStr :: string where "kCheckSumErrorStr = ''CheckSumError''"
definition kInvalidNameLenStr :: string where "kInvalidNameLenStr = ''InvalidNameLen''"
definition kUnknownMessageTypeStr :: string where "kUnknownMessageTypeStr = ''UnknownMessageType''"
definition kParseErrorStr :: string where "kParseErrorStr = ''ParseError''"
definition kUnknownErrorStr :: string where "kUnknownErrorStr = ''UnknownError''"

fun errorCodeToString :: "ErrorCode \<Rightarrow> string" where
  "errorCodeToString kNoError = kNoErrorStr"
| "errorCodeToString kInvalidLength = kInvalidLengthStr"
| "errorCodeToString kInvalidNameLen = kInvalidNameLenStr"
| "errorCodeToString kUnknownMessageType = kUnknownMessageTypeStr"
| "errorCodeToString kParseError = kParseErrorStr"

text \<open>\<open>asInt32\<close> passes the four bytes through \<open>htons\<close>, which takes and returns 16 bits.\<close>

definition asInt32 :: "byte list \<Rightarrow> uint32" where
  "asInt32 buf = (let be32 = (of_le_bytes (take 4 buf) :: uint32) in ucast (htons (ucast be32)))"

text \<open>
  The functions of protobuf: a type name is a byte string, \<open>raw_writes\<close> are the writes a message
  makes when it is serialised, and \<open>parser\<close> is what \<open>ParseFromZeroCopyStream\<close> does for a fresh
  message: it reads chunks and ends with whether the parse succeeded and the message.
\<close>

record ('d, 'msg) protobuf_api =
  FindMessageTypeByName :: "byte list \<Rightarrow> 'd option"
  GetPrototype :: "'d \<Rightarrow> 'msg option"
  New :: "'msg \<Rightarrow> 'msg"
  GetTypeName :: "'msg \<Rightarrow> byte list"
  raw_writes :: "'msg \<Rightarrow> byte list list"
  parser :: "'msg \<Rightarrow> (bool \<times> 'msg) reader"

type_synonym ('msg, 'w) message_callback = "'msg \<Rightarrow> mem \<Rightarrow> 'w \<Rightarrow> error + (mem \<times> 'w)"
type_synonym 'w error_callback = "ErrorCode \<Rightarrow> buffer \<Rightarrow> mem \<Rightarrow> 'w \<Rightarrow> error + (buffer \<times> mem \<times> 'w)"

section \<open>Operations\<close>

definition createMessage :: "('d, 'msg) protobuf_api \<Rightarrow> byte list \<Rightarrow> 'msg option" where
  "createMessage api type_name = (case FindMessageTypeByName api type_name of
     None \<Rightarrow> None
   | Some descriptor \<Rightarrow> (case GetPrototype api descriptor of
       None \<Rightarrow> None
     | Some prototype \<Rightarrow> Some (New api prototype)))"

definition fillEmptyBuffer :: "('d, 'msg) protobuf_api \<Rightarrow> 'msg \<Rightarrow> buffer \<Rightarrow> mem \<Rightarrow> error + (buffer \<times> mem)" where
  "fillEmptyBuffer api message b m =
     (let typeName = GetTypeName api message;
          nameLen = (word_of_nat (length typeName + 1) :: uint32)
      in rbind (Buffer_reservedPrepend 4 b m) (\<lambda>(b1, m1).
         rbind (Buffer_writeInt32 nameLen b1 m1) (\<lambda>(b2, m2).
         rbind (Buffer_write (take (unat nameLen) (typeName @ [0])) b2 m2) (\<lambda>(b3, m3).
         rbind (SerializeToZeroCopyStream (raw_writes api message) (BufferOutputStream_new b3) m3) (\<lambda>(_, output, m4).
         let b4 = obuffer output in
         Buffer_prependInt32 (word_of_nat (Buffer_length b4)) b4 m4)))))"

text \<open>
  \<open>parse\<close>: the length of the frame is an argument the function does not use, and the result of
  \<open>ParseFromZeroCopyStream\<close> is dropped.
\<close>

definition parse :: "('d, 'msg) protobuf_api \<Rightarrow> int \<Rightarrow> ErrorCode \<Rightarrow> buffer \<Rightarrow> mem \<Rightarrow>
    error + (ErrorCode \<times> 'msg option \<times> buffer \<times> mem)" where
  "parse api flen err b m =
     rbind (Buffer_readInt32 b m) (\<lambda>(w, b1, m1).
     let nameLen = sint w in
     if nameLen > 0
     then if int (Buffer_length b1) \<ge> nameLen
          then rbind (Buffer_read_string (nat nameLen) b1 m1) (\<lambda>(typeName, b2, m2).
               case createMessage api typeName of
                 Some message \<Rightarrow>
                   rbind (run_reader (parser api message) (BufferInputStream_new b2) m2) (\<lambda>((_, message1), input, m3).
                   rbind (BufferInputStream_delete input m3) (\<lambda>m4.
                   Inr (err, Some message1, ibuffer input, m4)))
               | None \<Rightarrow> Inr (kUnknownMessageType, None, b2, m2))
          else Inr (kParseError, None, b1, m1)
     else Inr (kInvalidNameLen, None, b1, m1))"

primrec onMessage_loop :: "nat \<Rightarrow> ('d, 'msg) protobuf_api \<Rightarrow> ('msg, 'w) message_callback \<Rightarrow> 'w error_callback \<Rightarrow>
    buffer \<Rightarrow> mem \<Rightarrow> 'w \<Rightarrow> error + (buffer \<times> mem \<times> 'w)" where
  "onMessage_loop 0 api messageCallback errorCallback b m w = Inl Diverges"
| "onMessage_loop (Suc fuel) api messageCallback errorCallback b m w =
     (if int (Buffer_length b) \<ge> kMinMessageLen + kHeaderLen
      then rbind (Buffer_peekInt32 b m) (\<lambda>v.
           let flen = sint v in
           if flen > kMaxMessageLen \<or> flen < kMinMessageLen
           then errorCallback kInvalidLength b m w
           else if int (Buffer_length b) \<ge> flen + kHeaderLen
           then rbind (Buffer_skip (nat kHeaderLen) b m) (\<lambda>(b1, m1).
                rbind (parse api flen kNoError b1 m1) (\<lambda>(errorCode, message, b2, m2).
                if errorCode = kNoError \<and> message \<noteq> None
                then rbind (messageCallback (the message) m2 w) (\<lambda>(m3, w1).
                     onMessage_loop fuel api messageCallback errorCallback b2 m3 w1)
                else errorCallback errorCode b2 m2 w))
           else Inr (b, m, w))
      else Inr (b, m, w))"

definition onMessage :: "('d, 'msg) protobuf_api \<Rightarrow> ('msg, 'w) message_callback \<Rightarrow> 'w error_callback \<Rightarrow>
    buffer \<Rightarrow> mem \<Rightarrow> 'w \<Rightarrow> error + (buffer \<times> mem \<times> 'w)" where
  "onMessage api messageCallback errorCallback b m w =
     onMessage_loop (Suc (Buffer_length b)) api messageCallback errorCallback b m w"

text \<open>\<open>send\<close>: \<open>conn_send\<close> is \<open>TCPConn::send(Buffer*)\<close>; the local buffer is cleared when it goes out of scope.\<close>

definition codec_send :: "(buffer \<Rightarrow> mem \<Rightarrow> 'w \<Rightarrow> error + (buffer \<times> mem \<times> 'w)) \<Rightarrow> ('d, 'msg) protobuf_api \<Rightarrow>
    'msg \<Rightarrow> mem \<Rightarrow> 'w \<Rightarrow> error + (mem \<times> 'w)" where
  "codec_send conn_send api message m w =
     rbind (fillEmptyBuffer api message Buffer_new m) (\<lambda>(b, m1).
     rbind (conn_send b m1 w) (\<lambda>(b1, m2, w1).
     rbind (Buffer_clear b1 m2) (\<lambda>(_, m3). Inr (m3, w1))))"

section \<open>The frame\<close>

definition payload :: "('d, 'msg) protobuf_api \<Rightarrow> 'msg \<Rightarrow> byte list" where
  "payload api msg = le_bytes 4 (htonl (word_of_nat (length (GetTypeName api msg) + 1))) @ GetTypeName api msg @ [0]
     @ concat (raw_writes api msg)"

definition frame_bytes :: "('d, 'msg) protobuf_api \<Rightarrow> 'msg \<Rightarrow> byte list" where
  "frame_bytes api msg = le_bytes 4 (htonl (word_of_nat (length (payload api msg)))) @ payload api msg"

lemma length_payload [simp]:
  "length (payload api msg) = length (GetTypeName api msg) + 5 + length (concat (raw_writes api msg))"
  by (simp add: payload_def)

lemma fillEmptyBuffer_ok:
  assumes inv: "mem_inv m F" and name: "length (GetTypeName api msg) + 1 < 2 ^ 32"
    and size: "length (concat (raw_writes api msg)) \<le> 2147483647"
    and some: "concat (raw_writes api msg) \<noteq> [] \<or> length (GetTypeName api msg) + 9 < kPieceCapacity"
  shows "\<exists>b m'. fillEmptyBuffer api msg Buffer_new m = Inr (b, m') \<and> holds_reserve m' b (frame_bytes api msg) F 0
     \<and> frame m m' F"
proof -
  let ?name = "GetTypeName api msg"
  define nl where "nl = (word_of_nat (length ?name + 1) :: uint32)"
  have "unat nl = length ?name + 1" unfolding nl_def using name by (intro unat_of_nat32) simp
  then have nl: "take (unat nl) (?name @ [0]) = ?name @ [0]" by simp
  have rep0: "bchain m Buffer_new [] F" "blength Buffer_new = 0"
    using bchain_new [OF inv] by (simp_all add: Buffer_new_def)
  obtain b1 m1 where s1: "Buffer_reservedPrepend 4 Buffer_new m = Inr (b1, m1)" "holds_one m1 b1 [] F 4" "frame m m1 F"
    using reservedPrepend_one [OF rep0, of 4] by (auto simp: kPieceCapacity_def)
  obtain b2 m2 where s2: "Buffer_writeInt32 nl b1 m1 = Inr (b2, m2)" "holds_one m2 b2 (le_bytes 4 (htonl nl)) F 4" "frame m1 m2 F"
    using Buffer_write_one [OF s1(2), of "le_bytes 4 (htonl nl)"]
    by (auto simp: kPieceCapacity_def Buffer_writeInt32_def)
  let ?bs = "le_bytes 4 (htonl nl) @ ?name @ [0]"
  obtain b3 m3 where s3: "Buffer_write (?name @ [0]) b2 m2 = Inr (b3, m3)" "holds_reserve m3 b3 ?bs F 4" "frame m2 m3 F"
    using Buffer_write_reserve [OF holds_one_reserve [OF s2(2)], of "?name @ [0]"] by auto
  have one: "holds_one m3 b3 ?bs F 4" if "length ?name + 9 < kPieceCapacity"
    using Buffer_write_one [OF s2(2), of "?name @ [0]"] that s3(1) by (auto simp: kPieceCapacity_def)
  have "concat (raw_writes api msg) \<noteq> [] \<or> holds_one m3 b3 ?bs F 4 \<and> 4 + length ?bs < kPieceCapacity"
    using some one by auto
  then obtain out m4 where s4: "SerializeToZeroCopyStream (raw_writes api msg) (BufferOutputStream_new b3) m3 = Inr (True, out, m4)"
    "holds_reserve m4 (obuffer out) (?bs @ concat (raw_writes api msg)) F 4" "frame m3 m4 F"
    using SerializeToZeroCopyStream_reserve [OF s3(2) _ size] by auto
  have pay: "?bs @ concat (raw_writes api msg) = payload api msg" by (simp add: payload_def nl_def)
  have bl: "Buffer_length (obuffer out) = length (payload api msg)"
    using s4(2) unfolding pay by (auto simp: holds_reserve_def Buffer_length_def)
  let ?h = "le_bytes 4 (htonl (word_of_nat (length (payload api msg))))"
  obtain b5 m5 where s5: "Buffer_prependInt32 (word_of_nat (length (payload api msg))) (obuffer out) m4 = Inr (b5, m5)"
    "holds_reserve m5 b5 (frame_bytes api msg) F 0" "frame m4 m5 F"
    using Buffer_prepend_reserve [OF s4(2), of ?h] unfolding pay Buffer_prependInt32_def frame_bytes_def by auto
  have "fillEmptyBuffer api msg Buffer_new m = Inr (b5, m5)"
    using s1(1) s2(1) s3(1) s4(1) s5(1)
    unfolding fillEmptyBuffer_def Let_def nl_def [symmetric] nl by (simp add: bl)
  moreover have "frame m m5 F" using s1(3) s2(3) s3(3) s4(3) s5(3) by (blast intro: frame_trans)
  ultimately show ?thesis using s5(2) by blast
qed

text \<open>A frame of at most 4096 bytes is built in a single piece, with no reserve left in front.\<close>

lemma length_frame_bytes: "length (frame_bytes api msg) = length (payload api msg) + 4"
  by (simp add: frame_bytes_def)

lemma fillEmptyBuffer_one:
  assumes inv: "mem_inv m F" and fits: "length (frame_bytes api msg) \<le> kPieceCapacity"
    and some: "concat (raw_writes api msg) \<noteq> [] \<or> length (frame_bytes api msg) < kPieceCapacity"
  shows "\<exists>b m'. fillEmptyBuffer api msg Buffer_new m = Inr (b, m') \<and> holds_one m' b (frame_bytes api msg) F 0
     \<and> frame m m' F"
proof -
  let ?name = "GetTypeName api msg" and ?body = "concat (raw_writes api msg)"
  define nl where "nl = (word_of_nat (length ?name + 1) :: uint32)"
  have small: "length ?name + 9 + length ?body \<le> 4096" using fits by (simp add: kPieceCapacity_def length_frame_bytes)
  then have "unat nl = length ?name + 1" unfolding nl_def by (intro unat_of_nat32) simp
  then have nl: "take (unat nl) (?name @ [0]) = ?name @ [0]" by simp
  have rep0: "bchain m Buffer_new [] F" "blength Buffer_new = 0"
    using bchain_new [OF inv] by (simp_all add: Buffer_new_def)
  obtain b1 m1 where s1: "Buffer_reservedPrepend 4 Buffer_new m = Inr (b1, m1)" "holds_one m1 b1 [] F 4" "frame m m1 F"
    using reservedPrepend_one [OF rep0, of 4] by (auto simp: kPieceCapacity_def)
  obtain b2 m2 where s2: "Buffer_writeInt32 nl b1 m1 = Inr (b2, m2)" "holds_one m2 b2 (le_bytes 4 (htonl nl)) F 4" "frame m1 m2 F"
    using Buffer_write_one [OF s1(2), of "le_bytes 4 (htonl nl)"]
    by (auto simp: kPieceCapacity_def Buffer_writeInt32_def)
  let ?bs = "le_bytes 4 (htonl nl) @ ?name @ [0]"
  obtain b3 m3 where s3: "Buffer_write (?name @ [0]) b2 m2 = Inr (b3, m3)" "holds_one m3 b3 ?bs F 4" "frame m2 m3 F"
    using Buffer_write_one [OF s2(2), of "?name @ [0]"] small by (auto simp: kPieceCapacity_def)
  have "4 + length ?bs < kPieceCapacity"
    using small some by (cases ?body) (auto simp: kPieceCapacity_def length_frame_bytes)
  then obtain out m4 where s4: "SerializeToZeroCopyStream (raw_writes api msg) (BufferOutputStream_new b3) m3 = Inr (True, out, m4)"
    "holds_one m4 (obuffer out) (?bs @ ?body) F 4" "frame m3 m4 F"
    using SerializeToZeroCopyStream_one [OF s3(2), of "raw_writes api msg"] small by (auto simp: kPieceCapacity_def)
  have pay: "?bs @ ?body = payload api msg" by (simp add: payload_def nl_def)
  have bl: "Buffer_length (obuffer out) = length (payload api msg)"
    using s4(2) unfolding pay by (auto simp: holds_one_def Buffer_length_def)
  let ?h = "le_bytes 4 (htonl (word_of_nat (length (payload api msg))))"
  obtain b5 m5 where s5: "Buffer_prependInt32 (word_of_nat (length (payload api msg))) (obuffer out) m4 = Inr (b5, m5)"
    "holds_one m5 b5 (frame_bytes api msg) F 0" "frame m4 m5 F"
    using Buffer_prepend_one [OF s4(2), of ?h] unfolding pay Buffer_prependInt32_def frame_bytes_def by auto
  have "fillEmptyBuffer api msg Buffer_new m = Inr (b5, m5)"
    using s1(1) s2(1) s3(1) s4(1) s5(1)
    unfolding fillEmptyBuffer_def Let_def nl_def [symmetric] nl by (simp add: bl)
  moreover have "frame m m5 F" using s1(3) s2(3) s3(3) s4(3) s5(3) by (blast intro: frame_trans)
  ultimately show ?thesis using s5(2) by blast
qed

section \<open>Buffers without empty pieces\<close>

text \<open>
  A buffer filled from the network has no empty piece, and reading keeps it so. The codec relies
  on it: \<open>BufferInputStream::Next\<close> takes an empty piece for the end of the data.
\<close>

definition dense :: "mem \<Rightarrow> buffer \<Rightarrow> byte list \<Rightarrow> addr set \<Rightarrow> bool" where
  "dense m b bs F \<longleftrightarrow> (\<exists>as. bchain m b as F \<and> chain_bytes (cells m) as = bs \<and> blength b = length bs
     \<and> (\<forall>c \<in> set (chunks m as). c \<noteq> []))"

definition front_has :: "nat \<Rightarrow> mem \<Rightarrow> buffer \<Rightarrow> bool" where
  "front_has n m b \<longleftrightarrow> (case Queue_front b of None \<Rightarrow> False | Some a \<Rightarrow> n \<le> length (cell_bytes (cells m) a))"

lemma dense_holds: "dense m b bs F \<Longrightarrow> holds m b bs F"
  by (auto simp: dense_def holds_def)

lemma dense_length [simp]: "dense m b bs F \<Longrightarrow> Buffer_length b = length bs"
  by (auto simp: dense_def Buffer_length_def)

lemma dense_inv: "dense m b bs F \<Longrightarrow> mem_inv m F"
  by (auto simp: dense_def bchain_def intro: mem_inv_mono)

lemma dense_Nil: "dense m b [] F \<longleftrightarrow> bchain m b [] F \<and> blength b = 0"
proof
  assume "dense m b [] F"
  then obtain as where as: "bchain m b as F" "chain_bytes (cells m) as = []" "blength b = 0"
    "\<forall>c \<in> set (chunks m as). c \<noteq> []"
    by (auto simp: dense_def)
  then have "concat (chunks m as) = []" by (simp only: concat_chunks)
  then have "chunks m as = []" using as(4) by (cases "chunks m as") auto
  with as show "bchain m b [] F \<and> blength b = 0" by (simp add: chunks_def)
next
  assume "bchain m b [] F \<and> blength b = 0"
  then show "dense m b [] F" unfolding dense_def by (intro exI [of _ "[]"]) (simp add: chunks_def)
qed

lemma dense_Nil_inv: "dense m b [] F \<Longrightarrow> mem_inv m' F \<Longrightarrow> dense m' b [] F"
  by (simp add: dense_Nil bchain_def queue_rep_def)

lemma Buffer_read_dense:
  assumes "dense m b bs F" and "0 < n" and "n \<le> length bs"
  shows "\<exists>b' m'. Buffer_read n b m = Inr (take n bs, b', m') \<and> dense m' b' (drop n bs) F \<and> frame m m' F"
proof -
  obtain as where as: "bchain m b as F" "chain_bytes (cells m) as = bs" "blength b = length bs"
    "\<forall>c \<in> set (chunks m as). c \<noteq> []"
    using assms(1) by (auto simp: dense_def)
  then obtain b' m' as' where r: "Buffer_read n b m = Inr (take n bs, b', m')" "bchain m' b' as' F"
    "chunks m' as' = cut n (chunks m as)" "blength b' = length (chain_bytes (cells m') as')" "frame m m' F"
    using Buffer_read_chain [OF as(1)] assms(2,3) by blast
  moreover have "chain_bytes (cells m') as' = drop n bs" using r(3) as(2) by (metis concat_chunks concat_cut)
  moreover have "\<forall>c \<in> set (chunks m' as'). c \<noteq> []" using r(3) cut_nonempty [OF as(4)] by simp
  ultimately show ?thesis unfolding dense_def
    by (intro exI [of _ b'] exI [of _ m'] exI [of _ as'] conjI) simp_all
qed

lemma Buffer_skip_dense:
  assumes "dense m b bs F" and "0 < n" and "n \<le> length bs"
  shows "\<exists>b' m'. Buffer_skip n b m = Inr (b', m') \<and> dense m' b' (drop n bs) F \<and> frame m m' F"
proof -
  obtain as where "bchain m b as F" using assms(1) by (auto simp: dense_def)
  then show ?thesis using Buffer_read_dense [OF assms] Buffer_skip_read by blast
qed

lemma Buffer_readInt32_dense:
  assumes "dense m b (le_bytes 4 (htonl x) @ bs) F"
  shows "\<exists>b' m'. Buffer_readInt32 b m = Inr (x, b', m') \<and> dense m' b' bs F \<and> frame m m' F"
  using Buffer_read_dense [OF assms, of 4] by (auto simp: Buffer_readInt32_def)

lemma Buffer_peekInt32_dense:
  assumes "dense m b (le_bytes 4 (htonl x) @ bs) F" and "front_has 4 m b"
  shows "Buffer_peekInt32 b m = Inr x"
proof -
  obtain as where as: "bchain m b as F" "chain_bytes (cells m) as = le_bytes 4 (htonl x) @ bs" "blength b = 4 + length bs"
    using assms(1) by (auto simp: dense_def)
  then obtain a xs where ax: "as = a # xs" by (cases as) (auto simp: le_bytes_ne)
  with as(1) assms(2) have four: "4 \<le> length (cell_bytes (cells m) a)"
    using Queue_front_bchain [OF as(1)] by (simp add: front_has_def)
  obtain c where c: "cells m a = Some c" "piece_ok c" using bchain_cell [OF as(1)] ax by auto
  then have "4 \<le> unat (len c)" using four by (simp add: cell_bytes_def)
  then have "Buffer_peek 4 b m = Inr (le_bytes 4 (htonl x))"
    using Buffer_peek_front [OF as(1) [unfolded ax] c(1), of 4, folded ax] as by simp
  then show ?thesis using as(3) by (simp add: Buffer_peekInt32_def Buffer_length_def)
qed

section \<open>Parsing\<close>

text \<open>
  A reader that reads to the end of the data: however the bytes \<open>bs\<close> are cut into chunks, it
  consumes them all and ends with \<open>r\<close>. Protobuf's parsers do this on the bytes of one message and
  nothing else: they ask for a tag until the stream ends. On other bytes they may stop earlier, at a
  zero tag or at garbage, and back up (\<open>stops_at_zero\<close> below).
\<close>

definition reads_all :: "'r reader \<Rightarrow> byte list \<Rightarrow> 'r \<Rightarrow> bool" where
  "reads_all rd bs r \<longleftrightarrow> (\<forall>css. (\<forall>c \<in> set css. c \<noteq> []) \<and> concat css = bs \<longrightarrow>
     tame rd [] css \<and> feed rd [] css = (r, [], []))"

lemma run_reads_all:
  assumes "dense m b bs F" and "reads_all rd bs r"
  shows "\<exists>s1 m1 m2. run_reader rd (BufferInputStream_new b) m = Inr (r, s1, m1)
     \<and> BufferInputStream_delete s1 m1 = Inr m2 \<and> dense m2 (ibuffer s1) [] F \<and> frame m m2 F"
proof -
  obtain as where as: "bchain m b as F" "chain_bytes (cells m) as = bs" "blength b = length bs"
    "\<forall>c \<in> set (chunks m as). c \<noteq> []"
    using assms(1) by (auto simp: dense_def)
  then have feed: "tame rd [] (chunks m as)" "feed rd [] (chunks m as) = (r, [], [])"
    using assms(2) by (auto simp: reads_all_def concat_chunks)
  have "in_rep m (BufferInputStream_new b) [] (chunks m as) F"
    using in_rep_new [OF as(1)] as(2,3) by simp
  then obtain s1 m1 cur where r: "run_reader rd (BufferInputStream_new b) m = Inr (r, s1, m1)"
    "in_rep m1 s1 cur [] F" "frame m m1 F"
    using run_reader_ok [OF _ _ as(4) feed] by fastforce
  obtain m2 where d: "BufferInputStream_delete s1 m1 = Inr m2" "frame m1 m2 F"
    "in_rep m2 (s1\<lparr>drop_piece := None\<rparr>) [] [] F"
    using in_rep_delete [OF r(2)] by blast
  have "dense m2 (ibuffer s1) [] F"
    using d(3) by (auto simp: in_rep_def dense_Nil held_piece_def chunks_def)
  then show ?thesis using r(1) d(1) frame_trans [OF r(3) d(2)] by blast
qed

lemma parse_known:
  assumes b: "dense m b (le_bytes 4 (htonl nl) @ name @ bs) F"
    and nl: "sint nl = int (length name)" "name \<noteq> []"
    and p: "createMessage api name = Some p" "reads_all (parser api p) bs (ok, msg)"
  shows "\<exists>b' m'. parse api flen err b m = Inr (err, Some msg, b', m') \<and> dense m' b' [] F \<and> frame m m' F"
proof -
  obtain b1 m1 where r1: "Buffer_readInt32 b m = Inr (nl, b1, m1)" "dense m1 b1 (name @ bs) F" "frame m m1 F"
    using Buffer_readInt32_dense [OF b] by blast
  obtain b2 m2 where r2: "Buffer_read (length name) b1 m1 = Inr (name, b2, m2)" "dense m2 b2 bs F" "frame m1 m2 F"
    using Buffer_read_dense [OF r1(2), of "length name"] nl(2) by auto
  obtain s3 m3 m4 where r3: "run_reader (parser api p) (BufferInputStream_new b2) m2 = Inr ((ok, msg), s3, m3)"
    "BufferInputStream_delete s3 m3 = Inr m4" "dense m4 (ibuffer s3) [] F" "frame m2 m4 F"
    using run_reads_all [OF r2(2) p(2)] by blast
  have "parse api flen err b m = Inr (err, Some msg, ibuffer s3, m4)"
    using r1 r2(1) r3(1,2) nl p(1)
    by (simp add: parse_def Buffer_read_string_def Let_def)
  moreover have "frame m m4 F" using r1(3) r2(3) r3(4) by (blast intro: frame_trans)
  ultimately show ?thesis using r3(3) by blast
qed

section \<open>The receive loop\<close>

lemmas codec_consts = kHeaderLen_def kMinMessageLen_def kMaxMessageLen_def

lemma onMessage_loop_short:
  "Buffer_length b < 14 \<Longrightarrow> onMessage_loop (Suc fuel) api mcb ecb b m w = Inr (b, m, w)"
  by (simp add: codec_consts)

lemma onMessage_loop_bad_length:
  assumes b: "dense m b (le_bytes 4 (htonl x) @ bs) F" "front_has 4 m b"
    and len: "10 \<le> length bs" and bad: "sint x < 10 \<or> 67108864 < sint x"
  shows "onMessage_loop (Suc fuel) api mcb ecb b m w = ecb kInvalidLength b m w"
  using Buffer_peekInt32_dense [OF b] dense_length [OF b(1)] len bad by (auto simp: codec_consts)

lemma onMessage_loop_waits:
  assumes b: "dense m b (le_bytes 4 (htonl x) @ bs) F" "front_has 4 m b"
    and good: "10 \<le> sint x" "sint x \<le> 67108864" and part: "int (length bs) < sint x"
  shows "onMessage_loop (Suc fuel) api mcb ecb b m w = Inr (b, m, w)"
  using Buffer_peekInt32_dense [OF b] dense_length [OF b(1)] good part by (auto simp: codec_consts)

lemma onMessage_loop_parse:
  assumes b: "dense m b (le_bytes 4 (htonl x) @ bs) F" "front_has 4 m b"
    and good: "10 \<le> sint x" "sint x \<le> 67108864" and full: "sint x \<le> int (length bs)"
  shows "\<exists>b1 m1. dense m1 b1 bs F \<and> frame m m1 F \<and>
     onMessage_loop (Suc fuel) api mcb ecb b m w =
       rbind (parse api (sint x) kNoError b1 m1) (\<lambda>(errorCode, message, b2, m2).
         if errorCode = kNoError \<and> message \<noteq> None
         then rbind (mcb (the message) m2 w) (\<lambda>(m3, w1). onMessage_loop fuel api mcb ecb b2 m3 w1)
         else ecb errorCode b2 m2 w)"
proof -
  obtain b1 m1 where s: "Buffer_skip 4 b m = Inr (b1, m1)" "dense m1 b1 bs F" "frame m m1 F"
    using Buffer_skip_dense [OF b(1), of 4] by auto
  then show ?thesis
    using Buffer_peekInt32_dense [OF b] dense_length [OF b(1)] good full
    by (intro exI [of _ b1] exI [of _ m1]) (simp add: codec_consts)
qed

text \<open>The codes \<open>parse\<close> reports, from the name length \<open>nl\<close> and the bytes after it.\<close>

definition parse_error :: "('d, 'msg) protobuf_api \<Rightarrow> uint32 \<Rightarrow> byte list \<Rightarrow> ErrorCode option" where
  "parse_error api nl bs =
     (if sint nl \<le> 0 then Some kInvalidNameLen
      else if int (length bs) < sint nl then Some kParseError
      else if createMessage api (take (nat (sint nl)) bs) = None then Some kUnknownMessageType
      else None)"

lemma parse_fails:
  assumes b: "dense m b (le_bytes 4 (htonl nl) @ bs) F" and code: "parse_error api nl bs = Some code"
  shows "\<exists>b' m'. parse api flen err b m = Inr (code, None, b', m') \<and> frame m m' F
     \<and> dense m' b' (if code = kUnknownMessageType then drop (nat (sint nl)) bs else bs) F"
proof -
  obtain b1 m1 where r1: "Buffer_readInt32 b m = Inr (nl, b1, m1)" "dense m1 b1 bs F" "frame m m1 F"
    using Buffer_readInt32_dense [OF b] by blast
  show ?thesis
  proof (cases "0 < sint nl \<and> sint nl \<le> int (length bs)")
    case True
    let ?n = "nat (sint nl)"
    obtain b2 m2 where r2: "Buffer_read ?n b1 m1 = Inr (take ?n bs, b2, m2)" "dense m2 b2 (drop ?n bs) F" "frame m1 m2 F"
      using Buffer_read_dense [OF r1(2), of ?n] True by (auto simp: nat_le_iff)
    have c: "createMessage api (take ?n bs) = None" "code = kUnknownMessageType"
      using True code by (auto simp: parse_error_def split: if_splits)
    then have "parse api flen err b m = Inr (code, None, b2, m2)"
      using r1(1) r2(1) True dense_length [OF r1(2)] by (simp add: parse_def Buffer_read_string_def Let_def nat_le_iff)
    then show ?thesis using r2(2) c(2) frame_trans [OF r1(3) r2(3)] by auto
  next
    case False
    then have "parse api flen err b m = Inr (code, None, b1, m1)" "code \<noteq> kUnknownMessageType"
      using r1(1) code dense_length [OF r1(2)] by (auto simp: parse_def parse_error_def Let_def split: if_splits)
    then show ?thesis using r1(2,3) by auto
  qed
qed

text \<open>One complete frame: the callback gets the message, and what it returns is the result with an empty buffer.\<close>

lemma dense_Nil_new: "dense m b [] F \<longleftrightarrow> b = Buffer_new \<and> mem_inv m F"
  by (cases b) (auto simp: dense_Nil bchain_def queue_rep_def Buffer_new_def)

lemma onMessage_delivers:
  assumes b: "dense m b (le_bytes 4 (htonl x) @ le_bytes 4 (htonl nl) @ name @ bs) F" "front_has 4 m b"
    and good: "10 \<le> sint x" "sint x \<le> 67108864" "sint x \<le> int (length name + 4 + length bs)"
    and nl: "sint nl = int (length name)" "name \<noteq> []"
    and p: "createMessage api name = Some p" "reads_all (parser api p) bs (ok, msg)"
  shows "\<exists>m1. mem_inv m1 F \<and> frame m m1 F
     \<and> onMessage api mcb ecb b m w = rbind (mcb msg m1 w) (\<lambda>(m2, w2). Inr (Buffer_new, m2, w2))"
proof -
  let ?bs = "le_bytes 4 (htonl nl) @ name @ bs"
  have full: "sint x \<le> int (length ?bs)" using good(3) by simp
  obtain b1 m1 where s: "dense m1 b1 ?bs F" "frame m m1 F"
    "onMessage api mcb ecb b m w =
       rbind (parse api (sint x) kNoError b1 m1) (\<lambda>(errorCode, message, b2, m2).
         if errorCode = kNoError \<and> message \<noteq> None
         then rbind (mcb (the message) m2 w) (\<lambda>(m3, w1). onMessage_loop (Buffer_length b) api mcb ecb b2 m3 w1)
         else ecb errorCode b2 m2 w)"
    using onMessage_loop_parse [OF b good(1,2) full, of "Buffer_length b" api mcb ecb w]
    unfolding onMessage_def [symmetric] by (elim exE conjE) (rule that)
  obtain b2 m2 where q: "parse api (sint x) kNoError b1 m1 = Inr (kNoError, Some msg, b2, m2)" "dense m2 b2 [] F" "frame m1 m2 F"
    using parse_known [OF s(1) nl p] by blast
  obtain k where "Buffer_length b = Suc k" using dense_length [OF b(1)] by simp
  then have "onMessage_loop (Buffer_length b) api mcb ecb b2 m3 w3 = Inr (Buffer_new, m3, w3)" for m3 w3
    using q(2) by (simp add: dense_Nil_new codec_consts Buffer_length_def Buffer_new_def)
  then have "onMessage api mcb ecb b m w = rbind (mcb msg m2 w) (\<lambda>(m2, w2). Inr (Buffer_new, m2, w2))"
    using s(3) q(1) by (simp add: rbind_def split: sum.splits)
  then show ?thesis using q(2) frame_trans [OF s(2) q(3)] by (auto simp: dense_Nil_new)
qed

lemma onMessage_malformed:
  assumes b: "dense m b (le_bytes 4 (htonl x) @ le_bytes 4 (htonl nl) @ bs) F" "front_has 4 m b"
    and good: "10 \<le> sint x" "sint x \<le> 67108864" "sint x \<le> 4 + int (length bs)" and code: "parse_error api nl bs = Some code"
  shows "\<exists>b' m'. onMessage api mcb ecb b m w = ecb code b' m' w \<and> frame m m' F
     \<and> dense m' b' (if code = kUnknownMessageType then drop (nat (sint nl)) bs else bs) F"
proof -
  obtain b1 m1 where s: "dense m1 b1 (le_bytes 4 (htonl nl) @ bs) F" "frame m m1 F"
    "onMessage api mcb ecb b m w =
       rbind (parse api (sint x) kNoError b1 m1) (\<lambda>(errorCode, message, b2, m2).
         if errorCode = kNoError \<and> message \<noteq> None
         then rbind (mcb (the message) m2 w) (\<lambda>(m3, w1). onMessage_loop (Buffer_length b) api mcb ecb b2 m3 w1)
         else ecb errorCode b2 m2 w)"
    using onMessage_loop_parse [OF b good(1,2), of "Buffer_length b" api mcb ecb w] good(3)
    unfolding onMessage_def [symmetric] by auto
  obtain b2 m2 where p: "parse api (sint x) kNoError b1 m1 = Inr (code, None, b2, m2)" "frame m1 m2 F"
    "dense m2 b2 (if code = kUnknownMessageType then drop (nat (sint nl)) bs else bs) F"
    using parse_fails [OF s(1) code] by blast
  have "onMessage api mcb ecb b m w = ecb code b2 m2 w" using s(3) p(1) by simp
  then show ?thesis using p(3) frame_trans [OF s(2) p(2)] by blast
qed

text \<open>The same for a frame built by \<open>fillEmptyBuffer\<close>, with further bytes behind it.\<close>

lemma onMessage_frame:
  assumes b: "dense m b (frame_bytes api msg @ extra) F" "front_has 4 m b"
    and size: "10 \<le> length (payload api msg)" "length (payload api msg) \<le> 67108864"
    and p: "createMessage api (GetTypeName api msg @ [0]) = Some p"
      "reads_all (parser api p) (concat (raw_writes api msg) @ extra) (ok, msg')"
  shows "\<exists>m1. mem_inv m1 F \<and> frame m m1 F
     \<and> onMessage api mcb ecb b m w = rbind (mcb msg' m1 w) (\<lambda>(m2, w2). Inr (Buffer_new, m2, w2))"
proof -
  let ?name = "GetTypeName api msg @ [0]" and ?body = "concat (raw_writes api msg) @ extra"
  let ?x = "word_of_nat (length (payload api msg)) :: uint32" and ?nl = "word_of_nat (length ?name) :: uint32"
  have x: "sint ?x = int (length (payload api msg))" using size(2) by (intro sint_of_nat32) simp
  have nl: "sint ?nl = int (length ?name)" using size(2) by (intro sint_of_nat32) simp
  have "frame_bytes api msg @ extra = le_bytes 4 (htonl ?x) @ le_bytes 4 (htonl ?nl) @ ?name @ ?body"
    by (simp add: frame_bytes_def payload_def)
  then have b': "dense m b (le_bytes 4 (htonl ?x) @ le_bytes 4 (htonl ?nl) @ ?name @ ?body) F"
    using b(1) by simp
  show ?thesis
    using x nl size p by (intro onMessage_delivers [OF b' b(2), where p = p and ok = ok]) auto
qed

section \<open>Two frames in one piece\<close>

text \<open>A buffer that carries its bytes in a single piece, as after one completed read.\<close>

definition lone :: "mem \<Rightarrow> buffer \<Rightarrow> byte list \<Rightarrow> addr set \<Rightarrow> bool" where
  "lone m b bs F \<longleftrightarrow> (\<exists>a. bchain m b [a] F \<and> cell_bytes (cells m) a = bs \<and> blength b = length bs)"

lemma lone_dense: "lone m b bs F \<Longrightarrow> bs \<noteq> [] \<Longrightarrow> dense m b bs F"
proof -
  assume "lone m b bs F" and ne: "bs \<noteq> []"
  then obtain a where "bchain m b [a] F" "cell_bytes (cells m) a = bs" "blength b = length bs" by (auto simp: lone_def)
  then show ?thesis unfolding dense_def using ne by (intro exI [of _ "[a]"]) (simp add: chunks_def)
qed

lemma lone_front: "lone m b bs F \<Longrightarrow> n \<le> length bs \<Longrightarrow> front_has n m b"
  using Queue_front_bchain by (fastforce simp: lone_def front_has_def)

lemma Buffer_read_lone:
  assumes "lone m b bs F" and "0 < n" and "n < length bs"
  shows "\<exists>b' m'. Buffer_read n b m = Inr (take n bs, b', m') \<and> lone m' b' (drop n bs) F \<and> frame m m' F"
proof -
  obtain a where a: "bchain m b [a] F" "cell_bytes (cells m) a = bs" "blength b = length bs"
    using assms(1) by (auto simp: lone_def)
  then obtain b' m' as' where r: "Buffer_read n b m = Inr (take n bs, b', m')" "bchain m' b' as' F"
    "chunks m' as' = cut n (chunks m [a])" "blength b' = length (chain_bytes (cells m') as')" "frame m m' F"
    using Buffer_read_chain [OF a(1), of n] assms(2,3) by auto
  have "chunks m' as' = [drop n bs]" using r(3) a(2) assms(3) by (simp add: chunks_def)
  then obtain a' where "as' = [a']" "cell_bytes (cells m') a' = drop n bs" by (auto simp: chunks_def)
  then show ?thesis using r by (auto simp: lone_def)
qed

text \<open>
  How \<open>CodedInputStream\<close> behaves on a body followed by a zero byte, all in one chunk: the zero is
  read as the tag that ends a message, and the destructor backs up the \<open>rest\<close> of the chunk.
\<close>

definition stops_at_zero :: "'r reader \<Rightarrow> byte list \<Rightarrow> byte list \<Rightarrow> 'r \<Rightarrow> bool" where
  "stops_at_zero rd body rest r \<longleftrightarrow>
     (case rd of Done _ _ \<Rightarrow> False | More k \<Rightarrow> k (Some (body @ 0 # rest)) = Done (length rest) r)"

lemma run_stops_at_zero:
  assumes b: "lone m b (body @ 0 # rest) F" and rd: "stops_at_zero rd body rest r" and "rest \<noteq> []"
  shows "\<exists>s1 m1. run_reader rd (BufferInputStream_new b) m = Inr (r, s1, m1)
     \<and> BufferInputStream_delete s1 m1 = Inr m1 \<and> tailless m1 (ibuffer s1) rest F \<and> mem_inv m1 F \<and> frame m m1 F"
proof -
  let ?bs = "body @ 0 # rest"
  obtain a where a: "bchain m b [a] F" "cell_bytes (cells m) a = ?bs" "blength b = length ?bs"
    using b by (auto simp: lone_def)
  obtain k where k: "rd = More k" "k (Some ?bs) = Done (length rest) r"
    using rd by (cases rd) (auto simp: stops_at_zero_def)
  have "0 < length rest" "length rest < length ?bs" using \<open>rest \<noteq> []\<close> by auto
  from flatBackUp_lone_piece [OF a this] obtain s1 m1 s2 m2
    where "BufferInputStream_Next (BufferInputStream_new b) m = Inr (Some ?bs, s1, m1)"
      "BufferInputStream_BackUp (length rest) s1 m1 = Inr (s2, m2)" "drop_piece s2 = None"
      "tailless m2 (ibuffer s2) rest F" "mem_inv m2 F" "frame m m2 F"
    by auto
  then show ?thesis using k \<open>rest \<noteq> []\<close> by (auto simp: BufferInputStream_delete_def)
qed

lemma parse_stops_at_zero:
  assumes b: "lone m b (le_bytes 4 (htonl nl) @ name @ body @ 0 # rest) F" and "rest \<noteq> []"
    and nl: "sint nl = int (length name)" "name \<noteq> []"
    and p: "createMessage api name = Some p" "stops_at_zero (parser api p) body rest (ok, msg)"
  shows "\<exists>b' m'. parse api flen err b m = Inr (err, Some msg, b', m')
     \<and> tailless m' b' rest F \<and> mem_inv m' F \<and> frame m m' F"
proof -
  obtain b1 m1 where r1: "Buffer_readInt32 b m = Inr (nl, b1, m1)" "lone m1 b1 (name @ body @ 0 # rest) F" "frame m m1 F"
    using Buffer_read_lone [OF b, of 4] by (auto simp: Buffer_readInt32_def)
  obtain b2 m2 where r2: "Buffer_read (length name) b1 m1 = Inr (name, b2, m2)" "lone m2 b2 (body @ 0 # rest) F" "frame m1 m2 F"
    using Buffer_read_lone [OF r1(2), of "length name"] nl(2) by auto
  obtain s3 m3 where r3: "run_reader (parser api p) (BufferInputStream_new b2) m2 = Inr ((ok, msg), s3, m3)"
    "BufferInputStream_delete s3 m3 = Inr m3" "tailless m3 (ibuffer s3) rest F" "mem_inv m3 F" "frame m2 m3 F"
    using run_stops_at_zero [OF r2(2) p(2) \<open>rest \<noteq> []\<close>] by blast
  have "parse api flen err b m = Inr (err, Some msg, ibuffer s3, m3)"
    using r1(1) r2(1) r3(1,2) nl p(1) dense_length [OF lone_dense [OF r1(2)]]
    by (simp add: parse_def Buffer_read_string_def Let_def)
  moreover have "frame m m3 F" using r1(3) r2(3) r3(5) by (blast intro: frame_trans)
  ultimately show ?thesis using r3(3,4) by blast
qed

text \<open>The next length header without its first byte: the length times 256, which is never reached.\<close>

lemma header_bytes:
  assumes "n < 2 ^ 32"
  shows "le_bytes 4 (htonl (word_of_nat n)) = [word_of_nat (n div 16777216), word_of_nat (n div 65536), word_of_nat (n div 256), word_of_nat n]"
proof -
  have "ucast (drop_bit k (word_of_nat n :: uint32)) = (word_of_nat (n div 2 ^ k) :: byte)" for k
  proof -
    have "unat (drop_bit k (word_of_nat n :: uint32)) = n div 2 ^ k"
      using assms by (subst unat_drop_bit_eq) (simp add: unsigned_of_nat take_bit_nat_eq_self drop_bit_eq_div)
    then show ?thesis by (simp only: word_unat_eq_iff unsigned_ucast_eq unsigned_of_nat) simp
  qed
  from this [of 0] this [of 8] this [of 16] this [of 24]
  show ?thesis unfolding le_bytes_htonl by (simp add: le_bytes_def upt_rec)
qed

lemma beheaded_length:
  assumes "n < 4096" and "k < 4096"
  shows "\<exists>t. le_bytes 4 (htonl (word_of_nat n)) @ le_bytes 4 (htonl (word_of_nat k)) @ bs
      = 0 # le_bytes 4 (htonl (word_of_nat (256 * n))) @ t \<and> length t = 3 + length bs"
proof -
  have "(256 * n) div 16777216 = 0" "(256 * n) div 65536 = n div 256" "n div 65536 = 0" "k div 16777216 = 0" "n div 16777216 = 0"
    using assms by auto
  moreover have "(word_of_nat (256 * n) :: byte) = 0" by (simp only: word_unat_eq_iff unsigned_of_nat take_bit_eq_mod) simp
  ultimately have "le_bytes 4 (htonl (word_of_nat n)) @ le_bytes 4 (htonl (word_of_nat k)) @ bs
      = 0 # le_bytes 4 (htonl (word_of_nat (256 * n))) @ [word_of_nat (k div 65536), word_of_nat (k div 256), word_of_nat k] @ bs"
    using assms by (subst (1 2 3) header_bytes) simp_all
  then show ?thesis by (intro exI) (rule conjI, assumption, simp)
qed

lemma peekInt32_tailless:
  assumes "tailless m b (le_bytes 4 (htonl x) @ bs) F"
  shows "Buffer_peekInt32 b m = Inr x"
proof -
  obtain a c where c: "qhead b = Some a" "cells m a = Some c" "piece_ok c" "piece_bytes c = le_bytes 4 (htonl x) @ bs"
    "blength b = 4 + length bs"
    using assms by (auto simp: tailless_def cell_ok_iff cell_bytes_def split: option.splits)
  have l: "unat (len c) = 4 + length bs" using length_piece_bytes [OF c(3)] c(4) by simp
  have "copy_out c (unat (off c)) 4 = Inr (take 4 (piece_bytes c))"
    using c(3) l by (simp add: copy_out_ok piece_ok_def piece_bytes_def min_def)
  then have "Buffer_peek 4 b m = Inr (le_bytes 4 (htonl x))"
    using c l by (simp add: Buffer_peek_def Buffer_length_def Queue_front_def mem_simps poke_def)
  then show ?thesis using c(5) by (simp add: Buffer_peekInt32_def Buffer_length_def)
qed

lemma onMessage_loop_tailless:
  assumes "tailless m b (le_bytes 4 (htonl x) @ t) F"
    and "10 \<le> sint x" and "sint x \<le> 67108864" and "int (length t) < sint x"
  shows "onMessage_loop (Suc fuel) api mcb ecb b m w = Inr (b, m, w)"
proof -
  have "Buffer_length b = 4 + length t" using assms(1) by (simp add: tailless_def Buffer_length_def)
  then show ?thesis using peekInt32_tailless [OF assms(1)] assms(2-4) by (simp add: codec_consts)
qed

lemma Buffer_skip_lone:
  assumes "lone m b bs F" and "0 < n" and "n < length bs"
  shows "\<exists>b' m'. Buffer_skip n b m = Inr (b', m') \<and> lone m' b' (drop n bs) F \<and> frame m m' F"
proof -
  obtain a where "bchain m b [a] F" using assms(1) by (auto simp: lone_def)
  then show ?thesis using Buffer_read_lone [OF assms] Buffer_skip_read by blast
qed

lemma onMessage_lone_parse:
  assumes b: "lone m b (le_bytes 4 (htonl x) @ bs) F"
    and good: "10 \<le> sint x" "sint x \<le> 67108864" and full: "sint x \<le> int (length bs)"
  shows "\<exists>b1 m1. lone m1 b1 bs F \<and> frame m m1 F \<and>
     onMessage api mcb ecb b m w =
       rbind (parse api (sint x) kNoError b1 m1) (\<lambda>(errorCode, message, b2, m2).
         if errorCode = kNoError \<and> message \<noteq> None
         then rbind (mcb (the message) m2 w) (\<lambda>(m3, w1). onMessage_loop (Buffer_length b) api mcb ecb b2 m3 w1)
         else ecb errorCode b2 m2 w)"
proof -
  have d: "dense m b (le_bytes 4 (htonl x) @ bs) F" "front_has 4 m b"
    using lone_dense [OF b] lone_front [OF b] by (simp_all add: le_bytes_ne)
  obtain b1 m1 where s: "Buffer_skip 4 b m = Inr (b1, m1)" "lone m1 b1 bs F" "frame m m1 F"
    using Buffer_skip_lone [OF b, of 4] good full by (cases bs) auto
  then show ?thesis
    using Buffer_peekInt32_dense [OF d] dense_length [OF d(1)] good full unfolding onMessage_def
    by (intro exI [of _ b1] exI [of _ m1]) (simp only: onMessage_loop.simps codec_consts, simp)
qed

lemma lone_fits: "lone m b bs F \<Longrightarrow> length bs \<le> kPieceCapacity"
  using bchain_cell by (fastforce simp: lone_def cell_bytes_def piece_ok_def)

text \<open>The loop on the rest of a frame that has lost its first byte: it waits for bytes that never come.\<close>

lemma onMessage_loop_beheaded:
  assumes "tailless m b (tl (frame_bytes api msg)) F" and "length (frame_bytes api msg) \<le> kPieceCapacity"
  shows "onMessage_loop (Suc fuel) api mcb ecb b m w = Inr (b, m, w)"
proof (cases "length (payload api msg) < 11")
  case True
  then have "Buffer_length b < 14" using assms(1) by (simp add: tailless_def Buffer_length_def length_frame_bytes)
  then show ?thesis by (rule onMessage_loop_short)
next
  case False
  let ?n = "length (payload api msg)" and ?k = "length (GetTypeName api msg) + 1"
  let ?bs = "GetTypeName api msg @ [0] @ concat (raw_writes api msg)"
  have f: "frame_bytes api msg = le_bytes 4 (htonl (word_of_nat ?n)) @ le_bytes 4 (htonl (word_of_nat ?k)) @ ?bs"
    by (simp add: frame_bytes_def payload_def)
  have lim: "?n < 4096" "?k < 4096" using assms(2) by (simp_all add: length_frame_bytes kPieceCapacity_def)
  obtain t where t: "frame_bytes api msg = 0 # le_bytes 4 (htonl (word_of_nat (256 * ?n))) @ t" "length t = 3 + length ?bs"
    using beheaded_length [OF lim, of ?bs] unfolding f by blast
  have "sint (word_of_nat (256 * ?n) :: uint32) = int (256 * ?n)" using lim by (intro sint_of_nat32) simp
  then show ?thesis
    using assms(1) t False lim by (intro onMessage_loop_tailless [where x = "word_of_nat (256 * ?n)" and t = t and F = F]) auto
qed

lemma frame_bytes_zero:
  assumes "length (frame_bytes api msg) \<le> kPieceCapacity"
  shows "frame_bytes api msg = 0 # tl (frame_bytes api msg)" and "tl (frame_bytes api msg) \<noteq> []"
proof -
  have "length (payload api msg) < 4096" using assms by (simp add: length_frame_bytes kPieceCapacity_def del: length_payload)
  then show "frame_bytes api msg = 0 # tl (frame_bytes api msg)" "tl (frame_bytes api msg) \<noteq> []"
    unfolding frame_bytes_def by (subst header_bytes; simp del: length_payload)+
qed

section \<open>An instance of the protobuf interface\<close>

text \<open>
  For the witnesses: messages are byte strings, all of the type \<open>t.Echo\<close>, serialised in one raw
  write; the parser reads chunks to the end of the stream.
\<close>

primrec collect_all :: "nat \<Rightarrow> byte list \<Rightarrow> (bool \<times> byte list) reader" where
  "collect_all 0 acc = More (\<lambda>c. case c of None \<Rightarrow> Done 0 (True, acc) | Some bs \<Rightarrow> Done (length bs) (False, acc))"
| "collect_all (Suc n) acc = More (\<lambda>c. case c of None \<Rightarrow> Done 0 (True, acc) | Some bs \<Rightarrow> collect_all n (acc @ bs))"

definition echo_name :: "byte list" where
  "echo_name = [116, 46, 69, 99, 104, 111]"

definition echo_api :: "(unit, byte list) protobuf_api" where
  "echo_api = \<lparr>FindMessageTypeByName = (\<lambda>n. if n = echo_name @ [0] then Some () else None),
     GetPrototype = (\<lambda>_. Some []), New = (\<lambda>p. p), GetTypeName = (\<lambda>_. echo_name),
     raw_writes = (\<lambda>msg. [msg]), parser = (\<lambda>_. collect_all 100 [])\<rparr>"

text \<open>A callback that records what it is given.\<close>

definition record_message :: "(byte list, byte list list) message_callback" where
  "record_message msg m w = Inr (m, w @ [msg])"

definition record_error :: "byte list list error_callback" where
  "record_error code b m w = Inr (b, m, w @ [[42]])"

lemma collect_all_feed:
  "\<forall>c \<in> set css. c \<noteq> [] \<Longrightarrow> length css \<le> n \<Longrightarrow>
   tame (collect_all n acc) cur css \<and> feed (collect_all n acc) cur css = ((True, acc @ concat css), [], [])"
proof (induction n arbitrary: acc cur css)
  case 0
  then show ?case by simp
next
  case (Suc n)
  then show ?case by (cases css) simp_all
qed

lemma length_nonempty_le: "\<forall>c \<in> set css. c \<noteq> [] \<Longrightarrow> length css \<le> length (concat css)"
proof (induction css)
  case (Cons c css)
  then show ?case by (cases c) auto
qed simp

lemma collect_reads_all:
  assumes "length bs \<le> n"
  shows "reads_all (collect_all n []) bs (True, bs)"
  unfolding reads_all_def
proof (intro allI impI)
  fix css :: "byte list list" assume css: "(\<forall>c \<in> set css. c \<noteq> []) \<and> concat css = bs"
  then have "length css \<le> n" using length_nonempty_le [of css] assms by auto
  then show "tame (collect_all n []) [] css \<and> feed (collect_all n []) [] css = ((True, bs), [], [])"
    using collect_all_feed [of css n "[]" "[]"] css by auto
qed

lemma echo_fields: "GetTypeName echo_api msg = echo_name" "raw_writes echo_api msg = [msg]"
    "parser echo_api p = collect_all 100 []" "createMessage echo_api (echo_name @ [0]) = Some []"
    "length echo_name = 6" "length (frame_bytes echo_api msg) = 15 + length msg"
  by (simp_all add: echo_api_def createMessage_def echo_name_def frame_bytes_def)

text \<open>A buffer that carries given bytes in one piece.\<close>

definition one_piece_mem :: "byte list \<Rightarrow> mem" where
  "one_piece_mem bs = mem_start\<lparr>brk := 1, cells := (\<lambda>_. None)(0 \<mapsto>
     \<lparr>nxt = None, off = 0, len = word_of_nat (length bs), data = bs @ replicate (kPieceCapacity - length bs) 0\<rparr>)\<rparr>"

definition one_piece_buf :: "byte list \<Rightarrow> buffer" where
  "one_piece_buf bs = \<lparr>qhead = Some 0, qtail = Some 0, qsize = 1, blength = length bs\<rparr>"

lemma one_piece_chain:
  assumes "bs \<noteq> []" and "length bs \<le> kPieceCapacity"
  shows "bchain (one_piece_mem bs) (one_piece_buf bs) [0] {}" and "cell_bytes (cells (one_piece_mem bs)) 0 = bs"
proof -
  let ?m = "one_piece_mem bs" and ?b = "one_piece_buf bs"
  have l: "unat (word_of_nat (length bs) :: uint16) = length bs"
    using assms(2) by (simp add: kPieceCapacity_def)
  have bytes: "cell_bytes (cells ?m) 0 = bs"
    using l by (simp add: one_piece_mem_def cell_bytes_def piece_bytes_def)
  have "cache_rep ?m {0} []"
    using assms(2) by (auto simp: cache_rep_def one_piece_mem_def mem_start_def PiecePool_new_def full_size_def)
  then show "bchain ?m ?b [0] {}"
    using assms(2) l by (auto simp: bchain_def mem_inv_def queue_rep_def one_piece_buf_def one_piece_mem_def cell_ok_def piece_ok_def)
  show "cell_bytes (cells ?m) 0 = bs" using bytes .
qed

lemma one_piece_lone:
  assumes "bs \<noteq> []" and "length bs \<le> kPieceCapacity"
  shows "lone (one_piece_mem bs) (one_piece_buf bs) bs {}"
  using one_piece_chain [OF assms] by (auto simp: lone_def one_piece_buf_def)

lemma one_piece_dense:
  assumes "bs \<noteq> []" and "length bs \<le> kPieceCapacity"
  shows "dense (one_piece_mem bs) (one_piece_buf bs) bs {}"
    and "n \<le> length bs \<Longrightarrow> front_has n (one_piece_mem bs) (one_piece_buf bs)"
  using lone_dense [OF one_piece_lone [OF assms] assms(1)] lone_front [OF one_piece_lone [OF assms]] by simp_all

section \<open>Properties\<close>

text \<open>
  C20. \<open>fillEmptyBuffer\<close> turns an empty buffer into exactly one frame: the length header, the name
  length with the zero counted, the name, the zero and the serialised message, whatever their sizes
  (across any number of pieces), unless the message has no bytes and the name fills the first
  piece.
\<close>

theorem fillEmptyBuffer_frame:
  assumes "mem_inv m F" and "length (GetTypeName api msg) + 1 < 2 ^ 32"
    and "length (concat (raw_writes api msg)) \<le> 2147483647"
    and "concat (raw_writes api msg) \<noteq> [] \<or> length (GetTypeName api msg) + 9 < kPieceCapacity"
  shows "\<exists>b m'. fillEmptyBuffer api msg Buffer_new m = Inr (b, m') \<and> holds m' b (frame_bytes api msg) F \<and> frame m m' F"
  using fillEmptyBuffer_ok [OF assms] holds_reserve_holds by blast

theorem fillEmptyBuffer_frame_witness:
  "\<exists>b m'. fillEmptyBuffer echo_api [5, 6] Buffer_new mem_start = Inr (b, m')
    \<and> holds m' b ([0, 0, 0, 13, 0, 0, 0, 7] @ echo_name @ [0, 5, 6]) {}"
proof -
  have "frame_bytes echo_api [5, 6] = [0, 0, 0, 13, 0, 0, 0, 7] @ echo_name @ [0, 5, 6]"
    by (simp add: frame_bytes_def payload_def echo_api_def echo_name_def le_bytes_htonl)
      (simp add: le_bytes_def upt_rec)
  moreover have "GetTypeName echo_api [5, 6] = echo_name" "raw_writes echo_api [5, 6] = [[5, 6]]"
    "length echo_name + 9 < kPieceCapacity"
    by (simp_all add: echo_api_def echo_name_def kPieceCapacity_def)
  ultimately show ?thesis
    using fillEmptyBuffer_frame [OF mem_inv_start, of echo_api "[5, 6]"] by (auto simp: kPieceCapacity_def)
qed

text \<open>
  C1. A frame the codec accepts comes back as the message it was made of. The conditions are all
  needed: the buffer carries exactly the frame of \<open>msg\<close> and nothing behind it (two frames in one piece break
  the connection, as shown below), in any
  pieces of which none is empty, with the whole length header in the first one (\<open>peekInt32\<close> of a
  header that straddles two pieces writes out of bounds); the payload has at least ten bytes (a shorter one, which \<open>send\<close> does
  produce, is never delivered: \<open>short_frame_not_delivered\<close>) and at most 64 MiB; and protobuf finds
  the type and parses exactly these bytes back to \<open>msg\<close>, reading them all. Then \<open>onMessage\<close> is the
  call of the message callback with \<open>msg\<close>, once, on memory in which no one else's piece has
  changed; what the callback returns is the result, and the buffer is empty.
\<close>

theorem codec_roundtrip:
  assumes "dense m b (frame_bytes api msg) F" and "front_has 4 m b"
    and "10 \<le> length (payload api msg)" and "length (payload api msg) \<le> 67108864"
    and "createMessage api (GetTypeName api msg @ [0]) = Some p"
    and "reads_all (parser api p) (concat (raw_writes api msg)) (ok, msg)"
  shows "\<exists>m1. mem_inv m1 F \<and> frame m m1 F
    \<and> onMessage api mcb ecb b m w = rbind (mcb msg m1 w) (\<lambda>(m2, w2). Inr (Buffer_new, m2, w2))"
  using onMessage_frame [of m b api msg "[]" F p ok msg mcb ecb w] assms by simp

theorem codec_roundtrip_witness:
  "let f = frame_bytes echo_api [5, 6] in
   \<exists>m'. onMessage echo_api record_message record_error (one_piece_buf f) (one_piece_mem f) [] = Inr (Buffer_new, m', [[5, 6]])"
proof -
  let ?f = "frame_bytes echo_api [5, 6]"
  have l: "length ?f = 17" by (simp add: echo_fields)
  then have ne: "?f \<noteq> []" "length ?f \<le> kPieceCapacity" "4 \<le> length ?f" by (auto simp: kPieceCapacity_def)
  have "reads_all (parser echo_api []) (concat (raw_writes echo_api [5, 6])) (True, [5, 6])"
    using collect_reads_all [of "[5, 6]" 100] by (simp add: echo_fields del: collect_all.simps)
  then have "\<exists>m1. mem_inv m1 {} \<and> frame (one_piece_mem ?f) m1 {}
      \<and> onMessage echo_api record_message record_error (one_piece_buf ?f) (one_piece_mem ?f) []
         = rbind (record_message [5, 6] m1 []) (\<lambda>(m2, w2). Inr (Buffer_new, m2, w2))"
    using one_piece_dense [OF ne(1,2)] ne(3)
    by (intro codec_roundtrip [where ok = True and p = "[]"]) (simp_all add: echo_fields)
  then show ?thesis by (auto simp: record_message_def)
qed

text \<open>
  C29. An incomplete frame is left alone: when the whole length header is in the first piece of a
  buffer without empty pieces, announces a length within the limits (10 to 64 MiB), and fewer bytes
  than announced have arrived, \<open>onMessage\<close> calls no callback and leaves the buffer and the memory
  as they are. Outside these conditions it does not wait: a length out of the limits is
  reported, and \<open>peekInt32\<close> of a straddling header writes out of bounds.
\<close>

theorem onMessage_waits:
  assumes "dense m b (le_bytes 4 (htonl x) @ bs) F" and "front_has 4 m b"
    and "10 \<le> sint x" and "sint x \<le> 67108864" and "int (length bs) < sint x"
  shows "onMessage api mcb ecb b m w = Inr (b, m, w)"
  unfolding onMessage_def using assms by (rule onMessage_loop_waits)

theorem onMessage_waits_witness:
  "let f = [0, 0, 0, 20, 1, 2, 3, 4, 5, 6, 7, 8, 9, 10, 11] in
   onMessage echo_api record_message record_error (one_piece_buf f) (one_piece_mem f) [] =
     Inr (one_piece_buf f, one_piece_mem f, [])"
proof -
  let ?bs = "[1, 2, 3, 4, 5, 6, 7, 8, 9, 10, 11] :: byte list"
  let ?f = "[0, 0, 0, 20] @ ?bs"
  have h: "[0, 0, 0, 20] = le_bytes 4 (htonl 20)" unfolding le_bytes_htonl by (simp add: le_bytes_def upt_rec)
  have "dense (one_piece_mem ?f) (one_piece_buf ?f) (le_bytes 4 (htonl 20) @ ?bs) {}"
    unfolding h [symmetric] by (rule one_piece_dense) (simp_all add: kPieceCapacity_def)
  moreover have "front_has 4 (one_piece_mem ?f) (one_piece_buf ?f)"
    by (rule one_piece_dense) (simp_all add: kPieceCapacity_def)
  ultimately show ?thesis
    using onMessage_waits [of "one_piece_mem ?f" "one_piece_buf ?f" 20 ?bs "{}" echo_api record_message record_error "[]"]
    by simp
qed

text \<open>
  C28. What \<open>onMessage\<close> reports, on a buffer of at least 14 bytes without empty pieces whose whole
  length header is in the first piece. A length outside 10 to 64 MiB gives \<open>kInvalidLength\<close> with the
  buffer untouched. When a length within the limits has arrived completely: a name length that is
  not positive gives \<open>kInvalidNameLen\<close>, a name length beyond all the buffered bytes \<open>kParseError\<close>,
  and an unknown type \<open>kUnknownMessageType\<close>. In these cases the error callback is called last, once,
  with the bytes that follow what has been read, and no message callback is called. These are the
  only reports: a name that runs past its frame but not past the buffer, and a body that does not
  parse (\<open>unparsable_body_delivered\<close>), are not reported.
\<close>

theorem onMessage_rejects:
  assumes "dense m b (le_bytes 4 (htonl x) @ le_bytes 4 (htonl nl) @ bs) F" and "front_has 4 m b"
    and "6 \<le> length bs"
  shows "(sint x < 10 \<or> 67108864 < sint x \<longrightarrow> onMessage api mcb ecb b m w = ecb kInvalidLength b m w)
    \<and> (10 \<le> sint x \<and> sint x \<le> 67108864 \<and> sint x \<le> 4 + int (length bs) \<and> parse_error api nl bs = Some code \<longrightarrow>
        (\<exists>b' m'. onMessage api mcb ecb b m w = ecb code b' m' w \<and> frame m m' F
          \<and> dense m' b' (if code = kUnknownMessageType then drop (nat (sint nl)) bs else bs) F))"
  using onMessage_malformed [OF assms(1,2), of api code mcb ecb w] onMessage_loop_bad_length [OF assms(1,2), of "Buffer_length b" api mcb ecb w] assms(3)
  unfolding onMessage_def [symmetric] by auto

theorem onMessage_rejects_witness:
  "let f = [0, 0, 0, 10, 0, 0, 0, 2, 65, 0, 3, 4, 5, 6] in
   \<exists>b' m'. onMessage echo_api record_message record_error (one_piece_buf f) (one_piece_mem f) [] = Inr (b', m', [[42]])
     \<and> dense m' b' [3, 4, 5, 6] {}"
proof -
  let ?bs = "[65, 0, 3, 4, 5, 6] :: byte list"
  let ?f = "[0, 0, 0, 10] @ [0, 0, 0, 2] @ ?bs"
  have h: "[0, 0, 0, 10] = le_bytes 4 (htonl 10)" "[0, 0, 0, 2] = le_bytes 4 (htonl 2)"
    unfolding le_bytes_htonl by (simp_all add: le_bytes_def upt_rec)
  have d: "dense (one_piece_mem ?f) (one_piece_buf ?f) (le_bytes 4 (htonl 10) @ le_bytes 4 (htonl 2) @ ?bs) {}"
    unfolding h [symmetric] by (rule one_piece_dense) (simp_all add: kPieceCapacity_def)
  have f: "front_has 4 (one_piece_mem ?f) (one_piece_buf ?f)"
    by (rule one_piece_dense) (simp_all add: kPieceCapacity_def)
  have "parse_error echo_api 2 ?bs = Some kUnknownMessageType"
    by (simp add: parse_error_def createMessage_def echo_api_def echo_name_def)
  then have "\<exists>b' m'. onMessage echo_api record_message record_error (one_piece_buf ?f) (one_piece_mem ?f) []
        = record_error kUnknownMessageType b' m' [] \<and> dense m' b' (drop (nat (sint (2 :: uint32))) ?bs) {}"
    using onMessage_rejects [OF d f, of echo_api record_message record_error "[]" kUnknownMessageType] by auto
  then show ?thesis by (auto simp: record_error_def)
qed

text \<open>
  \<open>parse\<close> does not look at the result of \<open>ParseFromZeroCopyStream\<close>: a body the parser rejects is delivered all the same, as
  the message the parser has left, with no error.
\<close>

lemma unparsable_body_delivered:
  assumes "dense m b (frame_bytes api msg) F" and "front_has 4 m b"
    and "10 \<le> length (payload api msg)" and "length (payload api msg) \<le> 67108864"
    and "createMessage api (GetTypeName api msg @ [0]) = Some p"
    and "reads_all (parser api p) (concat (raw_writes api msg)) (False, left_over)"
  shows "\<exists>m1. mem_inv m1 F \<and> frame m m1 F
    \<and> onMessage api mcb ecb b m w = rbind (mcb left_over m1 w) (\<lambda>(m2, w2). Inr (Buffer_new, m2, w2))"
  using onMessage_frame [of m b api msg "[]" F p False left_over mcb ecb w] assms by simp

text \<open>
  C32. Two frames that arrive in one piece break the connection. \<open>parse\<close> runs the parser on
  everything that is buffered, not on the frame, and protobuf's parser ends a message at the zero
  byte the next length header starts with: the first message is delivered (the failed parse is not
  looked at), but the second frame has lost its first byte and is put back into a queue without a
  tail. \<open>onMessage\<close> then returns (when the callback leaves the input buffer alone) and waits for
  256 times the length of the second message, which is not delivered; and appending the next piece
  that is received fails the assertion in \<open>Queue::push\<close>, whatever has happened in between.
\<close>

theorem coalesced_frames_break:
  assumes "lone m b (frame_bytes api msg @ frame_bytes api next) F"
    and "10 \<le> length (payload api msg)"
    and "createMessage api (GetTypeName api msg @ [0]) = Some p"
    and "stops_at_zero (parser api p) (concat (raw_writes api msg)) (tl (frame_bytes api next)) (ok, msg)"
  shows "\<exists>b1 m1. tailless m1 b1 (tl (frame_bytes api next)) F \<and> mem_inv m1 F \<and> frame m m1 F
    \<and> (\<forall>m2 w2. mcb msg m1 w = Inr (m2, w2) \<and> tailless m2 b1 (tl (frame_bytes api next)) F \<longrightarrow>
          onMessage api mcb ecb b m w = Inr (b1, m2, w2))
    \<and> (\<forall>m3 x c. cells m3 x = Some c \<and> 0 < unat (len c) \<longrightarrow> InputBuffer_writePiece (Some x) b1 m3 = Inl AssertFailed)"
proof -
  let ?name = "GetTypeName api msg @ [0]" and ?body = "concat (raw_writes api msg)" and ?rest = "tl (frame_bytes api next)"
  let ?x = "word_of_nat (length (payload api msg)) :: uint32" and ?nl = "word_of_nat (length ?name) :: uint32"
  have fits: "length (payload api msg) + length (frame_bytes api next) \<le> 4092"
    using lone_fits [OF assms(1)] by (simp add: length_frame_bytes kPieceCapacity_def)
  have x: "sint ?x = int (length (payload api msg))" using fits by (intro sint_of_nat32) simp
  have nl: "sint ?nl = int (length ?name)" using fits by (intro sint_of_nat32) simp
  have small: "length (frame_bytes api next) \<le> kPieceCapacity" using fits by (simp add: kPieceCapacity_def)
  have "frame_bytes api msg @ frame_bytes api next
      = le_bytes 4 (htonl ?x) @ le_bytes 4 (htonl ?nl) @ ?name @ ?body @ 0 # ?rest"
    by (subst frame_bytes_zero(1) [OF small]) (simp add: frame_bytes_def payload_def)
  then have b: "lone m b (le_bytes 4 (htonl ?x) @ le_bytes 4 (htonl ?nl) @ ?name @ ?body @ 0 # ?rest) F"
    using assms(1) by simp
  have good: "10 \<le> sint ?x" "sint ?x \<le> 67108864"
    "sint ?x \<le> int (length (le_bytes 4 (htonl ?nl) @ ?name @ ?body @ 0 # ?rest))"
    using x assms(2) fits by simp_all
  obtain b0 m0 where s: "lone m0 b0 (le_bytes 4 (htonl ?nl) @ ?name @ ?body @ 0 # ?rest) F" "frame m m0 F"
    "onMessage api mcb ecb b m w =
       rbind (parse api (sint ?x) kNoError b0 m0) (\<lambda>(errorCode, message, b2, m2).
         if errorCode = kNoError \<and> message \<noteq> None
         then rbind (mcb (the message) m2 w) (\<lambda>(m3, w1). onMessage_loop (Buffer_length b) api mcb ecb b2 m3 w1)
         else ecb errorCode b2 m2 w)"
    using onMessage_lone_parse [OF b good, of api mcb ecb w] by (elim exE conjE) (rule that)
  obtain b1 m1 where q: "parse api (sint ?x) kNoError b0 m0 = Inr (kNoError, Some msg, b1, m1)"
    "tailless m1 b1 ?rest F" "mem_inv m1 F" "frame m0 m1 F"
    using parse_stops_at_zero [OF s(1) frame_bytes_zero(2) [OF small] nl _ assms(3,4), of "sint ?x" kNoError] by auto
  obtain k where k: "Buffer_length b = Suc k" using dense_length [OF lone_dense [OF b]] by simp
  have "onMessage api mcb ecb b m w = Inr (b1, m2, w2)" if "mcb msg m1 w = Inr (m2, w2)" "tailless m2 b1 ?rest F" for m2 w2
    using s(3) q(1) that onMessage_loop_beheaded [OF that(2) small] by (simp add: k del: onMessage_loop.simps)
  moreover have "InputBuffer_writePiece (Some y) b1 m3 = Inl AssertFailed" if "cells m3 y = Some c" "0 < unat (len c)" for m3 y c
    using writePiece_without_tail [OF that] q(2) by (auto simp: tailless_def split: option.splits)
  ultimately show ?thesis using q(2,3) frame_trans [OF s(2) q(4)] by blast
qed

text \<open>A parser that ends at a zero byte, as \<open>CodedInputStream::ReadTag\<close> does, for messages without one.\<close>

definition zero_stop :: "(bool \<times> byte list) reader" where
  "zero_stop = More (\<lambda>c. case c of None \<Rightarrow> Done 0 (True, [])
     | Some bs \<Rightarrow> (let body = takeWhile (\<lambda>x. x \<noteq> 0) bs in Done (length bs - length body - 1) (body = bs, body)))"

definition tag_api :: "(unit, byte list) protobuf_api" where
  "tag_api = echo_api\<lparr>parser := (\<lambda>_. zero_stop)\<rparr>"

theorem coalesced_frames_break_witness:
  "let bs = frame_bytes tag_api [5, 6] @ frame_bytes tag_api [7] in
   \<exists>b1 m1. onMessage tag_api record_message record_error (one_piece_buf bs) (one_piece_mem bs) [] = Inr (b1, m1, [[5, 6]])
    \<and> Buffer_length b1 = 15
    \<and> (\<forall>m3 x c. cells m3 x = Some c \<and> 0 < unat (len c) \<longrightarrow> InputBuffer_writePiece (Some x) b1 m3 = Inl AssertFailed)"
proof -
  let ?f = "frame_bytes tag_api [5, 6]" and ?g = "frame_bytes tag_api [7]"
  let ?m = "one_piece_mem (?f @ ?g)" and ?b = "one_piece_buf (?f @ ?g)"
  have api: "GetTypeName tag_api msg = echo_name" "raw_writes tag_api msg = [msg]" "parser tag_api p = zero_stop"
    "createMessage tag_api (echo_name @ [0]) = Some []" for msg p
    by (simp_all add: tag_api_def echo_api_def createMessage_def)
  have l: "length ?f = 17" "length ?g = 16" by (simp_all add: length_frame_bytes api echo_fields)
  have b: "lone ?m ?b (?f @ ?g) {}" using l by (intro one_piece_lone) (auto simp: kPieceCapacity_def)
  have "stops_at_zero (parser tag_api []) (concat (raw_writes tag_api [5, 6])) (tl ?g) (False, [5, 6])"
    by (simp add: stops_at_zero_def api zero_stop_def)
  then obtain b1 m1 where "tailless m1 b1 (tl ?g) {}"
    "\<And>m2 w2. record_message [5, 6] m1 [] = Inr (m2, w2) \<Longrightarrow> tailless m2 b1 (tl ?g) {} \<Longrightarrow>
       onMessage tag_api record_message record_error ?b ?m [] = Inr (b1, m2, w2)"
    "\<forall>m3 x c. cells m3 x = Some c \<and> 0 < unat (len c) \<longrightarrow> InputBuffer_writePiece (Some x) b1 m3 = Inl AssertFailed"
    using coalesced_frames_break [OF b, of "[]" False record_message "[]" record_error] by (auto simp: api echo_fields)
  then show ?thesis using l(2) by (auto simp: record_message_def tailless_def Buffer_length_def)
qed

text \<open>
  A frame with a payload of fewer than ten bytes is produced by \<open>fillEmptyBuffer\<close> (a short type
  name and few bytes of data) but never delivered by \<open>onMessage\<close>: it waits as long as the buffer has
  fewer than fourteen bytes, and then reports \<open>kInvalidLength\<close>.
\<close>

theorem short_frame_not_delivered:
  assumes "dense m b (frame_bytes api msg @ extra) F" and "front_has 4 m b" and "length (payload api msg) < 10"
  shows "onMessage api mcb ecb b m w =
    (if length (payload api msg) + length extra < 10 then Inr (b, m, w) else ecb kInvalidLength b m w)"
proof -
  let ?x = "word_of_nat (length (payload api msg)) :: uint32"
  have b: "dense m b (le_bytes 4 (htonl ?x) @ payload api msg @ extra) F"
    using assms(1) by (simp add: frame_bytes_def)
  have x: "sint ?x < 10" using assms(3) by (subst sint_of_nat32) simp_all
  show ?thesis
  proof (cases "length (payload api msg) + length extra < 10")
    case True
    then have "Buffer_length b < 14" using dense_length [OF b] by simp
    then show ?thesis using True onMessage_loop_short unfolding onMessage_def by metis
  next
    case False
    then show ?thesis unfolding onMessage_def
      using x by (subst onMessage_loop_bad_length [OF b assms(2)]) auto
  qed
qed

text \<open>The same interface with the type name \<open>Ping\<close>.\<close>

definition ping_api :: "(unit, byte list) protobuf_api" where
  "ping_api = echo_api\<lparr>GetTypeName := (\<lambda>_. [80, 105, 110, 103])\<rparr>"

theorem short_frame_not_delivered_witness:
  "let f = frame_bytes ping_api [] in length (payload ping_api []) = 9 \<and>
   onMessage ping_api record_message record_error (one_piece_buf f) (one_piece_mem f) [] =
     Inr (one_piece_buf f, one_piece_mem f, [])"
proof -
  let ?f = "frame_bytes ping_api []"
  have p: "length (payload ping_api []) = 9" by (simp add: ping_api_def echo_api_def)
  then have l: "length ?f = 13" by (simp add: frame_bytes_def del: length_payload)
  then have ne: "?f \<noteq> []" "length ?f \<le> kPieceCapacity" "4 \<le> length ?f" by (auto simp: kPieceCapacity_def)
  have d: "dense (one_piece_mem ?f) (one_piece_buf ?f) (?f @ []) {}" "front_has 4 (one_piece_mem ?f) (one_piece_buf ?f)"
    using one_piece_dense [OF ne(1,2)] ne(3) by simp_all
  show ?thesis
    using short_frame_not_delivered [OF d, of record_message record_error "[]"] p by (simp del: length_payload)
qed

end
