(* ===== verification/Tcp_Conn.thy ===== *)
theory Tcp_Conn
  imports Codec
begin

text \<open>
  The connection of \<^verbatim>\<open>src/netpp/net/tcp_conn.h\<close> and \<^verbatim>\<open>src/netpp/net/tcp_conn.cpp\<close>.

  The asynchronous operations of boost::asio are requests: a handler that starts one adds it to
  the list \<open>pending\<close> of the world, and the environment completes pending requests in any order and
  with any error code. Handlers of one connection run one at a time, in its loop thread. User
  callbacks are parameters; what they may do to the connection is what its public methods do.

  A world has the connection, the memory with the pieces, the pending requests, the trace of calls
  of the callbacks and the user's own state.
\<close>

section \<open>Data\<close>

datatype StateE = kConnected | kDisconnecting | kDisconnected

text \<open>An error code is none, \<open>operation_aborted\<close> or any other one.\<close>

datatype error_code = Success | operation_aborted | Failure

text \<open>
  Pending completions: of \<open>async_send\<close> and \<open>async_read_some\<close> with their piece, and the tasks the
  connection has queued in the loop: \<open>sendInLoop\<close> from another thread, \<open>handleClose\<close> from \<open>close\<close>,
  and \<open>handleClose\<close> from the timer of \<open>closeWithDelay\<close>.
\<close>

datatype request = AsyncSend addr | AsyncRead addr | SendTask "addr option" | CloseTask | DelayTimer

datatype conn_call = ConnectionCb StateE | MessageCb | CloseCb

text \<open>
  A socket is null, or an object that is open or not; \<open>endpoints\<close> are its local and its remote address.
  The context is a \<open>boost::any\<close>, empty or with a value of the user, which is opaque here.
\<close>

record tcp_conn =
  conn_id :: uint64
  status :: StateE
  is_sending :: bool
  socket :: "bool option"
  endpoints :: "nat \<times> nat"
  local_addr :: nat
  remote_addr :: nat
  output_buffer :: buffer
  input_buffer :: buffer
  any_context :: "nat option"
  delay_close_timer :: bool

record 'u world =
  conn :: tcp_conn
  cmem :: mem
  pending :: "request list"
  calls :: "conn_call list"
  user :: 'u

type_synonym 'u callback = "'u world \<Rightarrow> error + 'u world"

record 'u conn_callbacks =
  connection_cb :: "'u callback"
  message_cb :: "'u callback"
  close_cb :: "'u callback"

definition TCPConn_new :: "uint64 \<Rightarrow> nat \<times> nat \<Rightarrow> tcp_conn" where
  "TCPConn_new i eps = \<lparr>conn_id = i, status = kDisconnected, is_sending = False, socket = Some True, endpoints = eps,
     local_addr = 0, remote_addr = 0, output_buffer = Buffer_new, input_buffer = Buffer_new, any_context = None,
     delay_close_timer = False\<rparr>"

definition TCPConn_id :: "tcp_conn \<Rightarrow> uint64" where
  "TCPConn_id c = conn_id c"

definition setState :: "StateE \<Rightarrow> tcp_conn \<Rightarrow> tcp_conn" where
  "setState s c = c\<lparr>status := s\<rparr>"

definition localAddress :: "tcp_conn \<Rightarrow> nat" where
  "localAddress c = local_addr c"

definition remoteAddress :: "tcp_conn \<Rightarrow> nat" where
  "remoteAddress c = remote_addr c"

definition setContext :: "nat option \<Rightarrow> tcp_conn \<Rightarrow> tcp_conn" where
  "setContext x c = c\<lparr>any_context := x\<rparr>"

definition getContext :: "tcp_conn \<Rightarrow> nat option" where
  "getContext c = any_context c"

text \<open>\<open>getMutableContext\<close> gives the user a pointer to the context: any change through it.\<close>

definition getMutableContext :: "(nat option \<Rightarrow> nat option) \<Rightarrow> tcp_conn \<Rightarrow> tcp_conn" where
  "getMutableContext f c = c\<lparr>any_context := f (any_context c)\<rparr>"

definition TCPConn_setConnectionCallback :: "'u callback \<Rightarrow> 'u conn_callbacks \<Rightarrow> 'u conn_callbacks" where
  "TCPConn_setConnectionCallback cb c = c\<lparr>connection_cb := cb\<rparr>"

definition TCPConn_setMessageCallback :: "'u callback \<Rightarrow> 'u conn_callbacks \<Rightarrow> 'u conn_callbacks" where
  "TCPConn_setMessageCallback cb c = c\<lparr>message_cb := cb\<rparr>"

definition TCPConn_setCloseCallback :: "'u callback \<Rightarrow> 'u conn_callbacks \<Rightarrow> 'u conn_callbacks" where
  "TCPConn_setCloseCallback cb c = c\<lparr>close_cb := cb\<rparr>"

definition upd_conn :: "(tcp_conn \<Rightarrow> tcp_conn) \<Rightarrow> 'u world \<Rightarrow> 'u world" where
  "upd_conn f s = s\<lparr>conn := f (conn s)\<rparr>"

definition request :: "request \<Rightarrow> 'u world \<Rightarrow> 'u world" where
  "request r s = s\<lparr>pending := pending s @ [r]\<rparr>"

definition call :: "conn_call \<Rightarrow> 'u callback \<Rightarrow> 'u callback" where
  "call c f s = f (s\<lparr>calls := calls s @ [c]\<rparr>)"

definition isConnected :: "tcp_conn \<Rightarrow> bool" where
  "isConnected c = (status c = kConnected)"

definition isDisconnecting :: "tcp_conn \<Rightarrow> bool" where
  "isDisconnecting c = (status c = kDisconnecting)"

definition isDisconnected :: "tcp_conn \<Rightarrow> bool" where
  "isDisconnected c = (status c = kDisconnected)"

section \<open>Sending\<close>

text \<open>\<open>socket_->async_send(buffer(piece->data + piece->off, piece->len), ...)\<close>\<close>

definition async_send :: "addr option \<Rightarrow> 'u world \<Rightarrow> error + 'u world" where
  "async_send piece s =
     rbind (mderef piece (cmem s)) (\<lambda>_.
     case socket (conn s) of
       None \<Rightarrow> Inl NullDeref
     | Some _ \<Rightarrow> Inr (request (AsyncSend (the piece)) s))"

definition sendInLoop :: "addr option \<Rightarrow> 'u world \<Rightarrow> error + 'u world" where
  "sendInLoop queue_head s =
     rbind (OutputBuffer_writePieceQueue queue_head (output_buffer (conn s)) (cmem s)) (\<lambda>(b, m).
     let s1 = upd_conn (output_buffer_update (\<lambda>_. b)) (s\<lparr>cmem := m\<rparr>) in
     if \<not> is_sending (conn s1)
     then rbind (OutputBuffer_readPiece b m) (\<lambda>(piece, b1, m1).
          async_send piece (upd_conn (\<lambda>c. c\<lparr>is_sending := True, output_buffer := b1\<rparr>) (s1\<lparr>cmem := m1\<rparr>)))
     else Inr s1)"

definition TCPConn_send_buffer :: "bool \<Rightarrow> buffer \<Rightarrow> 'u world \<Rightarrow> error + (buffer \<times> 'u world)" where
  "TCPConn_send_buffer in_loop buf s =
     (if status (conn s) \<noteq> kConnected \<or> Buffer_length buf = 0 then Inr (buf, s)
      else let (queue_head, buf1) = Buffer_moveToQueueHead buf in
           if in_loop then rbind (sendInLoop queue_head s) (\<lambda>s1. Inr (buf1, s1))
           else Inr (buf1, request (SendTask queue_head) s))"

text \<open>\<open>send(data, len)\<close>: the local buffer is moved out, so its destructor finds nothing to delete.\<close>

definition TCPConn_send :: "bool \<Rightarrow> byte list \<Rightarrow> 'u world \<Rightarrow> error + 'u world" where
  "TCPConn_send in_loop d s =
     (if status (conn s) \<noteq> kConnected \<or> d = [] then Inr s
      else rbind (Buffer_write d Buffer_new (cmem s)) (\<lambda>(b, m).
           let (queue_head, b1) = Buffer_moveToQueueHead b; s1 = s\<lparr>cmem := m\<rparr> in
           rbind (if in_loop then sendInLoop queue_head s1 else Inr (request (SendTask queue_head) s1)) (\<lambda>s2.
           rbind (Buffer_clear b1 (cmem s2)) (\<lambda>(_, m2). Inr (s2\<lparr>cmem := m2\<rparr>)))))"

text \<open>\<open>send(const std::string&)\<close> sends the whole string, \<open>send(const char*)\<close> the bytes before the first zero.\<close>

definition TCPConn_send_string :: "bool \<Rightarrow> byte list \<Rightarrow> 'u world \<Rightarrow> error + 'u world" where
  "TCPConn_send_string in_loop d s = TCPConn_send in_loop d s"

definition TCPConn_send_cstr :: "bool \<Rightarrow> byte list \<Rightarrow> 'u world \<Rightarrow> error + 'u world" where
  "TCPConn_send_cstr in_loop p s = TCPConn_send in_loop (takeWhile (\<lambda>x. x \<noteq> 0) p) s"

definition launchWrite :: "'u world \<Rightarrow> error + 'u world" where
  "launchWrite s =
     (if Buffer_length (output_buffer (conn s)) > 0
      then rbind (OutputBuffer_readPiece (output_buffer (conn s)) (cmem s)) (\<lambda>(piece, b, m).
           async_send piece (upd_conn (\<lambda>c. c\<lparr>is_sending := True, output_buffer := b\<rparr>) (s\<lparr>cmem := m\<rparr>)))
      else Inr s)"

section \<open>Closing\<close>

definition handleClose :: "'u conn_callbacks \<Rightarrow> 'u world \<Rightarrow> error + 'u world" where
  "handleClose cbs s =
     rbind (cassert (status (conn s) = kDisconnecting)) (\<lambda>_.
     if status (conn s) \<noteq> kDisconnected
     then let s1 = upd_conn (delay_close_timer_update (\<lambda>_. False)) s in
          rbind (case socket (conn s1) of
                   None \<Rightarrow> Inr s1
                 | Some opened \<Rightarrow> rbind (cassert opened) (\<lambda>_. Inr (upd_conn (socket_update (\<lambda>_. None)) s1))) (\<lambda>s2.
          let s3 = upd_conn (status_update (\<lambda>_. kDisconnecting)) s2 in
          rbind (call (ConnectionCb kDisconnecting) (connection_cb cbs) s3) (\<lambda>s4.
          rbind (call CloseCb (close_cb cbs) s4) (\<lambda>s5.
          Inr (upd_conn (status_update (\<lambda>_. kDisconnected)) s5))))
     else Inr s)"

definition handleError :: "'u conn_callbacks \<Rightarrow> 'u world \<Rightarrow> error + 'u world" where
  "handleError cbs s =
     (if status (conn s) \<noteq> kDisconnected
      then handleClose cbs (upd_conn (status_update (\<lambda>_. kDisconnecting)) s)
      else Inr s)"

definition TCPConn_close :: "'u world \<Rightarrow> 'u world" where
  "TCPConn_close s =
     (if status (conn s) = kConnected
      then request CloseTask (upd_conn (status_update (\<lambda>_. kDisconnecting)) s)
      else s)"

definition closeWithDelay :: "'u world \<Rightarrow> 'u world" where
  "closeWithDelay s =
     (if status (conn s) = kConnected
      then request DelayTimer (upd_conn (\<lambda>c. c\<lparr>status := kDisconnecting, delay_close_timer := True\<rparr>) s)
      else s)"

section \<open>Completions\<close>

definition handleWrite :: "'u conn_callbacks \<Rightarrow> addr \<Rightarrow> error_code \<Rightarrow> 'u world \<Rightarrow> error + 'u world" where
  "handleWrite cbs piece ec s =
     (let s1 = upd_conn (is_sending_update (\<lambda>_. False)) s in
      rbind (deletePiece (Some piece) (cmem s1)) (\<lambda>m.
      let s2 = s1\<lparr>cmem := m\<rparr> in
      if ec = Success then launchWrite s2
      else if ec \<noteq> operation_aborted then handleError cbs s2
      else Inr s2))"

definition launchRead :: "'u world \<Rightarrow> error + 'u world" where
  "launchRead s =
     rbind (newPiece (cmem s)) (\<lambda>(piece, m).
     rbind (mderef piece m) (\<lambda>_.
     case socket (conn s) of
       None \<Rightarrow> Inl NullDeref
     | Some _ \<Rightarrow> Inr (request (AsyncRead (the piece)) (s\<lparr>cmem := m\<rparr>))))"

definition handleRead :: "'u conn_callbacks \<Rightarrow> addr \<Rightarrow> error_code \<Rightarrow> nat \<Rightarrow> 'u world \<Rightarrow> error + 'u world" where
  "handleRead cbs piece ec bytes_transferred s =
     (if ec = Success
      then rbind (mderef (Some piece) (cmem s)) (\<lambda>c.
           rbind (mstore (Some piece) (c\<lparr>len := word_of_nat bytes_transferred\<rparr>) (cmem s)) (\<lambda>m.
           rbind (InputBuffer_writePiece (Some piece) (input_buffer (conn s)) m) (\<lambda>(b, m1).
           rbind (call MessageCb (message_cb cbs) (upd_conn (input_buffer_update (\<lambda>_. b)) (s\<lparr>cmem := m1\<rparr>)))
             launchRead)))
      else rbind (deletePiece (Some piece) (cmem s)) (\<lambda>m.
           let s1 = s\<lparr>cmem := m\<rparr> in
           if ec \<noteq> operation_aborted then handleError cbs s1 else Inr s1))"

definition connectEstablished :: "'u conn_callbacks \<Rightarrow> 'u world \<Rightarrow> error + 'u world" where
  "connectEstablished cbs s =
     (case socket (conn s) of
        None \<Rightarrow> Inl NullDeref
      | Some _ \<Rightarrow>
          rbind (call (ConnectionCb kConnected) (connection_cb cbs)
            (upd_conn (\<lambda>c. c\<lparr>status := kConnected, local_addr := fst (endpoints c), remote_addr := snd (endpoints c)\<rparr>) s))
            launchRead)"

definition setTcpNoDelay :: "'u world \<Rightarrow> error + 'u world" where
  "setTcpNoDelay s = (if socket (conn s) = None then Inl NullDeref else Inr s)"

text \<open>The destructor: its assertions, and the destructors of the two buffers.\<close>

definition TCPConn_delete :: "'u world \<Rightarrow> error + 'u world" where
  "TCPConn_delete s =
     rbind (cassert (status (conn s) = kDisconnected)) (\<lambda>_.
     rbind (cassert (\<not> is_sending (conn s))) (\<lambda>_.
     rbind (Buffer_delete (input_buffer (conn s)) (cmem s)) (\<lambda>m.
     rbind (Buffer_delete (output_buffer (conn s)) m) (\<lambda>m1. Inr (s\<lparr>cmem := m1\<rparr>)))))"

text \<open>
  The environment. The kernel stores the received bytes at the start of the free part of the
  piece before the read completes; a request is taken from the list when it completes.
\<close>

definition kernel_store :: "addr \<Rightarrow> byte list \<Rightarrow> mem \<Rightarrow> error + mem" where
  "kernel_store a d m = rbind (mderef (Some a) m) (\<lambda>c. rbind (copy_in (unat (off c)) d c) (\<lambda>c1. mstore (Some a) c1 m))"

definition taken :: "request \<Rightarrow> 'u world \<Rightarrow> 'u world" where
  "taken r s = s\<lparr>pending := remove1 r (pending s)\<rparr>"

text \<open>
  The timer of \<open>closeWithDelay\<close> completes when it expires and also when \<open>handleClose\<close> has cancelled
  it: the handler of \<open>EventLoop::runAfter\<close> does not look at the error code.
\<close>

inductive conn_step :: "'u conn_callbacks \<Rightarrow> 'u world \<Rightarrow> error + 'u world \<Rightarrow> bool" for cbs where
  write_done: "AsyncSend a \<in> set (pending s) \<Longrightarrow> conn_step cbs s (handleWrite cbs a ec (taken (AsyncSend a) s))"
| read_done: "AsyncRead a \<in> set (pending s) \<Longrightarrow> d \<noteq> [] \<Longrightarrow>
    conn_step cbs s (rbind (kernel_store a d (cmem s)) (\<lambda>m.
      handleRead cbs a Success (length d) (taken (AsyncRead a) (s\<lparr>cmem := m\<rparr>))))"
| read_failed: "AsyncRead a \<in> set (pending s) \<Longrightarrow> ec \<noteq> Success \<Longrightarrow>
    conn_step cbs s (handleRead cbs a ec 0 (taken (AsyncRead a) s))"
| send_task: "SendTask p \<in> set (pending s) \<Longrightarrow> conn_step cbs s (sendInLoop p (taken (SendTask p) s))"
| close_task: "CloseTask \<in> set (pending s) \<Longrightarrow> conn_step cbs s (handleClose cbs (taken CloseTask s))"
| delay_timer: "DelayTimer \<in> set (pending s) \<Longrightarrow> conn_step cbs s (handleClose cbs (taken DelayTimer s))"
| api_send: "conn_step cbs s (TCPConn_send in_loop d s)"
| api_close: "conn_step cbs s (Inr (TCPConn_close s))"
| api_close_delay: "conn_step cbs s (Inr (closeWithDelay s))"

end
