(* ===== verification/Conn_Control.thy ===== *)
theory Conn_Control
  imports Tcp_Conn
begin

text \<open>
  The control invariant of a connection: how its status, its socket, the sending flag, the pending
  requests and the calls of the callbacks hang together in every reachable state, whatever the order
  and the error codes in which the environment completes the requests.
\<close>

section \<open>What user callbacks may do\<close>

text \<open>
  A callback has the connection's public interface and the input buffer: it may send, close, close
  with a delay, take bytes from the input buffer and change its own state and the memory.
\<close>

inductive api_calls :: "'u world \<Rightarrow> 'u world \<Rightarrow> bool" where
  nothing: "api_calls s s"
| own_state: "api_calls s t \<Longrightarrow> api_calls s (upd_conn (input_buffer_update (\<lambda>_. b)) (t\<lparr>user := u, cmem := m\<rparr>))"
| send: "api_calls s t \<Longrightarrow> TCPConn_send in_loop d t = Inr t' \<Longrightarrow> api_calls s t'"
| send_buffer: "api_calls s t \<Longrightarrow> TCPConn_send_buffer in_loop b t = Inr (b', t') \<Longrightarrow> api_calls s t'"
| close: "api_calls s t \<Longrightarrow> api_calls s (TCPConn_close t)"
| close_delay: "api_calls s t \<Longrightarrow> api_calls s (closeWithDelay t)"

definition callbacks_ok :: "'u conn_callbacks \<Rightarrow> bool" where
  "callbacks_ok cbs \<longleftrightarrow> (\<forall>s s'. connection_cb cbs s = Inr s' \<longrightarrow> api_calls s s')
     \<and> (\<forall>s s'. message_cb cbs s = Inr s' \<longrightarrow> api_calls s s')
     \<and> (\<forall>s s'. close_cb cbs s = Inr s' \<longrightarrow> api_calls s s')"

section \<open>The invariant\<close>

fun is_send :: "request \<Rightarrow> bool" where
  "is_send (AsyncSend a) = True"
| "is_send _ = False"

fun is_read :: "request \<Rightarrow> bool" where
  "is_read (AsyncRead a) = True"
| "is_read _ = False"

fun_cases is_sendE: "is_send r"
fun_cases is_readE: "is_read r"

definition sends :: "'u world \<Rightarrow> nat" where
  "sends s = length (filter is_send (pending s))"

definition reads :: "'u world \<Rightarrow> nat" where
  "reads s = length (filter is_read (pending s))"

definition closes :: "'u world \<Rightarrow> nat" where
  "closes s = length (filter ((=) CloseCb) (calls s))"

text \<open>The part that holds also while a handler runs: one write in flight exactly when the flag is set.\<close>

definition flow_inv :: "'u world \<Rightarrow> bool" where
  "flow_inv s \<longleftrightarrow> sends s = (if is_sending (conn s) then 1 else 0)"

definition live :: "'u world \<Rightarrow> bool" where
  "live s \<longleftrightarrow> status (conn s) \<noteq> kDisconnected \<and> socket (conn s) = Some True \<and> closes s = 0"

definition dead :: "'u world \<Rightarrow> bool" where
  "dead s \<longleftrightarrow> status (conn s) = kDisconnected \<and> socket (conn s) = None \<and> closes s = 1"

definition conn_inv :: "'u world \<Rightarrow> bool" where
  "conn_inv s \<longleftrightarrow> flow_inv s \<and> reads s \<le> 1 \<and> (live s \<or> dead s)"

lemmas world_defs = upd_conn_def request_def taken_def call_def

lemma counts_request [simp]:
  "sends (request r s) = sends s + (if is_send r then 1 else 0)"
  "reads (request r s) = reads s + (if is_read r then 1 else 0)"
  "closes (request r s) = closes s"
  by (simp_all add: sends_def reads_def closes_def request_def)

lemma counts_upd [simp]:
  "sends (upd_conn f s) = sends s" "reads (upd_conn f s) = reads s" "closes (upd_conn f s) = closes s"
  "sends (s\<lparr>cmem := m\<rparr>) = sends s" "reads (s\<lparr>cmem := m\<rparr>) = reads s" "closes (s\<lparr>cmem := m\<rparr>) = closes s"
  "sends (s\<lparr>user := u\<rparr>) = sends s" "reads (s\<lparr>user := u\<rparr>) = reads s" "closes (s\<lparr>user := u\<rparr>) = closes s"
  "sends (s\<lparr>calls := cs\<rparr>) = sends s" "reads (s\<lparr>calls := cs\<rparr>) = reads s"
  by (simp_all add: sends_def reads_def closes_def upd_conn_def)

lemma conn_upd [simp]:
  "conn (upd_conn f s) = f (conn s)" "conn (request r s) = conn s" "conn (taken r s) = conn s"
  "cmem (upd_conn f s) = cmem s" "cmem (request r s) = cmem s" "cmem (taken r s) = cmem s"
  "calls (upd_conn f s) = calls s" "calls (request r s) = calls s" "calls (taken r s) = calls s"
  "pending (upd_conn f s) = pending s" "pending (request r s) = pending s @ [r]"
  "pending (taken r s) = remove1 r (pending s)"
  by (simp_all add: world_defs)

lemma user_simps [simp]:
  "user (upd_conn f s) = user s" "user (request r s) = user s" "user (taken r s) = user s"
  by (simp_all add: world_defs)

lemma count_remove1: "r \<in> set xs \<Longrightarrow>
   length (filter P (remove1 r xs)) = length (filter P xs) - (if P r then 1 else 0)"
proof (induction xs)
  case (Cons x xs)
  have "x \<noteq> r \<Longrightarrow> P r \<Longrightarrow> 0 < length (filter P xs)"
    using Cons.prems by (auto simp: filter_empty_conv)
  with Cons show ?case by (cases "x = r") auto
qed simp

lemma counts_taken:
  assumes "r \<in> set (pending s)"
  shows "sends (taken r s) = sends s - (if is_send r then 1 else 0)"
    and "reads (taken r s) = reads s - (if is_read r then 1 else 0)"
    and "closes (taken r s) = closes s"
  using count_remove1 [OF assms] by (simp_all add: sends_def reads_def closes_def)

lemma pending_counts:
  "AsyncSend a \<in> set (pending s) \<Longrightarrow> 0 < sends s" "AsyncRead a \<in> set (pending s) \<Longrightarrow> 0 < reads s"
  by (force simp: sends_def reads_def filter_empty_conv)+

section \<open>Every operation keeps the invariant\<close>

text \<open>Starting a write: the flag is set and one more write is in flight.\<close>

lemma async_send_counts:
  assumes "async_send p s = Inr s'"
  shows "conn s' = conn s" "sends s' = sends s + 1" "reads s' = reads s" "closes s' = closes s"
    "socket (conn s) \<noteq> None"
  using assms by (auto simp: async_send_def rbind_eq_Inr_iff split: option.splits)

lemma sendInLoop_inv:
  assumes "sendInLoop p s = Inr s'" and "flow_inv s"
  shows "flow_inv s'" "reads s' = reads s" "closes s' = closes s" "status (conn s') = status (conn s)"
    "socket (conn s') = socket (conn s)"
proof -
  obtain b m where w: "OutputBuffer_writePieceQueue p (output_buffer (conn s)) (cmem s) = Inr (b, m)"
    using assms(1) by (auto simp: sendInLoop_def rbind_eq_Inr_iff)
  let ?s1 = "upd_conn (output_buffer_update (\<lambda>_. b)) (s\<lparr>cmem := m\<rparr>)"
  have "flow_inv s' \<and> reads s' = reads s \<and> closes s' = closes s \<and> status (conn s') = status (conn s)
      \<and> socket (conn s') = socket (conn s)"
  proof (cases "is_sending (conn s)")
    case True
    then have "s' = ?s1" using assms(1) w by (simp add: sendInLoop_def)
    then show ?thesis using assms(2) by (simp add: flow_inv_def)
  next
    case False
    then obtain q b1 m1 where r: "OutputBuffer_readPiece b m = Inr (q, b1, m1)"
      and a: "async_send q (upd_conn (\<lambda>c. c\<lparr>is_sending := True, output_buffer := b1\<rparr>) (?s1\<lparr>cmem := m1\<rparr>)) = Inr s'"
      using assms(1) w by (auto simp: sendInLoop_def rbind_eq_Inr_iff)
    from async_send_counts [OF a] show ?thesis using assms(2) False by (simp add: flow_inv_def)
  qed
  then show "flow_inv s'" "reads s' = reads s" "closes s' = closes s" "status (conn s') = status (conn s)"
    "socket (conn s') = socket (conn s)" by auto
qed

lemma launchWrite_inv:
  assumes "launchWrite s = Inr s'" and "flow_inv s" and "\<not> is_sending (conn s)"
  shows "flow_inv s'" "reads s' = reads s" "closes s' = closes s" "status (conn s') = status (conn s)"
    "socket (conn s') = socket (conn s)"
proof -
  have "flow_inv s' \<and> reads s' = reads s \<and> closes s' = closes s \<and> status (conn s') = status (conn s)
      \<and> socket (conn s') = socket (conn s)"
  proof (cases "Buffer_length (output_buffer (conn s)) > 0")
    case True
    then obtain q b1 m1 where
      a: "async_send q (upd_conn (\<lambda>c. c\<lparr>is_sending := True, output_buffer := b1\<rparr>) (s\<lparr>cmem := m1\<rparr>)) = Inr s'"
      using assms(1) by (auto simp: launchWrite_def rbind_eq_Inr_iff)
    from async_send_counts [OF a] show ?thesis using assms(2,3) by (simp add: flow_inv_def)
  next
    case False
    then show ?thesis using assms by (simp add: launchWrite_def)
  qed
  then show "flow_inv s'" "reads s' = reads s" "closes s' = closes s" "status (conn s') = status (conn s)"
    "socket (conn s') = socket (conn s)" by auto
qed

text \<open>What every use of the public interface keeps.\<close>

definition public_inv :: "'u world \<Rightarrow> 'u world \<Rightarrow> bool" where
  "public_inv s t \<longleftrightarrow> (flow_inv s \<longrightarrow> flow_inv t) \<and> reads t = reads s \<and> closes t = closes s
     \<and> socket (conn t) = socket (conn s)
     \<and> (status (conn t) = status (conn s) \<or> status (conn s) = kConnected \<and> status (conn t) = kDisconnecting)"

lemma public_inv_refl [simp]: "public_inv s s"
  by (simp add: public_inv_def)

lemma public_inv_trans: "public_inv s t \<Longrightarrow> public_inv t u \<Longrightarrow> public_inv s u"
  unfolding public_inv_def by auto

lemma public_sendInLoop: "sendInLoop p s = Inr s' \<Longrightarrow> flow_inv s \<Longrightarrow> public_inv s s'"
  unfolding public_inv_def using sendInLoop_inv by metis

lemma public_close: "public_inv s (TCPConn_close s)"
  by (simp add: public_inv_def TCPConn_close_def flow_inv_def)

lemma public_closeWithDelay: "public_inv s (closeWithDelay s)"
  by (simp add: public_inv_def closeWithDelay_def flow_inv_def)

lemma public_send:
  assumes "TCPConn_send in_loop d s = Inr s'" and "flow_inv s"
  shows "public_inv s s'"
proof (cases "status (conn s) \<noteq> kConnected \<or> d = []")
  case True
  then show ?thesis using assms(1) by (simp add: TCPConn_send_def)
next
  case False
  then obtain q m s2 m2 where q: "(if in_loop then sendInLoop q (s\<lparr>cmem := m\<rparr>) else Inr (request (SendTask q) (s\<lparr>cmem := m\<rparr>))) = Inr s2"
    "s' = s2\<lparr>cmem := m2\<rparr>"
    using assms(1) by (auto simp: TCPConn_send_def Buffer_moveToQueueHead_def Let_def rbind_eq_Inr_iff)
  have f: "flow_inv (s\<lparr>cmem := m\<rparr>)" using assms(2) by (simp add: flow_inv_def)
  have "public_inv (s\<lparr>cmem := m\<rparr>) s2"
  proof (cases in_loop)
    case True
    then show ?thesis using q(1) public_sendInLoop [OF _ f] by simp
  next
    case False
    then show ?thesis using q(1) by (auto simp: public_inv_def flow_inv_def)
  qed
  then show ?thesis using q(2) by (auto simp: public_inv_def flow_inv_def)
qed

lemma public_send_buffer:
  assumes "TCPConn_send_buffer in_loop b s = Inr (b', s')" and "flow_inv s"
  shows "public_inv s s'"
  using assms public_sendInLoop [OF _ assms(2)]
  by (auto simp: TCPConn_send_buffer_def rbind_eq_Inr_iff public_inv_def flow_inv_def
      split: if_splits prod.splits)

lemma api_calls_public: "api_calls s t \<Longrightarrow> flow_inv s \<Longrightarrow> public_inv s t \<and> flow_inv t"
proof (induction rule: api_calls.induct)
  case (nothing s)
  then show ?case by simp
next
  case (own_state s t b u m)
  then show ?case by (auto simp: public_inv_def flow_inv_def)
next
  case (send s t in_loop d t')
  then show ?case using public_send public_inv_trans by (metis public_inv_def)
next
  case (send_buffer s t in_loop b b' t')
  then show ?case using public_send_buffer public_inv_trans by (metis public_inv_def)
next
  case (close s t)
  then show ?case using public_close public_inv_trans by (metis public_inv_def)
next
  case (close_delay s t)
  then show ?case using public_closeWithDelay public_inv_trans by (metis public_inv_def)
qed

lemma call_public:
  assumes "callbacks_ok cbs" and "f \<in> {connection_cb cbs, message_cb cbs, close_cb cbs}"
    and "call c f s = Inr s'" and "flow_inv s"
  shows "public_inv (s\<lparr>calls := calls s @ [c]\<rparr>) s'" "flow_inv s'"
proof -
  have "api_calls (s\<lparr>calls := calls s @ [c]\<rparr>) s'"
    using assms(1-3) by (auto simp: callbacks_ok_def call_def)
  moreover have "flow_inv (s\<lparr>calls := calls s @ [c]\<rparr>)" using assms(4) by (simp add: flow_inv_def)
  ultimately show "public_inv (s\<lparr>calls := calls s @ [c]\<rparr>) s'" "flow_inv s'"
    using api_calls_public by blast+
qed

lemma handleClose_inv:
  assumes ok: "callbacks_ok cbs" and run: "handleClose cbs s = Inr s'" and inv: "flow_inv s" "closes s = 0"
  shows "flow_inv s'" "reads s' = reads s" "dead s'" "status (conn s) = kDisconnecting"
proof -
  have st: "status (conn s) = kDisconnecting"
    using run by (auto simp: handleClose_def rbind_eq_Inr_iff cassert_def split: if_splits)
  define s1 where "s1 = upd_conn (delay_close_timer_update (\<lambda>_. False)) s"
  define s2 where "s2 = upd_conn (socket_update (\<lambda>_. None)) s1"
  define s3 where "s3 = upd_conn (status_update (\<lambda>_. kDisconnecting)) s2"
  have key: "(case socket (conn s1) of None \<Rightarrow> Inr s1
       | Some opened \<Rightarrow> rbind (cassert opened) (\<lambda>_. Inr (upd_conn (socket_update (\<lambda>_. None)) s1))) = Inr t \<Longrightarrow>
       upd_conn (status_update (\<lambda>_. kDisconnecting)) t = s3" for t
    by (cases "socket (conn s1)") (auto simp: s3_def s2_def upd_conn_def rbind_eq_Inr_iff)
  obtain s4 s5 where c: "call (ConnectionCb kDisconnecting) (connection_cb cbs) s3 = Inr s4"
    "call CloseCb (close_cb cbs) s4 = Inr s5" "s' = upd_conn (status_update (\<lambda>_. kDisconnected)) s5"
    using run st key by (auto simp: handleClose_def rbind_eq_Inr_iff Let_def simp flip: s1_def)
  have f3: "flow_inv s3" using inv(1) by (simp add: flow_inv_def s3_def s2_def s1_def)
  note p4 = call_public [OF ok _ c(1) f3]
  have f4: "flow_inv s4" using p4(2) by simp
  note p5 = call_public [OF ok _ c(2) f4]
  have a4: "closes s4 = 0" "socket (conn s4) = None" "status (conn s4) = kDisconnecting" "reads s4 = reads s"
    using p4(1) inv(2) by (auto simp: public_inv_def closes_def s3_def s2_def s1_def)
  then have a5: "closes s5 = 1" "socket (conn s5) = None" "reads s5 = reads s"
    using p5(1) by (auto simp: public_inv_def closes_def)
  show "flow_inv s'" using p5(2) c(3) by (simp add: flow_inv_def)
  show "reads s' = reads s" "dead s'" using a5 c(3) by (simp_all add: dead_def)
  show "status (conn s) = kDisconnecting" by (rule st)
qed

lemma handleError_inv:
  assumes ok: "callbacks_ok cbs" and run: "handleError cbs s = Inr s'" and inv: "flow_inv s" "live s \<or> dead s"
  shows "flow_inv s'" "reads s' = reads s" "dead s'"
proof -
  have "flow_inv s' \<and> reads s' = reads s \<and> dead s'"
  proof (cases "status (conn s) = kDisconnected")
    case True
    then show ?thesis using run inv by (auto simp: handleError_def live_def)
  next
    case False
    let ?s = "upd_conn (status_update (\<lambda>_. kDisconnecting)) s"
    have "handleClose cbs ?s = Inr s'" using run False by (simp add: handleError_def)
    moreover have "flow_inv ?s" "closes ?s = 0" using inv False by (auto simp: flow_inv_def live_def dead_def)
    ultimately show ?thesis using handleClose_inv(1-3) [OF ok] by fastforce
  qed
  then show "flow_inv s'" "reads s' = reads s" "dead s'" by auto
qed

lemma launchRead_inv:
  assumes "launchRead s = Inr s'"
  shows "conn s' = conn s" "sends s' = sends s" "reads s' = reads s + 1" "closes s' = closes s"
    "socket (conn s) \<noteq> None"
  using assms by (auto simp: launchRead_def rbind_eq_Inr_iff split: option.splits)

lemma handleWrite_inv:
  assumes ok: "callbacks_ok cbs" and run: "handleWrite cbs a ec s = Inr s'"
    and inv: "sends s = 0" "live s \<or> dead s"
  shows "flow_inv s'" "reads s' = reads s" "live s' \<or> dead s'"
proof -
  obtain m where m: "deletePiece (Some a) (cmem s) = Inr m"
    using run by (auto simp: handleWrite_def Let_def rbind_eq_Inr_iff)
  let ?s = "(upd_conn (is_sending_update (\<lambda>_. False)) s)\<lparr>cmem := m\<rparr>"
  have f: "flow_inv ?s" "\<not> is_sending (conn ?s)" "live ?s \<or> dead ?s" "reads ?s = reads s"
    using inv by (simp_all add: flow_inv_def live_def dead_def)
  have run': "(if ec = Success then launchWrite ?s else if ec \<noteq> operation_aborted then handleError cbs ?s else Inr ?s) = Inr s'"
    using run m by (simp add: handleWrite_def Let_def)
  show "flow_inv s'" "reads s' = reads s" "live s' \<or> dead s'"
  proof (atomize (full), cases ec)
    case Success
    note l = launchWrite_inv [OF _ f(1,2), of s']
    show "flow_inv s' \<and> reads s' = reads s \<and> (live s' \<or> dead s')"
      using l run' Success f(3,4) by (auto simp: live_def dead_def)
  next
    case operation_aborted
    then show "flow_inv s' \<and> reads s' = reads s \<and> (live s' \<or> dead s')"
      using run' f by auto
  next
    case Failure
    then show "flow_inv s' \<and> reads s' = reads s \<and> (live s' \<or> dead s')"
      using run' handleError_inv [OF ok _ f(1,3), of s'] f(4) by auto
  qed
qed

lemma handleRead_inv:
  assumes ok: "callbacks_ok cbs" and run: "handleRead cbs a ec n s = Inr s'"
    and inv: "flow_inv s" "reads s = 0" "live s \<or> dead s"
  shows "flow_inv s'" "reads s' \<le> 1" "live s' \<or> dead s'"
proof -
  have "flow_inv s' \<and> reads s' \<le> 1 \<and> (live s' \<or> dead s')"
  proof (cases "ec = Success")
    case True
    then obtain b m t where c: "call MessageCb (message_cb cbs) (upd_conn (input_buffer_update (\<lambda>_. b)) (s\<lparr>cmem := m\<rparr>)) = Inr t"
      and l: "launchRead t = Inr s'"
      using run by (auto simp: handleRead_def rbind_eq_Inr_iff)
    let ?s = "upd_conn (input_buffer_update (\<lambda>_. b)) (s\<lparr>cmem := m\<rparr>)"
    have "flow_inv ?s" using inv(1) by (simp add: flow_inv_def)
    note p = call_public [OF ok _ c this]
    have "flow_inv t" using p(2) by simp
    moreover have "reads t = 0" "socket (conn t) = socket (conn s)" "closes t = closes s"
      "status (conn t) = status (conn s) \<or> status (conn s) = kConnected \<and> status (conn t) = kDisconnecting"
      using p(1) inv(2) by (auto simp: public_inv_def closes_def)
    ultimately show ?thesis using launchRead_inv [OF l] inv(3)
      by (auto simp: flow_inv_def live_def dead_def)
  next
    case False
    then obtain m where m: "(if ec \<noteq> operation_aborted then handleError cbs (s\<lparr>cmem := m\<rparr>) else Inr (s\<lparr>cmem := m\<rparr>)) = Inr s'"
      using run by (auto simp: handleRead_def Let_def rbind_eq_Inr_iff)
    have f: "flow_inv (s\<lparr>cmem := m\<rparr>)" "live (s\<lparr>cmem := m\<rparr>) \<or> dead (s\<lparr>cmem := m\<rparr>)"
      using inv by (simp_all add: flow_inv_def live_def dead_def)
    show ?thesis using m handleError_inv [OF ok _ f, of s'] f inv(2) by (auto split: if_splits)
  qed
  then show "flow_inv s'" "reads s' \<le> 1" "live s' \<or> dead s'" by auto
qed

lemma inv_taken_other:
  assumes "conn_inv s" and "r \<in> set (pending s)" and "\<not> is_send r" "\<not> is_read r"
  shows "conn_inv (taken r s)"
  using assms counts_taken [OF assms(2)] by (simp add: conn_inv_def flow_inv_def live_def dead_def)

lemma conn_inv_flow: "conn_inv s \<Longrightarrow> flow_inv s"
  by (simp add: conn_inv_def)

lemma conn_inv_public: "conn_inv s \<Longrightarrow> public_inv s t \<Longrightarrow> conn_inv t"
  by (auto simp: conn_inv_def public_inv_def live_def dead_def)

lemma handleClose_keeps:
  assumes "callbacks_ok cbs" and "conn_inv s" and "handleClose cbs s = Inr s'"
  shows "conn_inv s'"
proof -
  have "status (conn s) = kDisconnecting"
    using assms(3) by (auto simp: handleClose_def rbind_eq_Inr_iff cassert_def split: if_splits)
  then have "closes s = 0" using assms(2) by (auto simp: conn_inv_def live_def dead_def)
  then show ?thesis using handleClose_inv [OF assms(1,3)] assms(2) by (auto simp: conn_inv_def)
qed

lemma conn_step_inv:
  assumes "conn_step cbs s r" and "callbacks_ok cbs" and "conn_inv s" and "r = Inr s'"
  shows "conn_inv s'"
  using assms
proof (induction rule: conn_step.induct)
  case (write_done a s ec)
  have "sends (taken (AsyncSend a) s) = 0" "reads (taken (AsyncSend a) s) = reads s" "closes (taken (AsyncSend a) s) = closes s"
    using counts_taken [OF write_done(1)] pending_counts(1) [OF write_done(1)] write_done(3)
    by (auto simp: conn_inv_def flow_inv_def split: if_splits)
  then show ?case
    using handleWrite_inv [OF write_done(2), of a ec "taken (AsyncSend a) s" s'] write_done(3,4)
    by (auto simp: conn_inv_def live_def dead_def)
next
  case (read_done a s d)
  then obtain m where m: "handleRead cbs a Success (length d) (taken (AsyncRead a) (s\<lparr>cmem := m\<rparr>)) = Inr s'"
    by (auto simp: rbind_eq_Inr_iff)
  let ?s = "taken (AsyncRead a) (s\<lparr>cmem := m\<rparr>)"
  have "AsyncRead a \<in> set (pending (s\<lparr>cmem := m\<rparr>))" using read_done(1) by simp
  then have "flow_inv ?s" "reads ?s = 0" "live ?s \<or> dead ?s"
    using counts_taken [of "AsyncRead a" "s\<lparr>cmem := m\<rparr>"] read_done(4)
    by (auto simp: conn_inv_def flow_inv_def live_def dead_def)
  then show ?case using handleRead_inv [OF read_done(3) m] by (simp add: conn_inv_def)
next
  case (read_failed a s ec)
  let ?s = "taken (AsyncRead a) s"
  have "flow_inv ?s" "reads ?s = 0" "live ?s \<or> dead ?s"
    using counts_taken [OF read_failed(1)] read_failed(4) by (auto simp: conn_inv_def flow_inv_def live_def dead_def)
  then show ?case using handleRead_inv [OF read_failed(3,5)] by (simp add: conn_inv_def)
next
  case (send_task p s)
  have "conn_inv (taken (SendTask p) s)" by (rule inv_taken_other) (use send_task in auto)
  then show ?case using public_sendInLoop conn_inv_public conn_inv_flow send_task(4) by blast
next
  case (close_task s)
  have "conn_inv (taken CloseTask s)" by (rule inv_taken_other) (use close_task in auto)
  then show ?case using handleClose_keeps close_task(2,4) by blast
next
  case (delay_timer s)
  have "conn_inv (taken DelayTimer s)" by (rule inv_taken_other) (use delay_timer in auto)
  then show ?case using handleClose_keeps delay_timer(2,4) by blast
next
  case (api_send s in_loop d)
  then show ?case using public_send conn_inv_public conn_inv_flow by blast
next
  case (api_close s)
  then show ?case using public_close conn_inv_public by blast
next
  case (api_close_delay s)
  then show ?case using public_closeWithDelay conn_inv_public by blast
qed

section \<open>Runs\<close>

text \<open>A connection starts with \<open>connectEstablished\<close> on a fresh object with an open socket.\<close>

definition fresh_world :: "'u world \<Rightarrow> bool" where
  "fresh_world s \<longleftrightarrow> (\<exists>i eps. conn s = TCPConn_new i eps) \<and> pending s = [] \<and> calls s = []"

definition conn_start :: "'u conn_callbacks \<Rightarrow> 'u world \<Rightarrow> bool" where
  "conn_start cbs s' \<longleftrightarrow> (\<exists>s. fresh_world s \<and> connectEstablished cbs s = Inr s')"

abbreviation conn_run :: "'u conn_callbacks \<Rightarrow> 'u world \<Rightarrow> bool" where
  "conn_run cbs \<equiv> reach (conn_start cbs) (conn_step cbs)"

lemma connectEstablished_inv:
  assumes ok: "callbacks_ok cbs" and fresh: "fresh_world s" and run: "connectEstablished cbs s = Inr s'"
  shows "conn_inv s'"
proof -
  let ?s = "upd_conn (\<lambda>c. c\<lparr>status := kConnected, local_addr := fst (endpoints c), remote_addr := snd (endpoints c)\<rparr>) s"
  obtain t where c: "call (ConnectionCb kConnected) (connection_cb cbs) ?s = Inr t" and l: "launchRead t = Inr s'"
    using run by (auto simp: connectEstablished_def rbind_eq_Inr_iff split: option.splits)
  have "flow_inv ?s" using fresh by (auto simp: flow_inv_def sends_def fresh_world_def TCPConn_new_def)
  note p = call_public [OF ok _ c this]
  have "flow_inv t" "reads t = 0" "closes t = 0" "socket (conn t) = Some True" "status (conn t) \<noteq> kDisconnected"
    using p fresh by (auto simp: public_inv_def reads_def closes_def fresh_world_def TCPConn_new_def)
  then show ?thesis using launchRead_inv [OF l] by (auto simp: conn_inv_def flow_inv_def live_def)
qed

text \<open>
  The contract between a connection and its user: the callbacks only use the public interface. In
  return the invariant of the connection holds in every run.
\<close>

locale connection_user =
  fixes cbs :: "'u conn_callbacks"
  assumes callbacks_ok: "callbacks_ok cbs"
begin

lemma start_inv: "conn_start cbs s \<Longrightarrow> conn_inv s"
  using connectEstablished_inv [OF callbacks_ok] by (auto simp: conn_start_def)

lemma step_inv: "conn_inv s \<Longrightarrow> conn_step cbs s (Inr s') \<Longrightarrow> conn_inv s'"
  using conn_step_inv [OF _ callbacks_ok] by blast

end

sublocale connection_user < conn: inductive_invariant "conn_start cbs" "conn_step cbs" conn_inv
  by unfold_locales (rule start_inv, assumption, rule step_inv)

context connection_user
begin

lemma run_inv: "conn_run cbs s \<Longrightarrow> conn_inv s"
  by (rule conn.reach_inv)

text \<open>A connection whose user has not seen the end of it has its socket.\<close>

lemma run_socket: "conn_run cbs s \<Longrightarrow> status (conn s) \<noteq> kDisconnected \<Longrightarrow> socket (conn s) = Some True"
  using run_inv [of s] by (auto simp: conn_inv_def live_def dead_def)

end

lemma conn_run_inv: "conn_run cbs s \<Longrightarrow> callbacks_ok cbs \<Longrightarrow> conn_inv s"
  by (rule connection_user.run_inv [OF connection_user.intro])

section \<open>After the close\<close>

text \<open>The public interface does nothing to a connection that is not connected.\<close>

lemma api_calls_frozen:
  "api_calls s t \<Longrightarrow> status (conn s) \<noteq> kConnected \<Longrightarrow>
   status (conn t) = status (conn s) \<and> socket (conn t) = socket (conn s) \<and> pending t = pending s \<and> calls t = calls s"
proof (induction rule: api_calls.induct)
  case (send s t in_loop d t')
  then show ?case by (auto simp: TCPConn_send_def)
next
  case (send_buffer s t in_loop b b' t')
  then show ?case by (auto simp: TCPConn_send_buffer_def)
qed (auto simp: TCPConn_close_def closeWithDelay_def upd_conn_def)

lemma dead_no_read: "socket (conn s) = None \<Longrightarrow> launchRead s \<noteq> Inr s'"
  using launchRead_inv by blast

lemma dead_launchWrite: "launchWrite s = Inr s' \<Longrightarrow> socket (conn s) = None \<Longrightarrow> s' = s"
  by (auto simp: launchWrite_def rbind_eq_Inr_iff dest!: async_send_counts split: if_splits)

lemma handleClose_dead: "status (conn s) = kDisconnected \<Longrightarrow> handleClose cbs s = Inl AssertFailed"
  by (simp add: handleClose_def)

lemma dead_sendInLoop:
  assumes "sendInLoop p s = Inr s'" and "socket (conn s) = None"
  shows "calls s' = calls s" "status (conn s') = status (conn s)"
proof -
  obtain b m where w: "OutputBuffer_writePieceQueue p (output_buffer (conn s)) (cmem s) = Inr (b, m)"
    using assms(1) by (auto simp: sendInLoop_def rbind_eq_Inr_iff)
  have "is_sending (conn s)"
  proof (rule ccontr)
    assume "\<not> is_sending (conn s)"
    then obtain q b1 m1 where "async_send q (upd_conn (\<lambda>c. c\<lparr>is_sending := True, output_buffer := b1\<rparr>)
        ((upd_conn (output_buffer_update (\<lambda>_. b)) (s\<lparr>cmem := m\<rparr>))\<lparr>cmem := m1\<rparr>)) = Inr s'"
      using assms(1) w by (auto simp: sendInLoop_def rbind_eq_Inr_iff)
    from async_send_counts(5) [OF this] assms(2) show False by simp
  qed
  then have "s' = upd_conn (output_buffer_update (\<lambda>_. b)) (s\<lparr>cmem := m\<rparr>)"
    using assms(1) w by (simp add: sendInLoop_def)
  then show "calls s' = calls s" "status (conn s') = status (conn s)" by simp_all
qed

lemma dead_handleRead:
  assumes ok: "callbacks_ok cbs" and run: "handleRead cbs a ec n s = Inr s'"
    and dead: "status (conn s) = kDisconnected" "socket (conn s) = None"
  shows "calls s' = calls s" "status (conn s') = kDisconnected"
proof -
  have "calls s' = calls s \<and> status (conn s') = kDisconnected"
  proof (cases "ec = Success")
    case True
    then obtain b m t where c: "call MessageCb (message_cb cbs) (upd_conn (input_buffer_update (\<lambda>_. b)) (s\<lparr>cmem := m\<rparr>)) = Inr t"
      and l: "launchRead t = Inr s'"
      using run by (auto simp: handleRead_def rbind_eq_Inr_iff)
    have "api_calls ((upd_conn (input_buffer_update (\<lambda>_. b)) (s\<lparr>cmem := m\<rparr>))\<lparr>calls := calls s @ [MessageCb]\<rparr>) t"
      using ok c by (simp add: callbacks_ok_def call_def)
    from api_calls_frozen [OF this] dead have "socket (conn t) = None" by simp
    then show ?thesis using l dead_no_read by blast
  next
    case False
    then show ?thesis using run dead
      by (auto simp: handleRead_def handleError_def Let_def rbind_eq_Inr_iff split: if_splits)
  qed
  then show "calls s' = calls s" "status (conn s') = kDisconnected" by auto
qed

lemma dead_step:
  assumes "conn_step cbs s r" and "callbacks_ok cbs" and "status (conn s) = kDisconnected" "socket (conn s) = None"
    and "r = Inr s'"
  shows "calls s' = calls s \<and> status (conn s') = kDisconnected"
  using assms
proof (induction rule: conn_step.induct)
  case (write_done a s ec)
  then obtain m where m: "(let s2 = (upd_conn (is_sending_update (\<lambda>_. False)) (taken (AsyncSend a) s))\<lparr>cmem := m\<rparr> in
      if ec = Success then launchWrite s2 else if ec \<noteq> operation_aborted then handleError cbs s2 else Inr s2) = Inr s'"
    by (auto simp: handleWrite_def Let_def rbind_eq_Inr_iff)
  then show ?case using write_done(3,4)
    by (cases ec) (auto simp: Let_def handleError_def dest!: dead_launchWrite)
next
  case (read_done a s d)
  then show ?case using dead_handleRead [OF read_done(3)] by (fastforce simp: rbind_eq_Inr_iff)
next
  case (read_failed a s ec)
  then show ?case using dead_handleRead [OF read_failed(3,6)] by simp
next
  case (send_task p s)
  then show ?case using dead_sendInLoop [OF send_task(5)] by simp
qed (auto simp: handleClose_dead TCPConn_send_def TCPConn_close_def closeWithDelay_def)

text \<open>Callbacks that return.\<close>

definition callbacks_return :: "'u conn_callbacks \<Rightarrow> bool" where
  "callbacks_return cbs \<longleftrightarrow> (\<forall>s. \<exists>s'. connection_cb cbs s = Inr s') \<and> (\<forall>s. \<exists>s'. close_cb cbs s = Inr s')"

lemma handleClose_returns:
  assumes ok: "callbacks_ok cbs" and ret: "callbacks_return cbs"
    and st: "status (conn s) = kDisconnecting" "socket (conn s) = Some True"
  shows "\<exists>s'. handleClose cbs s = Inr s' \<and> pending s' = pending s \<and> status (conn s') = kDisconnected
     \<and> socket (conn s') = None \<and> calls s' = calls s @ [ConnectionCb kDisconnecting, CloseCb]"
proof -
  define s3 where "s3 = upd_conn (status_update (\<lambda>_. kDisconnecting)) (upd_conn (socket_update (\<lambda>_. None))
    (upd_conn (delay_close_timer_update (\<lambda>_. False)) s))"
  obtain s4 where s4: "call (ConnectionCb kDisconnecting) (connection_cb cbs) s3 = Inr s4"
    using ret by (auto simp: callbacks_return_def call_def)
  obtain s5 where s5: "call CloseCb (close_cb cbs) s4 = Inr s5"
    using ret by (auto simp: callbacks_return_def call_def)
  have "api_calls (s3\<lparr>calls := calls s3 @ [ConnectionCb kDisconnecting]\<rparr>) s4" "api_calls (s4\<lparr>calls := calls s4 @ [CloseCb]\<rparr>) s5"
    using ok s4 s5 by (simp_all add: callbacks_ok_def call_def)
  note f = this [THEN api_calls_frozen]
  have "status (conn s4) = kDisconnecting" "socket (conn s4) = None" "pending s4 = pending s"
    "calls s4 = calls s @ [ConnectionCb kDisconnecting]"
    using f(1) by (simp_all add: s3_def)
  then have "socket (conn s5) = None" "pending s5 = pending s" "calls s5 = calls s @ [ConnectionCb kDisconnecting, CloseCb]"
    using f(2) by simp_all
  moreover have "handleClose cbs s = Inr (upd_conn (status_update (\<lambda>_. kDisconnected)) s5)"
    using st s4 s5 by (simp add: handleClose_def Let_def s3_def)
  ultimately show ?thesis by auto
qed

section \<open>Witness\<close>

definition idle_cbs :: "unit conn_callbacks" where
  "idle_cbs = \<lparr>connection_cb = Inr, message_cb = Inr, close_cb = Inr\<rparr>"

definition idle_world :: "unit world" where
  "idle_world = \<lparr>conn = TCPConn_new 1 (7, 8), cmem = mem_start, pending = [], calls = [], user = ()\<rparr>"

definition open_world :: "unit world" where
  "open_world = projr (connectEstablished idle_cbs idle_world)"

lemma idle_ok: "callbacks_ok idle_cbs" "callbacks_return idle_cbs"
  by (simp_all add: callbacks_ok_def callbacks_return_def idle_cbs_def api_calls.nothing)

lemma open_world_run:
  "connectEstablished idle_cbs idle_world = Inr open_world"
  "conn open_world = (TCPConn_new 1 (7, 8))\<lparr>status := kConnected, local_addr := 7, remote_addr := 8\<rparr>" "pending open_world = [AsyncRead 0]"
  "mem_inv (cmem open_world) {0}" "calls open_world = [ConnectionCb kConnected]"
proof -
  have new: "newPiece mem_start = Inr (Some 0, snd (projr (newPiece mem_start)))"
    by (simp add: newPiece_def mem_start_def PiecePool_new_def Queue_new_def Queue_pop_def)
  obtain m c where m: "newPiece mem_start = Inr (Some 0, m)" "mem_inv m {0}" "cells m 0 = Some c"
    using newPiece_ok [OF mem_inv_start] new by auto
  then have run: "connectEstablished idle_cbs idle_world = Inr \<lparr>conn = (TCPConn_new 1 (7, 8))\<lparr>status := kConnected, local_addr := 7, remote_addr := 8\<rparr>,
      cmem = m, pending = [AsyncRead 0], calls = [ConnectionCb kConnected], user = ()\<rparr>"
    by (simp add: connectEstablished_def idle_world_def idle_cbs_def TCPConn_new_def launchRead_def world_defs mem_simps)
  then show "connectEstablished idle_cbs idle_world = Inr open_world"
    "conn open_world = (TCPConn_new 1 (7, 8))\<lparr>status := kConnected, local_addr := 7, remote_addr := 8\<rparr>" "pending open_world = [AsyncRead 0]"
    "mem_inv (cmem open_world) {0}" "calls open_world = [ConnectionCb kConnected]"
    using m(2) by (simp_all add: open_world_def)
qed

lemma open_world_reached: "conn_run idle_cbs open_world"
proof (rule reach.init)
  have "fresh_world idle_world" by (auto simp: fresh_world_def idle_world_def)
  then show "conn_start idle_cbs open_world" using open_world_run(1) by (auto simp: conn_start_def)
qed

interpretation idle_user: connection_user idle_cbs
  by unfold_locales (rule idle_ok)

section \<open>Properties\<close>

text \<open>
  C7. In every reachable state of a connection, whatever the completions and calls that led to it:
  an \<open>async_send\<close> is in flight exactly when \<open>is_sending_\<close> is set, and never two of them; at most one
  read is in flight; while the status is not \<open>kDisconnected\<close> the socket is open and the close
  callback has not been called; when it is, the socket is gone and the close callback has been
  called exactly once.
\<close>

theorem conn_lifecycle:
  assumes "conn_run cbs s" and "callbacks_ok cbs"
  shows "sends s = (if is_sending (conn s) then 1 else 0) \<and> reads s \<le> 1
    \<and> (status (conn s) \<noteq> kDisconnected \<longrightarrow> socket (conn s) = Some True \<and> closes s = 0)
    \<and> (status (conn s) = kDisconnected \<longrightarrow> socket (conn s) = None \<and> closes s = 1)"
  using conn_run_inv [OF assms] by (auto simp: conn_inv_def flow_inv_def live_def dead_def)

theorem conn_lifecycle_witness:
  "conn_run idle_cbs open_world \<and> status (conn open_world) = kConnected \<and> socket (conn open_world) = Some True
    \<and> sends open_world = 0"
  using conn_lifecycle [OF open_world_reached idle_ok(1)] open_world_reached open_world_run(2)
  by (simp add: TCPConn_new_def)

text \<open>
  C30. A closed connection stays closed, as far as the program goes on: every step that returns from
  a state with status \<open>kDisconnected\<close> leaves that status and has called none of the callbacks. Steps
  that do not return are outside the claim: the close task asserts, and a read that completes with
  data calls the message callback before it crashes.
\<close>

theorem closed_is_final:
  assumes "conn_run cbs s" and "callbacks_ok cbs" and "status (conn s) = kDisconnected" and "conn_step cbs s (Inr s')"
  shows "status (conn s') = kDisconnected \<and> calls s' = calls s"
proof -
  have "socket (conn s) = None"
    using conn_run_inv [OF assms(1,2)] assms(3) by (auto simp: conn_inv_def live_def dead_def)
  then show ?thesis using dead_step [OF assms(4,2,3)] by simp
qed

text \<open>The state after a read error: \<open>handleError\<close> has closed the connection.\<close>

definition closed_world :: "unit world" where
  "closed_world = projr (handleRead idle_cbs 0 Failure 0 (taken (AsyncRead 0) open_world))"

lemma closed_world_run:
  "conn_run idle_cbs closed_world" "status (conn closed_world) = kDisconnected"
proof -
  let ?s = "taken (AsyncRead 0) open_world"
  obtain m where m: "deletePiece (Some 0) (cmem open_world) = Inr m"
    using deletePiece_ok [of _ 0 "{}"] open_world_run(4) by auto
  let ?t = "upd_conn (status_update (\<lambda>_. kDisconnecting)) (?s\<lparr>cmem := m\<rparr>)"
  obtain s' where s': "handleClose idle_cbs ?t = Inr s'" "status (conn s') = kDisconnected"
    using handleClose_returns [OF idle_ok, of ?t] open_world_run(2) by (auto simp: TCPConn_new_def)
  then have run: "handleRead idle_cbs 0 Failure 0 ?s = Inr s'"
    using m open_world_run(2) by (simp add: handleRead_def handleError_def TCPConn_new_def)
  then have "conn_step idle_cbs open_world (Inr s')"
    using conn_step.read_failed [of 0 open_world Failure idle_cbs] open_world_run(3) by simp
  with run s'(2) show "conn_run idle_cbs closed_world" "status (conn closed_world) = kDisconnected"
    using reach.step [OF open_world_reached] by (simp_all add: closed_world_def)
qed

theorem closed_is_final_witness:
  "conn_run idle_cbs closed_world \<and> conn_step idle_cbs closed_world (Inr (TCPConn_close closed_world))
    \<and> status (conn (TCPConn_close closed_world)) = kDisconnected"
  using closed_is_final [OF closed_world_run(1) idle_ok(1) closed_world_run(2) conn_step.api_close]
    closed_world_run(1) conn_step.api_close by blast

text \<open>
  C38. \<open>close()\<close> followed by an error of the pending read, before the loop has run the queued task,
  ends in a failed assertion: \<open>handleError\<close> closes the connection, and the task then finds the
  status \<open>kDisconnected\<close> where \<open>handleClose\<close> asserts \<open>kDisconnecting\<close>.
\<close>

theorem close_then_read_error_asserts:
  assumes "conn_run cbs s" and "callbacks_ok cbs" and "callbacks_return cbs"
    and "status (conn s) = kConnected" and "AsyncRead a \<in> set (pending s)"
    and "mem_inv (cmem s) F" and "a \<in> F"
  shows "\<exists>s2. conn_step cbs s (Inr (TCPConn_close s)) \<and> conn_step cbs (TCPConn_close s) (Inr s2)
    \<and> status (conn s2) = kDisconnected \<and> conn_step cbs s2 (Inl AssertFailed)"
proof -
  let ?s1 = "TCPConn_close s"
  have s1: "status (conn ?s1) = kDisconnecting" "pending ?s1 = pending s @ [CloseTask]" "cmem ?s1 = cmem s"
    "socket (conn ?s1) = Some True"
    using assms(4) conn_run_inv [OF assms(1,2)] by (auto simp: TCPConn_close_def conn_inv_def live_def dead_def)
  obtain m where m: "deletePiece (Some a) (cmem s) = Inr m"
    using deletePiece_ok [of "cmem s" a "F - {a}"] assms(6,7) by (auto simp: insert_absorb)
  let ?t = "(taken (AsyncRead a) ?s1)\<lparr>cmem := m\<rparr>"
  let ?u = "upd_conn (status_update (\<lambda>_. kDisconnecting)) ?t"
  obtain s2 where s2: "handleClose cbs ?u = Inr s2" "pending s2 = pending ?u" "status (conn s2) = kDisconnected"
    using handleClose_returns [OF assms(2,3), of ?u] s1 by auto
  have "handleRead cbs a Failure 0 (taken (AsyncRead a) ?s1) = Inr s2"
    using m s1 s2(1) by (simp add: handleRead_def handleError_def)
  then have "conn_step cbs ?s1 (Inr s2)"
    using conn_step.read_failed [of a ?s1 Failure cbs] assms(5) s1(2) by simp
  moreover have "CloseTask \<in> set (pending s2)" using s2(2) s1(2) by (simp add: remove1_append)
  then have "conn_step cbs s2 (Inl AssertFailed)"
    using conn_step.close_task [of s2 cbs] handleClose_dead [of "taken CloseTask s2"] s2(3) by simp
  ultimately show ?thesis using conn_step.api_close s2(3) by blast
qed

theorem close_then_read_error_asserts_witness:
  "\<exists>s2. conn_step idle_cbs (TCPConn_close open_world) (Inr s2) \<and> conn_step idle_cbs s2 (Inl AssertFailed)"
  using close_then_read_error_asserts [OF open_world_reached idle_ok _ _ open_world_run(4), of 0] open_world_run(2,3)
  by auto

end
