(* ===== verification/Conn_Data.thy ===== *)
theory Conn_Data
  imports Conn_Control
begin

text \<open>
  The bytes of a connection: what \<open>send\<close> is given reaches \<open>async_send\<close> in order, and what the socket
  delivers reaches the input buffer in order.
\<close>

section \<open>The sending side\<close>

text \<open>
  The output side of a world: the piece in flight \<open>fl\<close> (if any) and the pieces \<open>oas\<close> of the output
  buffer; \<open>F\<close> is everything else, among it the input side and the pieces \<open>readPiece\<close> has leaked.
\<close>

definition in_flight :: "addr option \<Rightarrow> request list" where
  "in_flight fl = (case fl of None \<Rightarrow> [] | Some a \<Rightarrow> [AsyncSend a])"

definition sender :: "'u world \<Rightarrow> addr option \<Rightarrow> addr list \<Rightarrow> addr set \<Rightarrow> bool" where
  "sender s fl oas F \<longleftrightarrow> bchain (cmem s) (output_buffer (conn s)) oas (set_option fl \<union> F)
     \<and> blength (output_buffer (conn s)) = length (chain_bytes (cells (cmem s)) oas)
     \<and> set_option fl \<inter> F = {} \<and> is_sending (conn s) = (fl \<noteq> None)
     \<and> filter is_send (pending s) = in_flight fl \<and> socket (conn s) \<noteq> None"

definition outgoing :: "'u world \<Rightarrow> addr option \<Rightarrow> addr list \<Rightarrow> byte list" where
  "outgoing s fl oas = (case fl of None \<Rightarrow> [] | Some a \<Rightarrow> cell_bytes (cells (cmem s)) a) @ chain_bytes (cells (cmem s)) oas"

text \<open>
  Completed writes, each as its number of bytes transferred and the bytes \<open>async_send\<close> was given: the socket has taken the
  first \<open>n\<close> of them (a number beyond the size stands for all of them). asio allows it to take fewer bytes than it is given, and
  \<open>handleWrite\<close> is not told the number. What was handed to the socket, and what is on the wire:
\<close>

type_synonym writes = "(nat \<times> byte list) list"

definition handed :: "writes \<Rightarrow> byte list" where
  "handed w = concat (map snd w)"

definition wire :: "writes \<Rightarrow> byte list" where
  "wire w = concat (map (\<lambda>(n, p). take n p) w)"

lemma handed_simps [simp]: "handed [] = []" "handed [(n, p)] = p" "handed (v @ w) = handed v @ handed w"
  by (simp_all add: handed_def)

lemma wire_simps [simp]: "wire [] = []" "wire [(n, p)] = take n p" "wire (v @ w) = wire v @ wire w"
  by (simp_all add: wire_def)

lemma wire_full: "\<forall>(n, p) \<in> set w. length p \<le> n \<Longrightarrow> wire w = handed w"
  by (induction w) (auto simp: wire_def handed_def)

lemma handed_part: "(n, p) \<in> set w \<Longrightarrow> length p \<le> length (handed w)"
  by (induction w) (auto simp: handed_def)

text \<open>Taking the next piece from the output buffer and starting its write.\<close>

lemma start_write:
  assumes rep: "bchain m b oas F" and bl: "blength b = length (chain_bytes (cells m) oas)" "0 < blength b"
    and s: "socket (conn s) \<noteq> None" "filter is_send (pending s) = []"
  shows "\<exists>p b1 m1 s' oas' L. OutputBuffer_readPiece b m = Inr (p, b1, m1)
     \<and> async_send p (upd_conn (\<lambda>c. c\<lparr>is_sending := True, output_buffer := b1\<rparr>) (s\<lparr>cmem := m1\<rparr>)) = Inr s'
     \<and> sender s' p oas' (L \<union> F) \<and> outgoing s' p oas' = chain_bytes (cells m) oas
     \<and> frame m (cmem s') F \<and> p \<noteq> None \<and> status (conn s') = status (conn s)
     \<and> input_buffer (conn s') = input_buffer (conn s) \<and> L \<inter> F = {} \<and> length oas' < length oas"
proof -
  obtain a as where as: "oas = a # as" using bl by (cases oas) auto
  obtain b1 m1 lost rest where r: "OutputBuffer_readPiece b m = Inr (Some a, b1, m1)" "as = lost @ rest"
    "bchain m1 b1 rest (insert a (set lost \<union> F))"
    "gather (cell_bytes (cells m) a) (chunks m as) = (cell_bytes (cells m1) a, chunks m1 rest)"
    "blength b1 = length (chain_bytes (cells m1) rest)" "frame m m1 F"
    using OutputBuffer_readPiece_ok [OF rep [unfolded as] bl(1) [unfolded as] bl(2)] by blast
  have mem: "mem_inv m1 (set rest \<union> insert a (set lost \<union> F))" using r(3) by (simp add: bchain_def)
  then obtain c where c: "cells m1 a = Some c" using mem_inv_alive by blast
  have dis: "a \<notin> set as" "a \<notin> F" "set as \<inter> F = {}"
    using rep as by (auto simp: bchain_def dest!: queue_rep_distinct)
  let ?t = "upd_conn (\<lambda>c. c\<lparr>is_sending := True, output_buffer := b1\<rparr>) (s\<lparr>cmem := m1\<rparr>)"
  let ?s = "request (AsyncSend a) ?t"
  have run: "async_send (Some a) ?t = Inr ?s"
    using s(1) c by (auto simp: async_send_def mem_simps)
  have "sender ?s (Some a) rest (set lost \<union> F)"
    using r s dis by (auto simp: sender_def in_flight_def)
  moreover have "cell_bytes (cells m1) a @ concat (chunks m1 rest) = cell_bytes (cells m) a @ concat (chunks m as)"
    using gather_concat [OF r(4)] .
  then have "outgoing ?s (Some a) rest = chain_bytes (cells m) oas"
    using as by (simp add: outgoing_def concat_chunks)
  moreover have "set lost \<inter> F = {}" "length rest < length oas" using dis r(2) as by auto
  ultimately show ?thesis using r(1,6) run
    by (intro exI [of _ "Some a"] exI [of _ b1] exI [of _ m1] exI [of _ ?s] exI [of _ rest] exI [of _ "set lost"]) simp
qed

lemma moveToQueueHead_pieces:
  assumes "bchain m b (a # as) F"
  shows "Buffer_moveToQueueHead b = (Some a, Buffer_new)"
  using assms moveToQueueHead_chain(2) [OF assms]
  by (auto simp: Buffer_moveToQueueHead_def bchain_def queue_rep_def Buffer_new_def)

lemma sendInLoop_ok:
  assumes rep: "sender s fl oas (insert a F)" and aF: "a \<notin> F"
    and a: "cell_ok (cells (cmem s)) a" "cell_bytes (cells (cmem s)) a \<noteq> []"
  shows "\<exists>s' fl' oas' L. sendInLoop (Some a) s = Inr s' \<and> sender s' fl' oas' (L \<union> F)
     \<and> outgoing s' fl' oas' = outgoing s fl oas @ cell_bytes (cells (cmem s)) a \<and> fl' \<noteq> None
     \<and> frame (cmem s) (cmem s') F \<and> status (conn s') = status (conn s)
     \<and> input_buffer (conn s') = input_buffer (conn s) \<and> L \<inter> F = {} \<and> length oas' \<le> Suc (length oas)
     \<and> (fl = None \<longrightarrow> length oas' \<le> length oas)"
proof -
  let ?m = "cmem s" and ?b = "output_buffer (conn s)"
  obtain c where c: "cells ?m a = Some c" "piece_ok c" using a(1) by (auto simp: cell_ok_iff)
  then have pb: "piece_bytes c \<noteq> []" using a(2) by (simp add: cell_bytes_def)
  then have l: "0 < unat (len c)" by (cases "unat (len c) = 0") (auto simp: piece_bytes_def)
  have s: "bchain ?m ?b oas (insert a (set_option fl \<union> F))" "blength ?b = length (chain_bytes (cells ?m) oas)"
    "set_option fl \<inter> insert a F = {}" "is_sending (conn s) = (fl \<noteq> None)"
    "filter is_send (pending s) = in_flight fl" "socket (conn s) \<noteq> None"
    using rep by (auto simp: sender_def)
  obtain b' m' where w: "OutputBuffer_writePieceQueue (Some a) ?b ?m = Inr (b', m')"
    "bchain m' b' (oas @ [a]) (set_option fl \<union> F)" "chunks m' (oas @ [a]) = chunks ?m oas @ [piece_bytes c]"
    "blength b' = blength ?b + unat (len c)" "frame ?m m' (set_option fl \<union> F)"
    using OutputBuffer_writePieceQueue_ok [OF s(1) _ c l] s(3) aF by auto
  have bt: "chain_bytes (cells m') (oas @ [a]) = chain_bytes (cells ?m) oas @ cell_bytes (cells ?m) a"
    using w(3) c(1) concat_chunks [of m' "oas @ [a]"] by (simp add: cell_bytes_def concat_chunks)
  have bl: "blength b' = length (chain_bytes (cells m') (oas @ [a]))"
    using w(4) s(2) c unfolding bt by (simp add: cell_bytes_def)
  let ?s1 = "upd_conn (output_buffer_update (\<lambda>_. b')) (s\<lparr>cmem := m'\<rparr>)"
  show ?thesis
  proof (cases fl)
    case (Some f)
    then have run: "sendInLoop (Some a) s = Inr ?s1" using w(1) s(4) by (simp add: sendInLoop_def)
    have "sender ?s1 fl (oas @ [a]) F" using w(2) bl s Some by (auto simp: sender_def)
    moreover have "cell_bytes (cells m') f = cell_bytes (cells ?m) f"
      using w(5) Some by (simp add: frame_def cell_bytes_def)
    then have "outgoing ?s1 fl (oas @ [a]) = outgoing s fl oas @ cell_bytes (cells ?m) a"
      using bt Some by (simp add: outgoing_def)
    moreover have "frame ?m m' F" using w(5) by (rule frame_mono) auto
    ultimately show ?thesis using run Some
      by (intro exI [of _ ?s1] exI [of _ fl] exI [of _ "oas @ [a]"] exI [of _ "{}"]) simp
  next
    case None
    have rep': "bchain m' b' (oas @ [a]) F" and fr: "frame ?m m' F" using w(2,5) None by simp_all
    have pos: "0 < blength b'" using bl a(2) unfolding bt by simp
    obtain q b1 m1 s' oas' L where st: "OutputBuffer_readPiece b' m' = Inr (q, b1, m1)"
      "async_send q (upd_conn (\<lambda>c. c\<lparr>is_sending := True, output_buffer := b1\<rparr>) (?s1\<lparr>cmem := m1\<rparr>)) = Inr s'"
      "sender s' q oas' (L \<union> F)" "outgoing s' q oas' = chain_bytes (cells m') (oas @ [a])"
      "frame m' (cmem s') F" "q \<noteq> None" "status (conn s') = status (conn ?s1)"
      "input_buffer (conn s') = input_buffer (conn ?s1)" "L \<inter> F = {}" "length oas' < Suc (length oas)"
      using start_write [OF rep' bl pos, of ?s1] s(5,6) None by (auto simp: in_flight_def)
    have "sendInLoop (Some a) s = Inr s'" using w(1) s(4) None st(1,2) by (simp add: sendInLoop_def)
    moreover have "outgoing s' q oas' = outgoing s fl oas @ cell_bytes (cells ?m) a"
      using st(4) bt None by (simp add: outgoing_def)
    ultimately show ?thesis using st(3,6-10) frame_trans [OF fr st(5)]
      by (intro exI [of _ s'] exI [of _ q] exI [of _ oas'] exI [of _ L]) simp
  qed
qed

lemma Buffer_clear_new [simp]: "Buffer_clear Buffer_new m = Inr (Buffer_new, m)"
  by (cases "brk m") (simp_all add: Buffer_clear_def Buffer_new_def Queue_empty_def)

lemma chunked_hd: "chunked d = take kPieceCapacity d # (if length d \<le> kPieceCapacity then [] else chunked (drop kPieceCapacity d))"
  by (subst chunked.simps) simp

lemma sender_frame:
  assumes "sender s fl oas F" and "frame (cmem s) m' (set oas \<union> set_option fl)"
    and "mem_inv m' (set oas \<union> (set_option fl \<union> G))" and "(set oas \<union> set_option fl) \<inter> G = {}"
  shows "sender (s\<lparr>cmem := m'\<rparr>) fl oas G" and "outgoing (s\<lparr>cmem := m'\<rparr>) fl oas = outgoing s fl oas"
proof -
  have b: "bchain (cmem s) (output_buffer (conn s)) oas (set_option fl \<union> F)" using assms(1) by (simp add: sender_def)
  have fr: "frame (cmem s) m' (set oas)" using assms(2) by (rule frame_mono) simp
  have "set oas \<inter> (set_option fl \<union> G) = {}" using b assms(4) by (auto simp: bchain_def)
  note f = bchain_frame [OF b fr assms(3) this]
  have bt: "chain_bytes (cells m') oas = chain_bytes (cells (cmem s)) oas" using f(2) by (metis concat_chunks)
  show "sender (s\<lparr>cmem := m'\<rparr>) fl oas G"
    using assms(1,4) f(1) bt by (auto simp: sender_def)
  show "outgoing (s\<lparr>cmem := m'\<rparr>) fl oas = outgoing s fl oas"
    using assms(2) bt by (cases fl) (auto simp: outgoing_def frame_def cell_bytes_def)
qed

text \<open>The local buffer \<open>send\<close> fills: its first piece has the first 4096 bytes, the other pieces are lost.\<close>

lemma send_packs:
  assumes rep: "sender s fl oas F" and d: "d \<noteq> []"
  shows "\<exists>b m a as. Buffer_write d Buffer_new (cmem s) = Inr (b, m) \<and> Buffer_moveToQueueHead b = (Some a, Buffer_new)
     \<and> sender (s\<lparr>cmem := m\<rparr>) fl oas (insert a (set as \<union> F)) \<and> outgoing (s\<lparr>cmem := m\<rparr>) fl oas = outgoing s fl oas
     \<and> a \<notin> set as \<union> F \<and> set as \<inter> F = {} \<and> cell_ok (cells m) a \<and> cell_bytes (cells m) a = take kPieceCapacity d
     \<and> cell_bytes (cells m) a \<noteq> [] \<and> frame (cmem s) m F"
proof -
  let ?m = "cmem s" and ?G = "set oas \<union> (set_option fl \<union> F)"
  have b: "bchain ?m (output_buffer (conn s)) oas (set_option fl \<union> F)" "set_option fl \<inter> F = {}"
    using rep by (auto simp: sender_def)
  then have inv: "mem_inv ?m ?G" by (simp add: bchain_def)
  obtain b' m' bs where w: "Buffer_write d Buffer_new ?m = Inr (b', m')" "bchain m' b' bs ?G"
    "chunks m' bs = chunked d" "frame ?m m' ?G"
    using Buffer_write_ok [OF bchain_new [OF inv], of d] by (auto simp: write_chunks_def chunks_def)
  then obtain a as where as: "bs = a # as" "cell_bytes (cells m') a = take kPieceCapacity d"
    using chunked_hd [of d] by (cases bs) (auto simp: chunks_def)
  have dis: "set bs \<inter> ?G = {}" "a \<notin> set as" using w(2) as by (auto simp: bchain_def dest!: queue_rep_distinct)
  have inv': "mem_inv m' (set oas \<union> (set_option fl \<union> (set bs \<union> F)))"
    using w(2) by (simp add: bchain_def Un_ac)
  have "(set oas \<union> set_option fl) \<inter> (set bs \<union> F) = {}"
    using dis(1) b by (auto simp: bchain_def)
  moreover have "frame ?m m' (set oas \<union> set_option fl)" using w(4) by (rule frame_mono) auto
  ultimately have "sender (s\<lparr>cmem := m'\<rparr>) fl oas (insert a (set as \<union> F))"
    "outgoing (s\<lparr>cmem := m'\<rparr>) fl oas = outgoing s fl oas"
    using sender_frame [OF rep _ inv'] as(1) by simp_all
  moreover have "cell_ok (cells m') a" "cell_bytes (cells m') a \<noteq> []"
    using w(2) as d by (auto simp: bchain_def kPieceCapacity_def)
  moreover have "Buffer_moveToQueueHead b' = (Some a, Buffer_new)" using moveToQueueHead_pieces w(2) as(1) by blast
  moreover have "frame ?m m' F" using w(4) by (rule frame_mono) auto
  moreover have "a \<notin> set as \<union> F" "set as \<inter> F = {}" using dis as(1) by auto
  ultimately show ?thesis using w(1) as(2) by blast
qed

lemma TCPConn_send_ok:
  assumes rep: "sender s fl oas F" and st: "status (conn s) = kConnected" and d: "d \<noteq> []"
  shows "\<exists>s' fl' oas' L. TCPConn_send True d s = Inr s' \<and> sender s' fl' oas' (L \<union> F)
     \<and> outgoing s' fl' oas' = outgoing s fl oas @ take kPieceCapacity d \<and> fl' \<noteq> None
     \<and> frame (cmem s) (cmem s') F \<and> status (conn s') = kConnected
     \<and> input_buffer (conn s') = input_buffer (conn s) \<and> L \<inter> F = {} \<and> length oas' \<le> Suc (length oas)
     \<and> (fl = None \<longrightarrow> length oas' \<le> length oas)"
proof -
  obtain b m a as where p: "Buffer_write d Buffer_new (cmem s) = Inr (b, m)" "Buffer_moveToQueueHead b = (Some a, Buffer_new)"
    "sender (s\<lparr>cmem := m\<rparr>) fl oas (insert a (set as \<union> F))" "outgoing (s\<lparr>cmem := m\<rparr>) fl oas = outgoing s fl oas"
    "a \<notin> set as \<union> F" "set as \<inter> F = {}" "cell_ok (cells m) a" "cell_bytes (cells m) a = take kPieceCapacity d"
    "cell_bytes (cells m) a \<noteq> []" "frame (cmem s) m F"
    using send_packs [OF rep d] by blast
  obtain s' fl' oas' L where r: "sendInLoop (Some a) (s\<lparr>cmem := m\<rparr>) = Inr s'" "sender s' fl' oas' (L \<union> (set as \<union> F))"
    "outgoing s' fl' oas' = outgoing s fl oas @ take kPieceCapacity d" "fl' \<noteq> None"
    "frame m (cmem s') (set as \<union> F)" "status (conn s') = kConnected"
    "input_buffer (conn s') = input_buffer (conn s)" "L \<inter> (set as \<union> F) = {}" "length oas' \<le> Suc (length oas)" "fl = None \<longrightarrow> length oas' \<le> length oas"
    using sendInLoop_ok [OF p(3,5)] p(4,7-9) st by auto
  have "TCPConn_send True d s = Inr s'"
    using st d p(1,2) r(1) by (simp add: TCPConn_send_def)
  moreover have "frame (cmem s) (cmem s') F"
    using p(10) frame_mono [OF r(5)] by (auto intro: frame_trans)
  moreover have "(L \<union> set as) \<inter> F = {}" using r(8) p(6) by auto
  ultimately show ?thesis using r(2-4,6,7,9,10)
    by (intro exI [of _ s'] exI [of _ fl'] exI [of _ oas'] exI [of _ "L \<union> set as"]) (simp add: Un_assoc)
qed

lemma handleWrite_ok:
  assumes rep: "sender s (Some a) oas F"
  shows "\<exists>s' fl' oas' L. handleWrite cbs a Success (taken (AsyncSend a) s) = Inr s' \<and> sender s' fl' oas' (L \<union> F)
     \<and> outgoing s' fl' oas' = chain_bytes (cells (cmem s)) oas
     \<and> (fl' = None \<longrightarrow> outgoing s' fl' oas' = []) \<and> frame (cmem s) (cmem s') F
     \<and> status (conn s') = status (conn s) \<and> input_buffer (conn s') = input_buffer (conn s) \<and> L \<inter> F = {}
     \<and> length oas' \<le> length oas \<and> (fl' = None \<or> length oas' < length oas)"
proof -
  let ?m = "cmem s" and ?b = "output_buffer (conn s)"
  have s: "bchain ?m ?b oas (insert a F)" "blength ?b = length (chain_bytes (cells ?m) oas)" "a \<notin> F"
    "filter is_send (pending s) = [AsyncSend a]" "socket (conn s) \<noteq> None"
    using rep by (auto simp: sender_def in_flight_def)
  have none: "filter is_send (remove1 (AsyncSend a) (pending s)) = []"
    using s(4) by (metis filter_remove1 remove1.simps(2))
  have a: "a \<notin> set oas \<union> F" "set oas \<inter> F = {}" using s(1,3) by (auto simp: bchain_def)
  have "mem_inv ?m (insert a (set oas \<union> F))" using s(1) by (simp add: bchain_def)
  then obtain m where m: "deletePiece (Some a) ?m = Inr m" "mem_inv m (set oas \<union> F)" "frame ?m m (set oas \<union> F)"
    using deletePiece_ok a(1) by blast
  have frs: "frame ?m m (set oas)" "frame ?m m F" using m(3) by (auto intro: frame_mono)
  note f = bchain_frame [OF s(1) frs(1) m(2) a(2)]
  have bt: "chain_bytes (cells m) oas = chain_bytes (cells ?m) oas" using f(2) by (metis concat_chunks)
  let ?s2 = "(upd_conn (is_sending_update (\<lambda>_. False)) (taken (AsyncSend a) s))\<lparr>cmem := m\<rparr>"
  have run: "handleWrite cbs a Success (taken (AsyncSend a) s) = launchWrite ?s2"
    using m(1) by (simp add: handleWrite_def)
  show ?thesis
  proof (cases "0 < blength ?b")
    case True
    have bl: "blength ?b = length (chain_bytes (cells m) oas)" using s(2) bt by simp
    obtain q b1 m1 s' oas' L where st: "OutputBuffer_readPiece ?b m = Inr (q, b1, m1)"
      "async_send q (upd_conn (\<lambda>c. c\<lparr>is_sending := True, output_buffer := b1\<rparr>) (?s2\<lparr>cmem := m1\<rparr>)) = Inr s'"
      "sender s' q oas' (L \<union> F)" "outgoing s' q oas' = chain_bytes (cells m) oas"
      "frame m (cmem s') F" "q \<noteq> None" "status (conn s') = status (conn ?s2)"
      "input_buffer (conn s') = input_buffer (conn ?s2)" "L \<inter> F = {}" "length oas' < length oas"
      using start_write [OF f(1) bl True, of ?s2] s(5) none by auto
    have "launchWrite ?s2 = Inr s'" using True st(1,2) by (simp add: launchWrite_def Buffer_length_def)
    then show ?thesis using run st(3,4,6-10) bt frame_trans [OF frs(2) st(5)]
      by (intro exI [of _ s'] exI [of _ q] exI [of _ oas'] exI [of _ L]) auto
  next
    case False
    then have "launchWrite ?s2 = Inr ?s2" by (simp add: launchWrite_def Buffer_length_def)
    moreover have "sender ?s2 None oas F"
      using f(1) s bt none by (auto simp: sender_def in_flight_def)
    moreover have "outgoing ?s2 None oas = chain_bytes (cells ?m) oas" using bt by (simp add: outgoing_def)
    ultimately show ?thesis using run frs(2) False s(2)
      by (intro exI [of _ ?s2] exI [of _ None] exI [of _ oas] exI [of _ "{}"]) simp
  qed
qed

section \<open>The receiving side\<close>

lemma bchain_held_upd:
  assumes rep: "bchain m b as (insert a F)" and c: "length (data c) = kPieceCapacity"
  defines "m' \<equiv> m\<lparr>cells := (cells m)(a \<mapsto> c)\<rparr>"
  shows "bchain m' b as (insert a F)" and "chunks m' as = chunks m as"
proof -
  have a: "a \<notin> set as" using rep by (auto simp: bchain_def)
  have fr: "frame m m' (set as)" using a by (auto simp: frame_def m'_def)
  have "mem_inv m' (set as \<union> insert a F)"
    unfolding m'_def using rep c by (intro mem_inv_upd) (auto simp: bchain_def)
  moreover have "set as \<inter> insert a F = {}" using rep by (simp add: bchain_def)
  ultimately show "bchain m' b as (insert a F)" "chunks m' as = chunks m as"
    using bchain_frame [OF rep fr] by blast+
qed

lemma taken_cmem: "(taken r s)\<lparr>cmem := m\<rparr> = taken r (s\<lparr>cmem := m\<rparr>)"
  by (cases s) (simp add: taken_def)

text \<open>
  A read completes with the bytes \<open>d\<close>: they are appended to the input buffer, then the message
  callback runs and the next read is started.
\<close>

lemma receive_ok:
  assumes rep: "bchain (cmem s) (input_buffer (conn s)) ias (insert a F)" "a \<notin> F"
    and bl: "blength (input_buffer (conn s)) = length (chain_bytes (cells (cmem s)) ias)"
    and dn: "\<forall>c \<in> set (chunks (cmem s) ias). c \<noteq> []"
    and c: "cells (cmem s) a = Some c" "off c = 0"
    and d: "d \<noteq> []" "length d \<le> kPieceCapacity"
    and room: "cache_has_room (cmem s)"
  shows "\<exists>b m. rbind (kernel_store a d (cmem s)) (\<lambda>m. handleRead cbs a Success (length d) (taken r (s\<lparr>cmem := m\<rparr>)))
      = rbind (call MessageCb (message_cb cbs) (upd_conn (input_buffer_update (\<lambda>_. b)) (taken r (s\<lparr>cmem := m\<rparr>)))) launchRead
     \<and> dense m b (chain_bytes (cells (cmem s)) ias @ d) F \<and> frame (cmem s) m F"
proof -
  let ?m = "cmem s" and ?b = "input_buffer (conn s)"
  have l: "length (data c) = kPieceCapacity" using rep c mem_inv_alive by (fastforce simp: bchain_def)
  let ?c1 = "c\<lparr>data := d @ drop (length d) (data c)\<rparr>"
  let ?m1 = "?m\<lparr>cells := (cells ?m)(a \<mapsto> ?c1)\<rparr>"
  have k: "kernel_store a d ?m = Inr ?m1"
    using c d(2) l by (simp add: kernel_store_def mem_simps)
  have r1: "bchain ?m1 ?b ias (insert a F)" "chunks ?m1 ias = chunks ?m ias"
    using bchain_held_upd [OF rep(1), of ?c1] l d(2) by simp_all
  let ?c2 = "?c1\<lparr>len := word_of_nat (length d)\<rparr>"
  let ?m2 = "?m1\<lparr>cells := (cells ?m1)(a \<mapsto> ?c2)\<rparr>"
  have r2: "bchain ?m2 ?b ias (insert a F)" "chunks ?m2 ias = chunks ?m ias"
    using bchain_held_upd [OF r1(1), of ?c2] r1(2) l d(2) by simp_all
  have u: "unat (len ?c2) = length d" using d(2) by (simp add: kPieceCapacity_def)
  have ok: "piece_ok ?c2" and pb: "piece_bytes ?c2 = d"
    using u c(2) l d(2) by (auto simp: piece_ok_def piece_bytes_def)
  have a: "cell_ok (cells ?m2) a" "cell_bytes (cells ?m2) a = d" using ok pb by (simp_all add: cell_ok_def cell_bytes_def)
  have "cache_has_room ?m2" using room by (simp add: cache_has_room_def)
  then obtain b m as' where w: "InputBuffer_writePiece (Some a) ?b ?m2 = Inr (b, m)" "bchain m b as' F"
    "concat (chunks m as') = concat (chunks ?m2 ias) @ d" "blength b = blength ?b + length d" "frame ?m2 m F"
    "\<forall>x \<in> set (chunks m as'). x \<noteq> []"
    using writePiece_chain [OF r2(1) rep(2) a(1)] a(2) d(1) dn r2(2) by auto
  have "chain_bytes (cells m) as' = chain_bytes (cells ?m) ias @ d"
    using w(3) r2(2) by (simp only: concat_chunks)
  then have "dense m b (chain_bytes (cells ?m) ias @ d) F"
    unfolding dense_def using w(2,4,6) bl by (intro exI [of _ as']) simp
  moreover have "frame ?m ?m2 F" using rep(2) by (auto simp: frame_def)
  then have "frame ?m m F" using w(5) frame_trans by blast
  moreover have "handleRead cbs a Success (length d) (taken r (s\<lparr>cmem := ?m1\<rparr>))
      = rbind (call MessageCb (message_cb cbs) (upd_conn (input_buffer_update (\<lambda>_. b)) (taken r (s\<lparr>cmem := m\<rparr>)))) launchRead"
    using w(1) by (simp add: handleRead_def mem_simps taken_cmem)
  ultimately show ?thesis using k by auto
qed

text \<open>A send task that runs after the socket is gone.\<close>

lemma sendInLoop_without_socket:
  assumes rep: "bchain (cmem s) (output_buffer (conn s)) oas (insert a F)" "a \<notin> F"
    and bl: "blength (output_buffer (conn s)) = length (chain_bytes (cells (cmem s)) oas)"
    and a: "cell_ok (cells (cmem s)) a" "cell_bytes (cells (cmem s)) a \<noteq> []"
    and st: "\<not> is_sending (conn s)" "socket (conn s) = None"
  shows "sendInLoop (Some a) s = Inl NullDeref"
proof -
  let ?s = "upd_conn (socket_update (\<lambda>_. Some True)) (s\<lparr>pending := []\<rparr>)"
  let ?m = "cmem s" and ?b = "output_buffer (conn s)"
  obtain c where c: "cells ?m a = Some c" "piece_ok c" "piece_bytes c \<noteq> []"
    using a by (auto simp: cell_ok_iff cell_bytes_def)
  then have l: "0 < unat (len c)" by (cases "unat (len c) = 0") (auto simp: piece_bytes_def)
  obtain b' m' where w: "OutputBuffer_writePieceQueue (Some a) ?b ?m = Inr (b', m')" "bchain m' b' (oas @ [a]) F"
    "chunks m' (oas @ [a]) = chunks ?m oas @ [piece_bytes c]" "blength b' = blength ?b + unat (len c)"
    using OutputBuffer_writePieceQueue_ok [OF rep c(1,2) l] by blast
  have "chain_bytes (cells m') (oas @ [a]) = chain_bytes (cells ?m) oas @ piece_bytes c"
    using w(3) concat_chunks [of m' "oas @ [a]"] by (simp add: concat_chunks)
  then have bl': "blength b' = length (chain_bytes (cells m') (oas @ [a]))" "0 < blength b'"
    using w(4) bl c(2) l by simp_all
  obtain q b1 m1 s' where r: "OutputBuffer_readPiece b' m' = Inr (q, b1, m1)"
    "async_send q (upd_conn (\<lambda>c. c\<lparr>is_sending := True, output_buffer := b1\<rparr>) (?s\<lparr>cmem := m1\<rparr>)) = Inr s'"
    using start_write [OF w(2) bl', of ?s] by auto
  then obtain x where "mderef q m1 = Inr x" by (auto simp: async_send_def rbind_eq_Inr_iff)
  then show ?thesis using w(1) r(1) st by (simp add: sendInLoop_def async_send_def)
qed

section \<open>Properties\<close>

lemma open_world_sender: "sender open_world None [] {0}" "outgoing open_world None [] = []"
  using open_world_run
  by (simp_all add: sender_def outgoing_def TCPConn_new_def Buffer_new_def bchain_def queue_rep_def in_flight_def)

text \<open>
  C19. Bytes that arrive are appended to the input buffer in order: when the pending read completes
  with \<open>d\<close>, the step calls the message callback on a world whose input buffer carries the old bytes
  followed by \<open>d\<close>, without an empty piece, and then starts the next read. This holds for 1 to 4096 bytes, on a
  well-formed input buffer without empty pieces, and while the pool's cache has room for one more
  piece: with a full cache, bytes that are merged into the last piece of the buffer end in a use
  after free instead.
\<close>

theorem receive_appends:
  assumes "AsyncRead a \<in> set (pending s)"
    and "bchain (cmem s) (input_buffer (conn s)) ias (insert a F)" and "a \<notin> F"
    and "blength (input_buffer (conn s)) = length (chain_bytes (cells (cmem s)) ias)"
    and "\<forall>c \<in> set (chunks (cmem s) ias). c \<noteq> []"
    and "cells (cmem s) a = Some c" and "off c = 0"
    and "d \<noteq> []" and "length d \<le> kPieceCapacity" and "cache_has_room (cmem s)"
  shows "\<exists>b m. conn_step cbs s
      (rbind (call MessageCb (message_cb cbs)
        (upd_conn (input_buffer_update (\<lambda>_. b)) (taken (AsyncRead a) (s\<lparr>cmem := m\<rparr>)))) launchRead)
    \<and> dense m b (chain_bytes (cells (cmem s)) ias @ d) F \<and> frame (cmem s) m F"
proof -
  obtain b m where r: "rbind (kernel_store a d (cmem s)) (\<lambda>m. handleRead cbs a Success (length d) (taken (AsyncRead a) (s\<lparr>cmem := m\<rparr>)))
      = rbind (call MessageCb (message_cb cbs) (upd_conn (input_buffer_update (\<lambda>_. b)) (taken (AsyncRead a) (s\<lparr>cmem := m\<rparr>)))) launchRead"
    "dense m b (chain_bytes (cells (cmem s)) ias @ d) F" "frame (cmem s) m F"
    using receive_ok [OF assms(2-10), of cbs "AsyncRead a"] by blast
  show ?thesis
    using conn_step.read_done [OF assms(1,8), of cbs] r(2,3) unfolding r(1)
    by (intro exI [of _ b] exI [of _ m] conjI) assumption+
qed

lemma open_world_piece:
  "\<exists>c. cells (cmem open_world) 0 = Some c \<and> off c = 0" "cache_has_room (cmem open_world)"
  by (simp_all add: open_world_def connectEstablished_def idle_world_def idle_cbs_def TCPConn_new_def
      launchRead_def world_defs newPiece_def mem_start_def PiecePool_new_def Queue_new_def Queue_pop_def
      mderef_def deref_def cache_has_room_def BASE_CACHE_COUNT_def Let_def raw_piece_def)

theorem receive_appends_witness:
  "\<exists>b m. conn_step idle_cbs open_world
      (rbind (call MessageCb (message_cb idle_cbs)
        (upd_conn (input_buffer_update (\<lambda>_. b)) (taken (AsyncRead 0) (open_world\<lparr>cmem := m\<rparr>)))) launchRead)
    \<and> dense m b [9, 8] {}"
proof -
  obtain c where c: "cells (cmem open_world) 0 = Some c" "off c = 0" using open_world_piece(1) by blast
  have b: "bchain (cmem open_world) (input_buffer (conn open_world)) [] (insert 0 {})"
    using open_world_run(2,4) by (simp add: TCPConn_new_def Buffer_new_def bchain_def queue_rep_def)
  have "blength (input_buffer (conn open_world)) = 0" "AsyncRead 0 \<in> set (pending open_world)"
    using open_world_run(2,3) by (simp_all add: TCPConn_new_def Buffer_new_def)
  then show ?thesis
    using receive_appends [OF _ b _ _ _ c _ _ open_world_piece(2), of "[9, 8]" idle_cbs]
    by (auto simp: chunks_def kPieceCapacity_def)
qed





text \<open>
  A \<open>send\<close> from another thread whose task runs after the connection has been closed (by an
  error, say) dereferences the null \<open>socket_\<close>, unless a write is still in flight.
\<close>

theorem queued_send_after_close:
  assumes "SendTask (Some a) \<in> set (pending s)" and "status (conn s) = kDisconnected" and "socket (conn s) = None"
    and "\<not> is_sending (conn s)"
    and "bchain (cmem s) (output_buffer (conn s)) oas (insert a F)" and "a \<notin> F"
    and "blength (output_buffer (conn s)) = length (chain_bytes (cells (cmem s)) oas)"
    and "cell_ok (cells (cmem s)) a" and "cell_bytes (cells (cmem s)) a \<noteq> []"
  shows "conn_step cbs s (Inl NullDeref)"
  using conn_step.send_task [OF assms(1), of cbs]
    sendInLoop_without_socket [of "taken (SendTask (Some a)) s" oas a F] assms by simp

theorem queued_send_after_close_witness:
  "conn_step idle_cbs \<lparr>conn = (TCPConn_new 1 (7, 8))\<lparr>socket := None\<rparr>, cmem = pair_mem, pending = [SendTask (Some 0)],
     calls = [], user = ()\<rparr> (Inl NullDeref)"
proof -
  let ?s = "\<lparr>conn = (TCPConn_new 1 (7, 8))\<lparr>socket := None\<rparr>, cmem = pair_mem, pending = [SendTask (Some 0)],
     calls = [], user = ()\<rparr>"
  have "bchain pair_mem Buffer_new [] (insert 0 {})"
    using pair_ok(1) by (auto simp: bchain_def Buffer_new_def queue_rep_def)
  then show ?thesis
    using queued_send_after_close [of 0 ?s "[]" "{}" idle_cbs] pair_ok by (simp add: TCPConn_new_def Buffer_new_def bchain_def)
qed

end
