(* ===== verification/Conn_Stream.thy ===== *)
theory Conn_Stream
  imports Conn_Data
begin

text \<open>
  Sequences of sends: from the loop thread, where \<open>send\<close> runs \<open>sendInLoop\<close> at once, and from other threads, where it
  posts a task; tasks run and writes complete in any order. The reference is a list of bytes that have been accepted
  and the list of the messages that still wait in the loop.
\<close>

section \<open>Actions\<close>

datatype action = Send "byte list" | Post "byte list" | RunTask nat | WriteDone nat

fun is_task :: "request \<Rightarrow> bool" where
  "is_task (SendTask _) = True"
| "is_task _ = False"

text \<open>
  An action comes with the writes it completes: \<open>WriteDone n\<close> is the completion of the pending \<open>async_send\<close> with \<open>n\<close> bytes
  transferred. \<open>RunTask n\<close> runs the posted task number \<open>n\<close>; with no such task, or no write in flight, a completion does nothing.
\<close>

definition exec_action :: "'u conn_callbacks \<Rightarrow> action \<Rightarrow> 'u world \<Rightarrow> error + (writes \<times> 'u world)" where
  "exec_action cbs x s = (case x of
     Send d \<Rightarrow> rbind (TCPConn_send True d s) (\<lambda>s1. Inr ([], s1))
   | Post d \<Rightarrow> rbind (TCPConn_send False d s) (\<lambda>s1. Inr ([], s1))
   | RunTask n \<Rightarrow> (case drop n (filter is_task (pending s)) of
       SendTask p # _ \<Rightarrow> rbind (sendInLoop p (taken (SendTask p) s)) (\<lambda>s1. Inr ([], s1))
     | _ \<Rightarrow> Inr ([], s))
   | WriteDone n \<Rightarrow> (case filter is_send (pending s) of
       AsyncSend a # _ \<Rightarrow>
         rbind (mderef (Some a) (cmem s)) (\<lambda>c.
         rbind (handleWrite cbs a Success (taken (AsyncSend a) s)) (\<lambda>s1. Inr ([(n, piece_bytes c)], s1)))
     | _ \<Rightarrow> Inr ([], s)))"

primrec exec_actions :: "'u conn_callbacks \<Rightarrow> action list \<Rightarrow> 'u world \<Rightarrow> error + (writes \<times> 'u world)" where
  "exec_actions cbs [] s = Inr ([], s)"
| "exec_actions cbs (x # xs) s =
     rbind (exec_action cbs x s) (\<lambda>(v, s1).
     rbind (exec_actions cbs xs s1) (\<lambda>(w, s2). Inr (v @ w, s2)))"

text \<open>
  The reference: the bytes an action adds to the stream, and the messages posted and not yet run. Of each message
  only the first 4096 bytes count.
\<close>

fun accept_action :: "action \<Rightarrow> byte list list \<Rightarrow> byte list \<times> byte list list" where
  "accept_action (Send d) q = (take kPieceCapacity d, q)"
| "accept_action (Post d) q = ([], if d = [] then q else q @ [take kPieceCapacity d])"
| "accept_action (RunTask n) q = (concat (take 1 (drop n q)), take n q @ drop (Suc n) q)"
| "accept_action (WriteDone n) q = ([], q)"

primrec accept_actions :: "action list \<Rightarrow> byte list list \<Rightarrow> byte list \<times> byte list list" where
  "accept_actions [] q = ([], q)"
| "accept_actions (x # xs) q =
     (let (v, q1) = accept_action x q; (w, q2) = accept_actions xs q1 in (v @ w, q2))"

section \<open>The state of the sending side\<close>

text \<open>
  The output side of a connection and the first pieces \<open>qs\<close> of the messages whose tasks are pending. When no write
  is in flight, nothing waits in the output buffer.
\<close>

definition waiting :: "mem \<Rightarrow> addr list \<Rightarrow> byte list list" where
  "waiting m qs = map (cell_bytes (cells m)) qs"

definition streaming :: "'u world \<Rightarrow> addr option \<Rightarrow> addr list \<Rightarrow> addr list \<Rightarrow> addr set \<Rightarrow> bool" where
  "streaming s fl oas qs F \<longleftrightarrow> sender s fl oas (set qs \<union> F) \<and> (fl = None \<longrightarrow> outgoing s fl oas = [])
     \<and> filter is_task (pending s) = map (SendTask \<circ> Some) qs \<and> distinct qs \<and> set qs \<inter> F = {}
     \<and> (\<forall>a \<in> set qs. cell_ok (cells (cmem s)) a \<and> cell_bytes (cells (cmem s)) a \<noteq> [])
     \<and> status (conn s) = kConnected"

lemma sender_pending:
  "filter is_send p = filter is_send (pending s) \<Longrightarrow> sender (s\<lparr>pending := p\<rparr>) fl oas F = sender s fl oas F"
  by (simp add: sender_def)

lemma outgoing_pending: "outgoing (s\<lparr>pending := p\<rparr>) fl oas = outgoing s fl oas"
  by (cases fl) (simp_all add: outgoing_def)

lemma waiting_frame: "frame m m' F \<Longrightarrow> set qs \<subseteq> F \<Longrightarrow> waiting m' qs = waiting m qs"
  by (auto simp: waiting_def frame_def cell_bytes_def)

lemma streamingI:
  assumes old: "streaming s fl oas qs F"
    and new: "sender s' fl' oas' (L \<union> (set qs' \<union> F))" "L \<inter> (set qs' \<union> F) = {}" "fl' = None \<longrightarrow> outgoing s' fl' oas' = []"
      "filter is_task (pending s') = map (SendTask \<circ> Some) qs'" "status (conn s') = kConnected"
    and qs: "set qs' \<subseteq> set qs" "distinct qs'" and fr: "frame (cmem s) (cmem s') (set qs' \<union> F)"
  shows "streaming s' fl' oas' qs' (L \<union> F)" and "waiting (cmem s') qs' = waiting (cmem s) qs'"
proof -
  show "waiting (cmem s') qs' = waiting (cmem s) qs'" using waiting_frame [OF fr] by blast
  have "cell_ok (cells (cmem s')) a \<and> cell_bytes (cells (cmem s')) a \<noteq> []" if "a \<in> set qs'" for a
    using old qs(1) that fr by (auto simp: streaming_def frame_def cell_ok_def cell_bytes_def)
  then show "streaming s' fl' oas' qs' (L \<union> F)"
    using old new qs unfolding streaming_def by (auto simp: Un_ac)
qed

text \<open>The tasks are not touched by what the loop does with the output buffer.\<close>

lemma async_send_tasks: "async_send p s = Inr s' \<Longrightarrow> filter is_task (pending s') = filter is_task (pending s)"
  by (auto simp: async_send_def rbind_eq_Inr_iff request_def split: option.splits)

lemma sendInLoop_tasks:
  assumes "sendInLoop p s = Inr s'"
  shows "filter is_task (pending s') = filter is_task (pending s)"
  using assms by (auto simp: sendInLoop_def rbind_eq_Inr_iff Let_def upd_conn_def split: prod.splits if_splits dest!: async_send_tasks)

lemma TCPConn_send_tasks:
  assumes "TCPConn_send True d s = Inr s'"
  shows "filter is_task (pending s') = filter is_task (pending s)"
  using assms by (auto simp: TCPConn_send_def rbind_eq_Inr_iff Let_def case_prod_unfold split: if_splits dest!: sendInLoop_tasks)

lemma handleWrite_tasks:
  assumes "handleWrite cbs a Success s = Inr s'"
  shows "filter is_task (pending s') = filter is_task (pending s)"
  using assms by (auto simp: handleWrite_def launchWrite_def rbind_eq_Inr_iff Let_def upd_conn_def
      split: prod.splits if_splits dest!: async_send_tasks)

lemma taken_send: "filter is_send (pending (taken (SendTask p) s)) = filter is_send (pending s)"
  by (simp add: taken_def filter_remove1 remove1_idem)

lemma remove1_nth: "distinct xs \<Longrightarrow> n < length xs \<Longrightarrow> remove1 (xs ! n) xs = take n xs @ drop (Suc n) xs"
proof (induction xs arbitrary: n)
  case (Cons x xs)
  then show ?case by (cases n) auto
qed simp

lemma remove1_map: "inj f \<Longrightarrow> remove1 (f x) (map f xs) = map f (remove1 x xs)"
  by (induction xs) (auto dest: injD)

lemma taken_tasks:
  "filter is_task (pending (taken r s)) = (if is_task r then remove1 r (filter is_task (pending s)) else filter is_task (pending s))"
  by (simp add: taken_def filter_remove1 remove1_idem)

text \<open>
  One action keeps the state, never fails and adds to the stream what the reference says; the output buffer grows by
  at most one piece, and a completed write shortens it.
\<close>

definition action_result ::
  "'u conn_callbacks \<Rightarrow> action \<Rightarrow> 'u world \<Rightarrow> addr option \<Rightarrow> addr list \<Rightarrow> addr list \<Rightarrow> addr set \<Rightarrow>
   writes \<Rightarrow> 'u world \<Rightarrow> addr option \<Rightarrow> addr list \<Rightarrow> addr list \<Rightarrow> addr set \<Rightarrow> bool" where
  "action_result cbs x s fl oas qs F v s' fl' oas' qs' L \<longleftrightarrow>
     exec_action cbs x s = Inr (v, s') \<and> streaming s' fl' oas' qs' (L \<union> F)
     \<and> (handed v @ outgoing s' fl' oas', waiting (cmem s') qs')
       = (outgoing s fl oas @ fst (accept_action x (waiting (cmem s) qs)), snd (accept_action x (waiting (cmem s) qs)))
     \<and> frame (cmem s) (cmem s') F \<and> length oas' \<le> Suc (length oas)
     \<and> ((\<exists>n. x = WriteDone n) \<longrightarrow> fl' = None \<or> length oas' < length oas)"

lemma streamingD:
  assumes "streaming s fl oas qs F"
  shows "sender s fl oas (set qs \<union> F)" and "fl = None \<Longrightarrow> outgoing s fl oas = []"
    and "filter is_task (pending s) = map (SendTask \<circ> Some) qs" and "distinct qs" and "set qs \<inter> F = {}"
    and "status (conn s) = kConnected" and "filter is_send (pending s) = in_flight fl"
  using assms by (simp_all add: streaming_def sender_def)

lemma action_idle:
  assumes "streaming s fl oas qs F" and "exec_action cbs x s = Inr ([], s)"
    and "accept_action x (waiting (cmem s) qs) = ([], waiting (cmem s) qs)" and "(\<exists>n. x = WriteDone n) \<longrightarrow> fl = None"
  shows "\<exists>v s' fl' oas' qs' L. action_result cbs x s fl oas qs F v s' fl' oas' qs' L"
  using assms by (intro exI [of _ "[]"] exI [of _ s] exI [of _ fl] exI [of _ oas] exI [of _ qs] exI [of _ "{}"])
    (simp add: action_result_def)

text \<open>An action that runs in the loop: what it did to the sender, and the tasks \<open>qs'\<close> that are left.\<close>

lemma action_in_loop:
  assumes st: "streaming s fl oas qs F" and run: "exec_action cbs x s = Inr (v, s')"
    and new: "sender s' fl' oas' (L \<union> (set qs' \<union> F))" "L \<inter> (set qs' \<union> F) = {}" "fl' = None \<longrightarrow> outgoing s' fl' oas' = []"
      "filter is_task (pending s') = map (SendTask \<circ> Some) qs'" "status (conn s') = kConnected"
      "frame (cmem s) (cmem s') (set qs' \<union> F)"
    and qs: "set qs' \<subseteq> set qs" "distinct qs'"
    and ref: "accept_action x (waiting (cmem s) qs) = (u, waiting (cmem s) qs')" "handed v @ outgoing s' fl' oas' = outgoing s fl oas @ u"
    and bd: "length oas' \<le> Suc (length oas)" "(\<exists>n. x = WriteDone n) \<longrightarrow> fl' = None \<or> length oas' < length oas"
  shows "\<exists>v s' fl' oas' qs' L. action_result cbs x s fl oas qs F v s' fl' oas' qs' L"
proof -
  have "frame (cmem s) (cmem s') F" using new(6) by (rule frame_mono) simp
  then have "action_result cbs x s fl oas qs F v s' fl' oas' qs' L"
    using run streamingI [OF st new(1-5) qs new(6)] ref bd by (simp add: action_result_def)
  then show ?thesis by blast
qed

lemma exec_Send:
  assumes st: "streaming s fl oas qs F"
  shows "\<exists>v s' fl' oas' qs' L. action_result cbs (Send d) s fl oas qs F v s' fl' oas' qs' L"
proof (cases "d = []")
  case True
  then show ?thesis by (intro action_idle [OF st]) (simp_all add: exec_action_def TCPConn_send_def)
next
  case False
  note D = streamingD [OF st]
  obtain s' fl' oas' L where r: "TCPConn_send True d s = Inr s'" "sender s' fl' oas' (L \<union> (set qs \<union> F))"
    "outgoing s' fl' oas' = outgoing s fl oas @ take kPieceCapacity d" "fl' \<noteq> None"
    "frame (cmem s) (cmem s') (set qs \<union> F)" "status (conn s') = kConnected" "L \<inter> (set qs \<union> F) = {}"
    "length oas' \<le> Suc (length oas)"
    using TCPConn_send_ok [OF D(1,6) False] by blast
  have run: "exec_action cbs (Send d) s = Inr ([], s')" using r(1) by (simp add: exec_action_def)
  have tasks: "filter is_task (pending s') = map (SendTask \<circ> Some) qs" using TCPConn_send_tasks [OF r(1)] D(3) by simp
  show ?thesis using r(3,4,8) by (intro action_in_loop [OF st run r(2,7) _ tasks r(6,5) subset_refl D(4)]) auto
qed

lemma exec_RunTask:
  assumes st: "streaming s fl oas qs F"
  shows "\<exists>v s' fl' oas' qs' L. action_result cbs (RunTask n) s fl oas qs F v s' fl' oas' qs' L"
proof (cases "n < length qs")
  case False
  then show ?thesis using streamingD(3) [OF st]
    by (intro action_idle [OF st]) (simp_all add: exec_action_def waiting_def drop_map)
next
  case True
  note D = streamingD [OF st]
  let ?a = "qs ! n" and ?qs = "take n qs @ drop (Suc n) qs"
  let ?t = "taken (SendTask (Some ?a)) s"
  have rm1: "?qs = remove1 ?a qs" using remove1_nth [OF D(4) True] by simp
  have rm: "remove1 ?a qs = ?qs" "?a \<notin> set ?qs" "distinct ?qs" "insert ?a (set ?qs) = set qs"
    using D(4) True unfolding rm1 by (auto simp: set_remove1_eq)
  have t: "sender ?t fl oas (insert ?a (set ?qs) \<union> F)" "outgoing ?t fl oas = outgoing s fl oas" "cmem ?t = cmem s"
    using D(1) taken_send [of "Some ?a" s] unfolding rm(4) by (simp_all add: sender_pending outgoing_pending taken_def)
  have a: "?a \<notin> set ?qs \<union> F" "cell_ok (cells (cmem s)) ?a" "cell_bytes (cells (cmem s)) ?a \<noteq> []"
    using st nth_mem [OF True] rm(2) by (auto simp: streaming_def simp del: nth_mem)
  obtain s' fl' oas' L where r: "sendInLoop (Some ?a) ?t = Inr s'" "sender s' fl' oas' (L \<union> (set ?qs \<union> F))"
    "outgoing s' fl' oas' = outgoing s fl oas @ cell_bytes (cells (cmem s)) ?a" "fl' \<noteq> None"
    "frame (cmem s) (cmem s') (set ?qs \<union> F)" "status (conn s') = kConnected" "L \<inter> (set ?qs \<union> F) = {}"
    "length oas' \<le> Suc (length oas)"
    using sendInLoop_ok [OF t(1) [unfolded Un_insert_left] a(1)] a(2,3) t(2,3) D(6) by (auto simp: taken_def)
  have "drop n (filter is_task (pending s)) = SendTask (Some ?a) # map (SendTask \<circ> Some) (drop (Suc n) qs)"
    using D(3) True by (simp add: drop_map Cons_nth_drop_Suc [symmetric])
  then have run: "exec_action cbs (RunTask n) s = Inr ([], s')" using r(1) by (simp add: exec_action_def)
  have "filter is_task (pending s') = remove1 (SendTask (Some ?a)) (map (SendTask \<circ> Some) qs)"
    using sendInLoop_tasks [OF r(1)] taken_tasks [of "SendTask (Some ?a)" s] D(3) by simp
  also have "\<dots> = map (SendTask \<circ> Some) ?qs"
    using rm(1) remove1_map [of "SendTask \<circ> Some" ?a qs] by (simp add: inj_def)
  finally have tasks: "filter is_task (pending s') = map (SendTask \<circ> Some) ?qs" .
  have "accept_action (RunTask n) (waiting (cmem s) qs) = (cell_bytes (cells (cmem s)) ?a, waiting (cmem s) ?qs)"
    using True by (simp add: waiting_def take_map drop_map Cons_nth_drop_Suc [symmetric])
  moreover have "set ?qs \<subseteq> set qs" using rm(4) by auto
  ultimately show ?thesis using r(3,4,8)
    by (intro action_in_loop [OF st run r(2,7) _ tasks r(6,5) _ rm(3)]) auto
qed

lemma exec_WriteDone:
  assumes st: "streaming s fl oas qs F"
  shows "\<exists>v s' fl' oas' qs' L. action_result cbs (WriteDone n) s fl oas qs F v s' fl' oas' qs' L"
proof (cases fl)
  case None
  then show ?thesis using streamingD(7) [OF st]
    by (intro action_idle [OF st]) (simp_all add: exec_action_def in_flight_def)
next
  case (Some a)
  note D = streamingD [OF st]
  have "mem_inv (cmem s) (set oas \<union> ({a} \<union> (set qs \<union> F)))" using D(1) Some by (simp add: sender_def bchain_def)
  then obtain c where c: "cells (cmem s) a = Some c" using mem_inv_alive by blast
  have out: "outgoing s fl oas = piece_bytes c @ chain_bytes (cells (cmem s)) oas"
    using Some c by (simp add: outgoing_def cell_bytes_def)
  obtain s' fl' oas' L where r: "handleWrite cbs a Success (taken (AsyncSend a) s) = Inr s'"
    "sender s' fl' oas' (L \<union> (set qs \<union> F))" "outgoing s' fl' oas' = chain_bytes (cells (cmem s)) oas"
    "fl' = None \<longrightarrow> outgoing s' fl' oas' = []" "frame (cmem s) (cmem s') (set qs \<union> F)" "status (conn s') = kConnected"
    "L \<inter> (set qs \<union> F) = {}" "length oas' \<le> length oas" "fl' = None \<or> length oas' < length oas"
    using handleWrite_ok [OF D(1) [unfolded Some], of cbs] D(6) by auto
  have run: "exec_action cbs (WriteDone n) s = Inr ([(n, piece_bytes c)], s')"
    using D(7) Some c r(1) by (simp add: exec_action_def in_flight_def mem_simps)
  have tasks: "filter is_task (pending s') = map (SendTask \<circ> Some) qs"
    using handleWrite_tasks [OF r(1)] taken_tasks [of "AsyncSend a" s] D(3) by simp
  show ?thesis using r(3,8,9) out
    by (intro action_in_loop [OF st run r(2,7,4) tasks r(6,5) subset_refl D(4)]) simp_all
qed

lemma exec_Post:
  assumes st: "streaming s fl oas qs F"
  shows "\<exists>v s' fl' oas' qs' L. action_result cbs (Post d) s fl oas qs F v s' fl' oas' qs' L"
proof (cases "d = []")
  case True
  then show ?thesis by (intro action_idle [OF st]) (simp_all add: exec_action_def TCPConn_send_def)
next
  case False
  note D = streamingD [OF st]
  obtain b m a as where p: "Buffer_write d Buffer_new (cmem s) = Inr (b, m)" "Buffer_moveToQueueHead b = (Some a, Buffer_new)"
    "sender (s\<lparr>cmem := m\<rparr>) fl oas (insert a (set as \<union> (set qs \<union> F)))" "outgoing (s\<lparr>cmem := m\<rparr>) fl oas = outgoing s fl oas"
    "a \<notin> set as \<union> (set qs \<union> F)" "set as \<inter> (set qs \<union> F) = {}" "cell_ok (cells m) a" "cell_bytes (cells m) a = take kPieceCapacity d"
    "cell_bytes (cells m) a \<noteq> []" "frame (cmem s) m (set qs \<union> F)"
    using send_packs [OF D(1) False] by blast
  let ?s = "request (SendTask (Some a)) (s\<lparr>cmem := m\<rparr>)"
  have run: "exec_action cbs (Post d) s = Inr ([], ?s)"
    using p(1,2) D(6) False by (simp add: exec_action_def TCPConn_send_def request_def)
  have "insert a (set as \<union> (set qs \<union> F)) = set (qs @ [a]) \<union> (set as \<union> F)" by auto
  then have "sender ?s fl oas (set (qs @ [a]) \<union> (set as \<union> F))" and o: "outgoing ?s fl oas = outgoing s fl oas"
    using p(3,4) by (simp_all add: sender_pending outgoing_pending request_def)
  moreover have "filter is_task (pending ?s) = map (SendTask \<circ> Some) (qs @ [a])"
    using D(3) by (simp add: request_def)
  moreover have "cell_ok (cells m) x \<and> cell_bytes (cells m) x \<noteq> []" if "x \<in> set (qs @ [a])" for x
    using st p(7,9,10) that by (auto simp: streaming_def frame_def cell_ok_def cell_bytes_def)
  ultimately have "streaming ?s fl oas (qs @ [a]) (set as \<union> F)"
    using p(5,6) D(2,4-6) unfolding streaming_def by (auto simp: request_def)
  moreover have "waiting m (qs @ [a]) = waiting (cmem s) qs @ [take kPieceCapacity d]"
    using waiting_frame [OF p(10), of qs] p(8) by (simp add: waiting_def)
  moreover have "frame (cmem s) m F" using p(10) by (rule frame_mono) simp
  ultimately have "action_result cbs (Post d) s fl oas qs F [] ?s fl oas (qs @ [a]) (set as)"
    using run o False by (simp add: action_result_def request_def)
  then show ?thesis by blast
qed

lemma exec_action_ok:
  assumes "streaming s fl oas qs F"
  shows "\<exists>v s' fl' oas' qs' L. action_result cbs x s fl oas qs F v s' fl' oas' qs' L"
  using exec_Send [OF assms] exec_Post [OF assms] exec_RunTask [OF assms] exec_WriteDone [OF assms] by (cases x) simp_all

section \<open>Sequences of actions\<close>

lemma exec_actions_append:
  "exec_actions cbs (xs @ ys) s =
     rbind (exec_actions cbs xs s) (\<lambda>(v, s1). rbind (exec_actions cbs ys s1) (\<lambda>(w, s2). Inr (v @ w, s2)))"
proof (induction xs arbitrary: s)
  case Nil
  show ?case by (cases "exec_actions cbs ys s") auto
next
  case (Cons x xs)
  have eq: "rbind (exec_actions cbs (xs @ ys) s1) (\<lambda>(w, s2). Inr (v @ w, s2))
      = rbind (rbind (exec_actions cbs xs s1) (\<lambda>(w, s2). Inr (v @ w, s2)))
          (\<lambda>(v, s1). rbind (exec_actions cbs ys s1) (\<lambda>(w, s2). Inr (v @ w, s2)))" for v s1
    using Cons.IH [of s1] by (auto simp: rbind_def split: sum.splits)
  show ?case using eq by (auto simp: rbind_def split: sum.splits)
qed

lemma exec_actions_ok:
  "streaming s fl oas qs F \<Longrightarrow>
   \<exists>w s' fl' oas' qs' L. exec_actions cbs xs s = Inr (w, s') \<and> streaming s' fl' oas' qs' (L \<union> F)
     \<and> handed w @ outgoing s' fl' oas' = outgoing s fl oas @ fst (accept_actions xs (waiting (cmem s) qs))
     \<and> waiting (cmem s') qs' = snd (accept_actions xs (waiting (cmem s) qs)) \<and> frame (cmem s) (cmem s') F
     \<and> length oas' \<le> length oas + length xs"
proof (induction xs arbitrary: s fl oas qs F)
  case Nil
  then show ?case
    by (intro exI [of _ "[]"] exI [of _ s] exI [of _ fl] exI [of _ oas] exI [of _ qs] exI [of _ "{}"]) simp
next
  case (Cons x xs)
  obtain v t fl1 oas1 qs1 L1 where r: "exec_action cbs x s = Inr (v, t)" "streaming t fl1 oas1 qs1 (L1 \<union> F)"
    "handed v @ outgoing t fl1 oas1 = outgoing s fl oas @ fst (accept_action x (waiting (cmem s) qs))"
    "waiting (cmem t) qs1 = snd (accept_action x (waiting (cmem s) qs))" "frame (cmem s) (cmem t) F"
    "length oas1 \<le> Suc (length oas)"
    using exec_action_ok [OF Cons.prems, of cbs x] by (auto simp: action_result_def)
  obtain w s' fl' oas' qs' L where ih: "exec_actions cbs xs t = Inr (w, s')" "streaming s' fl' oas' qs' (L \<union> (L1 \<union> F))"
    "handed w @ outgoing s' fl' oas' = outgoing t fl1 oas1 @ fst (accept_actions xs (waiting (cmem t) qs1))"
    "waiting (cmem s') qs' = snd (accept_actions xs (waiting (cmem t) qs1))" "frame (cmem t) (cmem s') (L1 \<union> F)"
    "length oas' \<le> length oas1 + length xs"
    using Cons.IH [OF r(2)] by blast
  have "handed (v @ w) @ outgoing s' fl' oas' = (handed v @ outgoing t fl1 oas1) @ fst (accept_actions xs (waiting (cmem t) qs1))"
    using ih(3) by simp
  then have "handed (v @ w) @ outgoing s' fl' oas' = outgoing s fl oas @ fst (accept_actions (x # xs) (waiting (cmem s) qs))"
    using r(3,4) by (simp add: case_prod_unfold Let_def)
  moreover have "waiting (cmem s') qs' = snd (accept_actions (x # xs) (waiting (cmem s) qs))"
    using ih(4) r(4) by (simp add: case_prod_unfold Let_def)
  moreover have "frame (cmem s) (cmem s') F" using r(5) frame_mono [OF ih(5)] by (auto intro: frame_trans)
  ultimately show ?case using r(1,6) ih(1,2,6)
    by (intro exI [of _ "v @ w"] exI [of _ s'] exI [of _ fl'] exI [of _ oas'] exI [of _ qs'] exI [of _ "L \<union> L1"])
      (simp add: Un_assoc)
qed

text \<open>Enough completions leave no write in flight.\<close>

lemma drain_writes:
  "streaming s fl oas qs F \<Longrightarrow> fl = None \<or> length oas < length ns \<Longrightarrow>
   \<exists>w s'. exec_actions cbs (map WriteDone ns) s = Inr (w, s') \<and> \<not> is_sending (conn s')"
proof (induction ns arbitrary: s fl oas qs F)
  case Nil
  then show ?case by (auto simp: streaming_def sender_def)
next
  case (Cons n ns)
  obtain v t fl1 oas1 qs1 L1 where r: "exec_action cbs (WriteDone n) s = Inr (v, t)" "streaming t fl1 oas1 qs1 (L1 \<union> F)"
    "fl1 = None \<or> length oas1 < length oas"
    using exec_action_ok [OF Cons.prems(1), of cbs "WriteDone n"] by (auto simp: action_result_def)
  have "fl1 = None \<or> length oas1 < length ns"
  proof (cases "fl = None")
    case True
    then have "t = s" using r(1) streamingD(7) [OF Cons.prems(1)] by (simp add: exec_action_def in_flight_def)
    then show ?thesis using True r(2) Cons.prems(1) by (auto simp: streaming_def sender_def)
  next
    case False
    then show ?thesis using r(3) Cons.prems(2) by auto
  qed
  then show ?case using Cons.IH [OF r(2)] r(1) by fastforce
qed

lemma accept_all_tasks: "accept_actions (replicate (length q) (RunTask 0)) q = (concat q, [])"
  by (induction q) (simp_all add: case_prod_unfold Let_def)

section \<open>Properties\<close>

text \<open>
  C2. Sends from the loop thread, sends from other threads, their tasks and completed writes in any order, each write
  completing with any number of bytes transferred: nothing fails, and what the completed writes were handed, then the
  piece in flight, then the output buffer are exactly what was there before followed by what the reference has accepted,
  in its order; the messages that wait in the loop are those of the reference. The wire gets of every completed write the
  bytes the socket has taken, so it gets all that was handed over when every write is complete. Of each \<open>send\<close> only the
  first 4096 bytes are accepted, because \<open>writePieceQueue\<close> takes only the first piece.
\<close>

theorem stream_in_order:
  assumes "streaming s fl oas qs F"
  shows "\<exists>w s' fl' oas' qs' L. exec_actions cbs xs s = Inr (w, s') \<and> streaming s' fl' oas' qs' (L \<union> F)
    \<and> handed w @ outgoing s' fl' oas' = outgoing s fl oas @ fst (accept_actions xs (waiting (cmem s) qs))
    \<and> waiting (cmem s') qs' = snd (accept_actions xs (waiting (cmem s) qs)) \<and> frame (cmem s) (cmem s') F
    \<and> ((\<forall>(n, p) \<in> set w. length p \<le> n) \<longrightarrow> wire w = handed w)"
  using exec_actions_ok [OF assms, of cbs xs] wire_full by blast

lemma open_world_streaming: "streaming open_world None [] [] {0}"
  using open_world_sender open_world_run by (simp add: streaming_def TCPConn_new_def)

theorem stream_in_order_witness:
  "\<exists>w s' fl' oas'. exec_actions idle_cbs [Send [1, 2], Post [7], Post [8], Send [3], RunTask 1, WriteDone 2] open_world = Inr (w, s')
    \<and> handed w @ outgoing s' fl' oas' = [1, 2, 3, 8]"
  using stream_in_order [OF open_world_streaming, of idle_cbs "[Send [1, 2], Post [7], Post [8], Send [3], RunTask 1, WriteDone 2]"]
    open_world_sender(2)
  by (auto simp: kPieceCapacity_def waiting_def)

text \<open>
  C13. The stream never stalls: after any actions \<open>xs\<close>, completing the writes one after the other, as many times as there
  can be pieces, with any numbers of bytes transferred, hands all that was accepted to the socket, in order, and leaves the
  connection idle. When every completion transfers its whole piece, all of it is on the wire.
\<close>

theorem stream_drains:
  assumes "streaming s fl oas qs F" and "length oas + length xs < length ns"
  shows "\<exists>w s'. exec_actions cbs (xs @ map WriteDone ns) s = Inr (w, s')
    \<and> handed w = outgoing s fl oas @ fst (accept_actions xs (waiting (cmem s) qs)) \<and> \<not> is_sending (conn s')
    \<and> filter is_send (pending s') = []
    \<and> ((\<forall>(n, p) \<in> set w. length p \<le> n) \<longrightarrow> wire w = handed w)"
proof -
  obtain v t fl1 oas1 qs1 L1 where r: "exec_actions cbs xs s = Inr (v, t)" "streaming t fl1 oas1 qs1 (L1 \<union> F)"
    "handed v @ outgoing t fl1 oas1 = outgoing s fl oas @ fst (accept_actions xs (waiting (cmem s) qs))"
    "length oas1 \<le> length oas + length xs"
    using exec_actions_ok [OF assms(1), of cbs xs] by blast
  obtain w s' where d: "exec_actions cbs (map WriteDone ns) t = Inr (w, s')" "\<not> is_sending (conn s')"
    using drain_writes [OF r(2), of ns cbs] r(4) assms(2) by auto
  obtain fl' oas' qs' L where e: "streaming s' fl' oas' qs' (L \<union> (L1 \<union> F))"
    "handed w @ outgoing s' fl' oas' = outgoing t fl1 oas1 @ fst (accept_actions (map WriteDone ns) (waiting (cmem t) qs1))"
    using exec_actions_ok [OF r(2), of cbs "map WriteDone ns"] d(1) by auto
  have "fl' = None" "filter is_send (pending s') = in_flight fl'" using e(1) d(2) by (auto simp: streaming_def sender_def)
  then have idle: "outgoing s' fl' oas' = []" "filter is_send (pending s') = []"
    using streamingD(2) [OF e(1)] by (simp_all add: in_flight_def)
  have "fst (accept_actions (map WriteDone ns) q) = []" for q
    by (induction ns) (simp_all add: case_prod_unfold Let_def)
  then have all: "handed (v @ w) = outgoing s fl oas @ fst (accept_actions xs (waiting (cmem s) qs))" using r(3) e(2) idle(1) by simp
  have run: "exec_actions cbs (xs @ map WriteDone ns) s = Inr (v @ w, s')" using r(1) d(1) by (simp add: exec_actions_append)
  show ?thesis using run all d(2) idle(2) wire_full [of "v @ w"] by blast
qed

theorem stream_drains_witness:
  "\<exists>w s'. exec_actions idle_cbs ([Post [7], Send [1, 2], Post [8], RunTask 0, RunTask 0] @ map WriteDone [2, 1, 1, 0, 0, 0]) open_world = Inr (w, s')
    \<and> handed w = [1, 2, 7, 8] \<and> \<not> is_sending (conn s')"
  using stream_drains [OF open_world_streaming, of "[Post [7], Send [1, 2], Post [8], RunTask 0, RunTask 0]" "[2, 1, 1, 0, 0, 0]" idle_cbs]
    open_world_sender(2)
  by (auto simp: kPieceCapacity_def waiting_def)

text \<open>
  C33. A short write loses bytes: when the socket has taken only \<open>n\<close> of the bytes of the piece in flight, \<open>handleWrite\<close>,
  which is not told the number, releases the piece and goes on with the output buffer. What is on the wire and what is
  still to be sent then lack the rest of the piece, bytes \<open>n\<close> to the end of it.
\<close>

theorem short_write_loses_bytes:
  assumes "streaming s (Some a) oas qs F" and "n < length (cell_bytes (cells (cmem s)) a)"
  shows "\<exists>w s' fl' oas'. exec_action cbs (WriteDone n) s = Inr (w, s')
    \<and> wire w @ outgoing s' fl' oas'
      = take n (outgoing s (Some a) oas) @ drop (length (cell_bytes (cells (cmem s)) a)) (outgoing s (Some a) oas)
    \<and> (fl' = None \<longrightarrow> filter is_send (pending s') = []) \<and> (\<exists>qs' F'. streaming s' fl' oas' qs' F')
    \<and> length (wire w @ outgoing s' fl' oas') < length (outgoing s (Some a) oas)"
proof -
  let ?p = "cell_bytes (cells (cmem s)) a"
  note D = streamingD [OF assms(1)]
  have "mem_inv (cmem s) (set oas \<union> ({a} \<union> (set qs \<union> F)))" using D(1) by (simp add: sender_def bchain_def)
  then obtain c where c: "cells (cmem s) a = Some c" using mem_inv_alive by blast
  obtain v s' fl' oas' qs' L where r: "action_result cbs (WriteDone n) s (Some a) oas qs F v s' fl' oas' qs' L"
    using exec_WriteDone [OF assms(1), of cbs n] by blast
  have v: "v = [(n, ?p)]" using r D(7) c
    by (auto simp: action_result_def exec_action_def in_flight_def mem_simps cell_bytes_def rbind_eq_Inr_iff)
  have out: "outgoing s (Some a) oas = ?p @ chain_bytes (cells (cmem s)) oas" by (simp add: outgoing_def)
  have o': "outgoing s' fl' oas' = chain_bytes (cells (cmem s)) oas" using r v out by (simp add: action_result_def)
  have st: "streaming s' fl' oas' qs' (L \<union> F)" "waiting (cmem s') qs' = waiting (cmem s) qs"
    using r by (simp_all add: action_result_def)
  show ?thesis using r v o' out assms(2) st streamingD(7) [OF st(1)]
    by (intro exI [of _ v] exI [of _ s'] exI [of _ fl'] exI [of _ oas']) (auto simp: action_result_def in_flight_def)
qed

lemma open_world_sends:
  "\<exists>s a F. TCPConn_send True [1, 2] open_world = Inr s \<and> streaming s (Some a) [] [] F \<and> cell_bytes (cells (cmem s)) a = [1, 2]"
proof -
  note D = streamingD [OF open_world_streaming]
  obtain s' fl' oas' L where r: "TCPConn_send True [1, 2] open_world = Inr s'" "sender s' fl' oas' (L \<union> {0})"
    "outgoing s' fl' oas' = [1, 2]" "fl' \<noteq> None" "frame (cmem open_world) (cmem s') {0}"
    "status (conn s') = kConnected" "L \<inter> {0} = {}" "length oas' \<le> 0"
    using TCPConn_send_ok [OF open_world_sender(1) D(6), of "[1, 2]"] open_world_sender(2) by (auto simp: kPieceCapacity_def)
  then obtain a where a: "fl' = Some a" "oas' = []" by auto
  have "filter is_task (pending s') = []" using TCPConn_send_tasks [OF r(1)] D(3) by simp
  then have "streaming s' (Some a) [] [] (L \<union> {0})" using r(2,6) a by (simp add: streaming_def)
  moreover have "cell_bytes (cells (cmem s')) a = [1, 2]" using r(3) a by (simp add: outgoing_def)
  ultimately show ?thesis using r(1) by blast
qed

theorem short_write_loses_bytes_witness:
  "\<exists>s w s' fl' oas'. TCPConn_send True [1, 2] open_world = Inr s \<and> exec_action idle_cbs (WriteDone 1) s = Inr (w, s')
    \<and> wire w @ outgoing s' fl' oas' = [1] \<and> (fl' = None \<longrightarrow> filter is_send (pending s') = [])"
proof -
  obtain s a F where s: "TCPConn_send True [1, 2] open_world = Inr s" "streaming s (Some a) [] [] F" "cell_bytes (cells (cmem s)) a = [1, 2]"
    using open_world_sends by blast
  have "outgoing s (Some a) [] = [1, 2]" using s(3) by (simp add: outgoing_def)
  then show ?thesis using short_write_loses_bytes [OF s(2), of 1 idle_cbs] s(1,3) by auto
qed

end
