(* ===== verification/Dispatcher.thy ===== *)
theory Dispatcher
  imports Tcp_Conn
begin

text \<open>
  The dispatcher of \<^verbatim>\<open>src/netpp/net/protobuf/dispatcher.h\<close>: a map from message descriptors to
  callbacks, with a default. A message is a shared pointer, so it may be null; the descriptor of a
  message is a function of protobuf, a parameter. Also the two functions of the codec that act on a
  connection: \<open>ProtobufCodec::send\<close> and the default error callback.
\<close>

section \<open>The codec on a connection\<close>

text \<open>\<open>codec_send\<close> with \<open>TCPConn::send(Buffer*)\<close> as the connection's method.\<close>

definition ProtobufCodec_send :: "bool \<Rightarrow> ('d, 'msg) protobuf_api \<Rightarrow> 'msg \<Rightarrow> 'u world \<Rightarrow> error + 'u world" where
  "ProtobufCodec_send in_loop api message s =
     rbind (codec_send (\<lambda>b m s. rbind (TCPConn_send_buffer in_loop b (s\<lparr>cmem := m\<rparr>)) (\<lambda>(b1, s1). Inr (b1, cmem s1, s1)))
       api message (cmem s) s) (\<lambda>(m, s1). Inr (s1\<lparr>cmem := m\<rparr>))"

text \<open>The default error callback logs and closes a connection that is not null and connected.\<close>

definition defaultErrorCallback :: "'u world option \<Rightarrow> ErrorCode \<Rightarrow> string list \<Rightarrow> string list \<times> 'u world option" where
  "defaultErrorCallback c errorCode log =
     (log @ [''ProtobufCodec::defaultErrorCallback - '' @ errorCodeToString errorCode],
      case c of None \<Rightarrow> None | Some s \<Rightarrow> Some (if isConnected (conn s) then TCPConn_close s else s))"


section \<open>The class\<close>

type_synonym ('msg, 'w) typed_callback = "'msg \<Rightarrow> 'w \<Rightarrow> error + 'w"

record ('d, 'msg, 'w) dispatcher =
  callbacks :: "'d \<Rightarrow> ('msg, 'w) typed_callback option"
  defaultCallback :: "('msg, 'w) typed_callback"

definition ProtobufDispatcher_new :: "('msg, 'w) typed_callback \<Rightarrow> ('d, 'msg, 'w) dispatcher" where
  "ProtobufDispatcher_new defaultCb = \<lparr>callbacks = (\<lambda>_. None), defaultCallback = defaultCb\<rparr>"

text \<open>\<open>CallbackT::onMessage\<close>: the static cast of the pointer changes nothing, the assertion checks it.\<close>

definition CallbackT_onMessage :: "('msg, 'w) typed_callback \<Rightarrow> 'msg option \<Rightarrow> 'w \<Rightarrow> error + 'w" where
  "CallbackT_onMessage callback message w =
     rbind (cassert (message \<noteq> None)) (\<lambda>_. callback (the message) w)"

definition onProtobufMessage :: "('msg \<Rightarrow> 'd) \<Rightarrow> ('d, 'msg, 'w) dispatcher \<Rightarrow> 'msg option \<Rightarrow> 'w \<Rightarrow> error + 'w" where
  "onProtobufMessage GetDescriptor d message w = (case message of
     None \<Rightarrow> Inl NullDeref
   | Some msg \<Rightarrow> (case callbacks d (GetDescriptor msg) of
       Some cb \<Rightarrow> CallbackT_onMessage cb message w
     | None \<Rightarrow> defaultCallback d msg w))"

definition registerMessageCallback :: "'d \<Rightarrow> ('msg, 'w) typed_callback \<Rightarrow> ('d, 'msg, 'w) dispatcher \<Rightarrow> ('d, 'msg, 'w) dispatcher" where
  "registerMessageCallback descriptor callback d = d\<lparr>callbacks := (callbacks d)(descriptor \<mapsto> callback)\<rparr>"

section \<open>Dispatching\<close>

definition register_all :: "('d \<times> ('msg, 'w) typed_callback) list \<Rightarrow> ('d, 'msg, 'w) dispatcher \<Rightarrow> ('d, 'msg, 'w) dispatcher" where
  "register_all regs d = fold (\<lambda>(k, cb) d. registerMessageCallback k cb d) regs d"

lemma register_all_callbacks:
  "callbacks (register_all regs d) = callbacks d ++ map_of (rev regs)"
  "defaultCallback (register_all regs d) = defaultCallback d"
  by (induction regs arbitrary: d)
    (auto simp: register_all_def registerMessageCallback_def map_add_def fun_eq_iff split: option.splits)

section \<open>Properties\<close>

text \<open>
  C31. After any sequence of registrations on a new dispatcher, a message goes to the callback that
  was registered last for its descriptor, and to the default callback if there is none; exactly one
  callback is called.
\<close>

theorem dispatch_last_registered:
  "onProtobufMessage GetDescriptor (register_all regs (ProtobufDispatcher_new dflt)) (Some msg) w =
     (case map_of (rev regs) (GetDescriptor msg) of Some cb \<Rightarrow> cb msg w | None \<Rightarrow> dflt msg w)"
  by (simp add: onProtobufMessage_def register_all_callbacks ProtobufDispatcher_new_def CallbackT_onMessage_def
      map_add_def split: option.splits)

end
