(* ===== verification/Event_Loop.thy ===== *)
theory Event_Loop
  imports Prelude
begin

text \<open>
  \<^verbatim>\<open>server_status.h\<close>, \<^verbatim>\<open>event_loop.*\<close>, \<^verbatim>\<open>event_loop_thread.*\<close> and
  \<^verbatim>\<open>event_loop_thread_pool.*\<close> of \<^verbatim>\<open>src/netpp/net\<close>.

  boost::asio's \<open>io_service\<close> is a parameter: a record of the functions the loop calls. A blocking
  call splits the function around it: \<open>start\<close> of a loop is what happens before
  \<open>io_service::run\<close> and what happens after it has returned.
\<close>

section \<open>ServerStatus\<close>

datatype Status = kNull | kInitializing | kInitialized | kStarting | kRunning | kStopping | kStopped

datatype SubStatus = kSubStatusNull | kStoppingListener | kStoppingThreadPool

record server_status =
  st :: Status
  substatus :: SubStatus

definition ServerStatus_new :: server_status where
  "ServerStatus_new = \<lparr>st = kNull, substatus = kSubStatusNull\<rparr>"

fun StatusToString :: "Status \<Rightarrow> string" where
  "StatusToString kNull = ''kNull''"
| "StatusToString kInitialized = ''kInitialized''"
| "StatusToString kRunning = ''kRunning''"
| "StatusToString kStopping = ''kStopping''"
| "StatusToString kStopped = ''kStopped''"
| "StatusToString _ = ''Unknown''"

definition isRunning :: "'a server_status_scheme \<Rightarrow> bool" where
  "isRunning s = (st s = kRunning)"

definition isStopped :: "'a server_status_scheme \<Rightarrow> bool" where
  "isStopped s = (st s = kStopped)"

definition isStopping :: "'a server_status_scheme \<Rightarrow> bool" where
  "isStopping s = (st s = kStopping)"

section \<open>EventLoop\<close>

text \<open>
  What the loop hands to boost::asio: a functor that is posted or dispatched, the lambda of \<open>runAfter\<close>,
  and the two kinds of bound periodic functions. The callback of \<open>runEvery\<close> is a \<open>std::function\<close>
  variable whose lambda captures the variable by copy; such a function object is the value it has
  captured, and an empty one is \<open>None\<close>. \<open>'f\<close> are the functors of the user, \<open>'t\<close> the timers.
\<close>

datatype every_fn = EveryFn "every_fn option"

datatype ('t, 'f) handler =
    Posted 'f
  | After 't 'f
  | Every "every_fn option" 't int 'f
  | ExecEvery 't int 'f

text \<open>The functions of \<open>io_service\<close> and \<open>deadline_timer\<close>, for service states \<open>'io\<close>. Durations are in microseconds.\<close>

record ('f, 'io, 't) io_api =
  io_new :: 'io
  io_post :: "('t, 'f) handler \<Rightarrow> 'io \<Rightarrow> 'io"
  io_dispatch :: "('t, 'f) handler \<Rightarrow> 'io \<Rightarrow> 'io"
  io_work :: "bool \<Rightarrow> 'io \<Rightarrow> 'io"
  io_stop :: "'io \<Rightarrow> 'io"
  io_timer :: "'io \<Rightarrow> 't \<times> 'io"
  io_expires :: "'t \<Rightarrow> int \<Rightarrow> 'io \<Rightarrow> 'io"
  io_async_wait :: "'t \<Rightarrow> ('t, 'f) handler \<Rightarrow> 'io \<Rightarrow> 'io"

record 'io event_loop = server_status +
  is_own_service :: bool
  io_service :: 'io
  tid :: "nat option"
  work :: bool

definition EventLoop_tid :: "'io event_loop \<Rightarrow> nat option" where
  "EventLoop_tid l = tid l"

definition EventLoop_new :: "('f, 'io, 't) io_api \<Rightarrow> 'io event_loop" where
  "EventLoop_new api = \<lparr>st = kNull, substatus = kSubStatusNull, is_own_service = True, io_service = io_new api,
     tid = None, work = False\<rparr>"

definition EventLoop_on :: "'io \<Rightarrow> 'io event_loop" where
  "EventLoop_on io = \<lparr>st = kNull, substatus = kSubStatusNull, is_own_service = False, io_service = io,
     tid = None, work = False\<rparr>"

text \<open>The destructor: what is left of the service, if it is not the loop's own.\<close>

definition EventLoop_delete :: "'io event_loop \<Rightarrow> 'io option" where
  "EventLoop_delete l = (if is_own_service l then None else Some (io_service l))"

definition getIoService :: "'io event_loop \<Rightarrow> 'io" where
  "getIoService l = io_service l"

definition EventLoop_start_enter :: "('f, 'io, 't) io_api \<Rightarrow> nat \<Rightarrow> 'io event_loop \<Rightarrow> 'io event_loop" where
  "EventLoop_start_enter api this_thread l =
     l\<lparr>tid := Some this_thread, st := kRunning, work := True, io_service := io_work api True (io_service l)\<rparr>"

definition EventLoop_start_leave :: "'io event_loop \<Rightarrow> 'io event_loop" where
  "EventLoop_start_leave l = l\<lparr>st := kStopped\<rparr>"

definition EventLoop_stop :: "('f, 'io, 't) io_api \<Rightarrow> 'io event_loop \<Rightarrow> 'io event_loop" where
  "EventLoop_stop api l =
     l\<lparr>work := False, io_service := io_stop api (if work l then io_work api False (io_service l) else io_service l)\<rparr>"

definition isInLoopThread :: "nat \<Rightarrow> 'io event_loop \<Rightarrow> bool" where
  "isInLoopThread this_thread l = (tid l = Some this_thread)"

definition runInLoop :: "('f, 'io, 't) io_api \<Rightarrow> 'f \<Rightarrow> 'io event_loop \<Rightarrow> 'io event_loop" where
  "runInLoop api f l = l\<lparr>io_service := io_dispatch api (Posted f) (io_service l)\<rparr>"

definition queueInLoop :: "('f, 'io, 't) io_api \<Rightarrow> 'f \<Rightarrow> 'io event_loop \<Rightarrow> 'io event_loop" where
  "queueInLoop api f l = l\<lparr>io_service := io_post api (Posted f) (io_service l)\<rparr>"

text \<open>\<open>expires_from_now\<close> and \<open>async_wait\<close> of a timer.\<close>

definition arm :: "('f, 'io, 't) io_api \<Rightarrow> 't \<Rightarrow> int \<Rightarrow> ('t, 'f) handler \<Rightarrow> 'io \<Rightarrow> 'io" where
  "arm api t delay h io = io_async_wait api t h (io_expires api t delay io)"

definition runAfter :: "('f, 'io, 't) io_api \<Rightarrow> int \<Rightarrow> 'f \<Rightarrow> 'io event_loop \<Rightarrow> 't \<times> 'io event_loop" where
  "runAfter api delay f l =
     (let (t, io) = io_timer api (io_service l) in (t, l\<lparr>io_service := arm api t delay (After t f) io\<rparr>))"

text \<open>\<open>callback\<close> is captured before it is assigned.\<close>

definition runEvery_callback :: "every_fn option" where
  "runEvery_callback = (let callback = None in Some (EveryFn callback))"

definition runEvery :: "('f, 'io, 't) io_api \<Rightarrow> int \<Rightarrow> 'f \<Rightarrow> 'io event_loop \<Rightarrow> 't \<times> 'io event_loop" where
  "runEvery api delay f l =
     (let (t, io) = io_timer api (io_service l)
      in (t, l\<lparr>io_service := arm api t delay (Every runEvery_callback t delay f) io\<rparr>))"

text \<open>The versions in milliseconds convert their \<open>double\<close> to microseconds.\<close>

definition runAfter_ms :: "('f, 'io, 't) io_api \<Rightarrow> ('double \<Rightarrow> int) \<Rightarrow> 'double \<Rightarrow> 'f \<Rightarrow> 'io event_loop \<Rightarrow> 't \<times> 'io event_loop" where
  "runAfter_ms api to_microseconds delay_ms f l = runAfter api (to_microseconds delay_ms) f l"

definition runEvery_ms :: "('f, 'io, 't) io_api \<Rightarrow> ('double \<Rightarrow> int) \<Rightarrow> 'double \<Rightarrow> 'f \<Rightarrow> 'io event_loop \<Rightarrow> 't \<times> 'io event_loop" where
  "runEvery_ms api to_microseconds delay_ms f l = runEvery api (to_microseconds delay_ms) f l"

text \<open>
  What a handler does when asio calls it; \<open>exec\<close> runs a functor of the user. The lambda of \<open>runAfter\<close>
  calls its functor whatever the error code is, so a cancelled timer calls it too.
\<close>

definition every_tick :: "('f, 'io, 't) io_api \<Rightarrow> ('f \<Rightarrow> 'io \<times> 'w \<Rightarrow> error + ('io \<times> 'w)) \<Rightarrow> every_fn option \<Rightarrow> 't \<Rightarrow> int \<Rightarrow> 'f \<Rightarrow>
    'io \<times> 'w \<Rightarrow> error + ('io \<times> 'w)" where
  "every_tick api exec callback t delay f s = (case callback of
     None \<Rightarrow> Inl BadFunctionCall
   | Some (EveryFn captured) \<Rightarrow>
       rbind (exec f s) (\<lambda>(io, w). Inr (arm api t delay (Every captured t delay f) io, w)))"

definition execTimerEvery :: "('f, 'io, 't) io_api \<Rightarrow> ('f \<Rightarrow> 'io \<times> 'w \<Rightarrow> error + ('io \<times> 'w)) \<Rightarrow> 't \<Rightarrow> int \<Rightarrow> 'f \<Rightarrow>
    'io \<times> 'w \<Rightarrow> error + ('io \<times> 'w)" where
  "execTimerEvery api exec t delay f s =
     rbind (exec f s) (\<lambda>(io, w). Inr (arm api t delay (ExecEvery t delay f) io, w))"

fun run_handler :: "('f, 'io, 't) io_api \<Rightarrow> ('f \<Rightarrow> 'io \<times> 'w \<Rightarrow> error + ('io \<times> 'w)) \<Rightarrow> ('t, 'f) handler \<Rightarrow>
    'io \<times> 'w \<Rightarrow> error + ('io \<times> 'w)" where
  "run_handler api exec (Posted f) s = exec f s"
| "run_handler api exec (After t f) s = exec f s"
| "run_handler api exec (Every callback t delay f) s = every_tick api exec callback t delay f s"
| "run_handler api exec (ExecEvery t delay f) s = execTimerEvery api exec t delay f s"

section \<open>EventLoopThread\<close>

record 'io loop_thread = server_status +
  event_loop :: "'io event_loop"
  thread :: "nat option"
  tname :: string
  latch :: nat

definition kOK :: int where "kOK = 0"

definition EventLoopThread_new :: "('f, 'io, 't) io_api \<Rightarrow> 'io loop_thread" where
  "EventLoopThread_new api = \<lparr>st = kNull, substatus = kSubStatusNull, event_loop = EventLoop_new api, thread = None,
     tname = [], latch = 1\<rparr>"

text \<open>\<open>start\<close> up to the wait for the latch: \<open>tid'\<close> is the id of the new thread.\<close>

definition EventLoopThread_start :: "nat \<Rightarrow> 'io loop_thread \<Rightarrow> error + 'io loop_thread" where
  "EventLoopThread_start tid' t =
     (let t1 = t\<lparr>st := kStarting\<rparr> in
      rbind (cassert (thread t1 = None)) (\<lambda>_. Inr (t1\<lparr>thread := Some tid'\<rparr>)))"

text \<open>The wait itself: it returns when the latch is open, and then asserts the status.\<close>

definition EventLoopThread_started :: "'io loop_thread \<Rightarrow> (error + bool) option" where
  "EventLoopThread_started t = (if latch t = 0 then Some (rbind (cassert (st t = kRunning)) (\<lambda>_. Inr True)) else None)"

text \<open>\<open>run\<close> until the loop blocks; \<open>fn\<close> is the handler it queues first.\<close>

definition EventLoopThread_run_enter :: "('f, 'io, 't) io_api \<Rightarrow> 'f \<Rightarrow> nat \<Rightarrow> (nat \<Rightarrow> string) \<Rightarrow> 'io loop_thread \<Rightarrow> 'io loop_thread" where
  "EventLoopThread_run_enter api fn this_thread id_string t =
     (let t1 = (if tname t = [] then t\<lparr>tname := ''thread-'' @ id_string this_thread\<rparr> else t)
      in t1\<lparr>event_loop := EventLoop_start_enter api this_thread (queueInLoop api fn (event_loop t1))\<rparr>)"

definition EventLoopThread_fn :: "('f, 'io, 't) io_api \<Rightarrow> ('w \<Rightarrow> int \<times> 'w) option \<Rightarrow> 'io loop_thread \<Rightarrow> 'w \<Rightarrow> 'io loop_thread \<times> 'w" where
  "EventLoopThread_fn api pre t w =
     (let t1 = t\<lparr>st := kRunning, latch := latch t - 1\<rparr> in
      case pre of None \<Rightarrow> (t1, w)
      | Some p \<Rightarrow> (let (rc, w1) = p w in
          (if rc \<noteq> kOK then t1\<lparr>event_loop := EventLoop_stop api (event_loop t1)\<rparr> else t1, w1)))"

text \<open>\<open>run\<close> after \<open>io_service::run\<close> has returned.\<close>

definition EventLoopThread_run_leave :: "('w \<Rightarrow> int \<times> 'w) option \<Rightarrow> 'io loop_thread \<Rightarrow> 'w \<Rightarrow> error + ('io loop_thread \<times> 'w)" where
  "EventLoopThread_run_leave post t w =
     (let t1 = t\<lparr>event_loop := EventLoop_start_leave (event_loop t)\<rparr>;
          w1 = (case post of None \<Rightarrow> w | Some p \<Rightarrow> snd (p w))
      in rbind (cassert (isStopped (event_loop t1))) (\<lambda>_. Inr (t1\<lparr>st := kStopped\<rparr>, w1)))"

definition EventLoopThread_isRunning :: "'io loop_thread \<Rightarrow> bool" where
  "EventLoopThread_isRunning t = isRunning (event_loop t)"

definition EventLoopThread_stop :: "('f, 'io, 't) io_api \<Rightarrow> 'io loop_thread \<Rightarrow> error + 'io loop_thread" where
  "EventLoopThread_stop api t =
     rbind (cassert (st t = kRunning \<and> EventLoopThread_isRunning t)) (\<lambda>_.
     Inr (t\<lparr>st := kStopping, event_loop := EventLoop_stop api (event_loop t)\<rparr>))"

text \<open>
  \<open>join\<close> from the thread \<open>this_thread\<close>, which returns when the thread has ended. A thread that joins
  itself gets a \<open>system_error\<close>, which is caught and logged; the release of the thread object, still
  joinable, then ends the program.
\<close>

definition EventLoopThread_join :: "nat \<Rightarrow> 'io loop_thread \<Rightarrow> error + 'io loop_thread" where
  "EventLoopThread_join this_thread t = (case thread t of
     None \<Rightarrow> Inr t
   | Some i \<Rightarrow> if i = this_thread then Inl Terminated else Inr (t\<lparr>thread := None\<rparr>))"

text \<open>The wait of \<open>stop(true)\<close>: when the thread has stopped it is joined.\<close>

definition EventLoopThread_stopped :: "nat \<Rightarrow> 'io loop_thread \<Rightarrow> (error + 'io loop_thread) option" where
  "EventLoopThread_stopped this_thread t = (if isStopped t then Some (EventLoopThread_join this_thread t) else None)"

text \<open>The null id of a \<open>std::thread\<close> is \<open>None\<close>.\<close>

definition EventLoopThread_tid :: "'io loop_thread \<Rightarrow> nat option" where
  "EventLoopThread_tid t = (case thread t of None \<Rightarrow> None | Some i \<Rightarrow> Some i)"

definition EventLoopThread_setName :: "string \<Rightarrow> 'io loop_thread \<Rightarrow> 'io loop_thread" where
  "EventLoopThread_setName n t = t\<lparr>tname := n\<rparr>"

definition EventLoopThread_getName :: "'io loop_thread \<Rightarrow> string" where
  "EventLoopThread_getName t = tname t"

definition EventLoopThread_loop :: "'io loop_thread \<Rightarrow> 'io event_loop" where
  "EventLoopThread_loop t = event_loop t"

definition EventLoopThread_delete :: "nat \<Rightarrow> 'io loop_thread \<Rightarrow> error + 'io loop_thread" where
  "EventLoopThread_delete this_thread t = rbind (cassert (isStopped t)) (\<lambda>_. EventLoopThread_join this_thread t)"

end
