(* ===== verification/Loop_Pool.thy ===== *)
theory Loop_Pool
  imports Event_Loop
begin

text \<open>
  The pool of loop threads of \<^verbatim>\<open>src/netpp/net/event_loop_thread_pool.h\<close> and its \<^verbatim>\<open>.cpp\<close> file. The
  threads it owns are in the list \<open>threads\<close>; the counters of started and exited threads, which the
  code shares between the lambdas of all threads, are fields of the pool. Waiting loops are split
  at the wait: the condition they wait for is a separate function.
\<close>

section \<open>The class\<close>

record 'io loop_pool = server_status +
  base_loop :: "'io event_loop"
  thread_num :: uint32
  next_loop :: uint64
  stopped_cb_set :: bool
  threads :: "'io loop_thread list"
  started_count :: uint32
  exited_count :: uint32

definition EventLoopThreadPool_new :: "'io event_loop \<Rightarrow> uint32 \<Rightarrow> 'io loop_pool" where
  "EventLoopThreadPool_new base n = \<lparr>st = kNull, substatus = kSubStatusNull, base_loop = base, thread_num = n,
     next_loop = 0, stopped_cb_set = False, threads = [], started_count = 0, exited_count = 0\<rparr>"

definition digit :: "nat \<Rightarrow> char" where
  "digit d = char_of (48 + d mod 10)"

fun decimal :: "nat \<Rightarrow> string" where
  "decimal n = (if n < 10 then [digit n] else decimal (n div 10) @ [digit n])"

declare decimal.simps [simp del]

definition onThreadStarted :: "uint32 \<Rightarrow> 'io loop_pool \<Rightarrow> 'io loop_pool" where
  "onThreadStarted count p = (if count = thread_num p then p\<lparr>st := kRunning\<rparr> else p)"

text \<open>\<open>stopped_cb_()\<close> is called on the state \<open>'w\<close> of the user.\<close>

definition onThreadExited :: "('w \<Rightarrow> 'w) \<Rightarrow> uint32 \<Rightarrow> 'io loop_pool \<Rightarrow> 'w \<Rightarrow> 'io loop_pool \<times> 'w" where
  "onThreadExited stopped_cb count p w =
     (if count = thread_num p
      then let p1 = p\<lparr>st := kStopped\<rparr> in
           if stopped_cb_set p1 then (p1\<lparr>stopped_cb_set := False\<rparr>, stopped_cb w) else (p1, w)
      else (p, w))"

text \<open>The functions the pool gives to each thread.\<close>

definition prefn :: "'io loop_pool \<Rightarrow> int \<times> 'io loop_pool" where
  "prefn p = (let c = started_count p in (kOK, onThreadStarted (c + 1) (p\<lparr>started_count := c + 1\<rparr>)))"

definition postfn :: "('w \<Rightarrow> 'w) \<Rightarrow> 'io loop_pool \<Rightarrow> 'w \<Rightarrow> int \<times> 'io loop_pool \<times> 'w" where
  "postfn stopped_cb p w =
     (let c = exited_count p in (kOK, onThreadExited stopped_cb (c + 1) (p\<lparr>exited_count := c + 1\<rparr>) w))"

text \<open>
  What a pool needs from outside: the functions of asio, the functor a thread posts first, the text of
  a thread id, the ids of the threads the system creates, and the id of the calling thread.
\<close>

record ('f, 'io, 't) pool_env =
  env_api :: "('f, 'io, 't) io_api"
  env_fn :: 'f
  env_id_string :: "nat \<Rightarrow> string"
  env_ids :: "nat list"
  env_self :: nat

text \<open>
  A thread of the pool after its start: \<open>run\<close> enters the loop, and the functor it has posted runs with
  the pool's \<open>prefn\<close>.
\<close>

definition thread_enters :: "('f, 'io, 't) pool_env \<Rightarrow> nat \<Rightarrow> 'io loop_thread \<Rightarrow> 'io loop_pool \<Rightarrow> 'io loop_thread \<times> 'io loop_pool" where
  "thread_enters e x t p =
     EventLoopThread_fn (env_api e) (Some prefn) (EventLoopThread_run_enter (env_api e) (env_fn e) x (env_id_string e) t) p"

text \<open>
  The loop of \<open>start\<close> over \<open>i\<close>: create the thread, start it, name it and store it. With \<open>wait\<close> the start
  returns after the new thread has opened its latch; the counting of \<open>prefn\<close> is the same whether it
  comes before or after the next thread is created.
\<close>

primrec pool_start_threads :: "bool \<Rightarrow> ('f, 'io, 't) pool_env \<Rightarrow> nat list \<Rightarrow> nat \<Rightarrow> 'io loop_pool \<Rightarrow> error + 'io loop_pool" where
  "pool_start_threads wait e [] i p = Inr p"
| "pool_start_threads wait e (x # xs) i p =
     rbind (EventLoopThread_start x (EventLoopThread_new (env_api e))) (\<lambda>t.
     let (t1, p1) = (if wait then thread_enters e x t p else (t, p)) in
     rbind (if wait then (case EventLoopThread_started t1 of None \<Rightarrow> Inl Diverges | Some r \<Rightarrow> r) else Inr True) (\<lambda>ok.
     pool_start_threads wait e xs (Suc i)
       (p1\<lparr>threads := threads p1 @ [EventLoopThread_setName (''EventLoopThreadPool-thread-'' @ decimal i @ ''th'') t1]\<rparr>)))"

text \<open>With \<open>wait\<close>, \<open>start\<close> sleeps until the status is \<open>kRunning\<close>.\<close>

definition EventLoopThreadPool_start :: "bool \<Rightarrow> ('f, 'io, 't) pool_env \<Rightarrow> 'io loop_pool \<Rightarrow> error + 'io loop_pool" where
  "EventLoopThreadPool_start wait e p =
     (let p1 = p\<lparr>st := kStarting\<rparr> in
      if thread_num p1 = 0 then Inr (p1\<lparr>st := kRunning\<rparr>)
      else rbind (pool_start_threads wait e (take (unat (thread_num p1)) (env_ids e)) 0 (p1\<lparr>started_count := 0, exited_count := 0\<rparr>)) (\<lambda>p2.
           if wait
           then if isRunning p2 then rbind (cassert (st p2 = kRunning)) (\<lambda>_. Inr p2) else Inl Diverges
           else Inr p2))"

text \<open>A thread started without \<open>wait\<close> enters its loop later.\<close>

definition pool_thread_enters :: "('f, 'io, 't) pool_env \<Rightarrow> nat \<Rightarrow> 'io loop_pool \<Rightarrow> 'io loop_pool" where
  "pool_thread_enters e k p =
     (if k < length (threads p)
      then let t = threads p ! k; (t1, p1) = thread_enters e (the (thread t)) t p in p1\<lparr>threads := (threads p1)[k := t1]\<rparr>
      else p)"

primrec join_threads :: "nat \<Rightarrow> 'io loop_thread list \<Rightarrow> error + 'io loop_thread list" where
  "join_threads self [] = Inr []"
| "join_threads self (t # ts) =
     rbind (EventLoopThread_join self t) (\<lambda>t1. rbind (join_threads self ts) (\<lambda>ts1. Inr (t1 # ts1)))"

text \<open>\<open>threads_.clear()\<close> runs the destructor of every thread.\<close>

primrec delete_threads :: "nat \<Rightarrow> 'io loop_thread list \<Rightarrow> error + unit" where
  "delete_threads self [] = Inr ()"
| "delete_threads self (t # ts) = rbind (EventLoopThread_delete self t) (\<lambda>_. delete_threads self ts)"

definition EventLoopThreadPool_join :: "nat \<Rightarrow> 'io loop_pool \<Rightarrow> error + 'io loop_pool" where
  "EventLoopThreadPool_join self p =
     rbind (join_threads self (threads p)) (\<lambda>ts. rbind (delete_threads self ts) (\<lambda>_. Inr (p\<lparr>threads := []\<rparr>)))"

definition EventLoopThreadPool_delete :: "nat \<Rightarrow> 'io loop_pool \<Rightarrow> error + 'io loop_pool" where
  "EventLoopThreadPool_delete self p =
     rbind (EventLoopThreadPool_join self p) (\<lambda>p1. rbind (delete_threads self (threads p1)) (\<lambda>_. Inr (p1\<lparr>threads := []\<rparr>)))"

text \<open>\<open>next % threads_.size()\<close>: the signed counter is converted to the unsigned type of the size.\<close>

definition getNextLoop :: "'io loop_pool \<Rightarrow> error + ('io event_loop \<times> 'io loop_pool)" where
  "getNextLoop p =
     (if isRunning p \<and> threads p \<noteq> []
      then let nxt_val = next_loop p; idx = unat nxt_val mod length (threads p) in
           if idx < length (threads p)
           then Inr (event_loop (threads p ! idx), p\<lparr>next_loop := nxt_val + 1\<rparr>)
           else Inl OutOfBounds
      else Inr (base_loop p, p))"

primrec stop_threads :: "('f, 'io, 't) io_api \<Rightarrow> 'io loop_thread list \<Rightarrow> error + 'io loop_thread list" where
  "stop_threads api [] = Inr []"
| "stop_threads api (t # ts) =
     rbind (EventLoopThread_stop api t) (\<lambda>t1. rbind (stop_threads api ts) (\<lambda>ts1. Inr (t1 # ts1)))"

text \<open>The threads leave their stopped loops and run the pool's \<open>postfn\<close>.\<close>

primrec leave_threads :: "('w \<Rightarrow> 'w) \<Rightarrow> 'io loop_thread list \<Rightarrow> 'io loop_pool \<times> 'w \<Rightarrow> error + ('io loop_thread list \<times> 'io loop_pool \<times> 'w)" where
  "leave_threads stopped_cb [] s = Inr ([], s)"
| "leave_threads stopped_cb (t # ts) s =
     rbind (EventLoopThread_run_leave (Some (\<lambda>(p, w). postfn stopped_cb p w)) t s) (\<lambda>(t1, s1).
     rbind (leave_threads stopped_cb ts s1) (\<lambda>(ts1, s2). Inr (t1 # ts1, s2)))"

definition is_stopped_fn :: "'io loop_pool \<Rightarrow> bool" where
  "is_stopped_fn p = (\<forall>t \<in> set (threads p). isStopped t)"

text \<open>
  \<open>stop(wait_thread_exit, fn)\<close>: with \<open>wait\<close> it sleeps until every thread has stopped. \<open>fn\<close> is kept as the
  stopped callback, which \<open>onThreadExited\<close> calls.
\<close>

definition EventLoopThreadPool_stop :: "('f, 'io, 't) io_api \<Rightarrow> bool \<Rightarrow> ('w \<Rightarrow> 'w) option \<Rightarrow> 'io loop_pool \<Rightarrow> 'w \<Rightarrow> error + ('io loop_pool \<times> 'w)" where
  "EventLoopThreadPool_stop api wait fn p w =
     (let p1 = p\<lparr>st := kStopping\<rparr> in
      if thread_num p1 = 0
      then Inr (p1\<lparr>st := kStopped\<rparr>, case fn of None \<Rightarrow> w | Some f \<Rightarrow> f w)
      else let p2 = p1\<lparr>stopped_cb_set := (fn \<noteq> None)\<rparr> in
           rbind (stop_threads api (threads p2)) (\<lambda>ts.
           rbind (if 0 < thread_num p2 \<and> wait
                  then rbind (leave_threads (case fn of None \<Rightarrow> (\<lambda>w. w) | Some f \<Rightarrow> f) ts (p2, w)) (\<lambda>(ts1, p3, w1).
                       let p4 = p3\<lparr>threads := ts1\<rparr> in if is_stopped_fn p4 then Inr (p4, w1) else Inl Diverges)
                  else Inr (p2\<lparr>threads := ts\<rparr>, w)) (\<lambda>(p5, w2).
           Inr (p5\<lparr>st := kStopped\<rparr>, w2))))"

text \<open>The two public versions.\<close>

definition EventLoopThreadPool_stop_wait :: "('f, 'io, 't) io_api \<Rightarrow> bool \<Rightarrow> 'io loop_pool \<Rightarrow> error + 'io loop_pool" where
  "EventLoopThreadPool_stop_wait api wait p =
     rbind (EventLoopThreadPool_stop api wait None p ()) (\<lambda>(p1, _). Inr p1)"

definition EventLoopThreadPool_stop_cb :: "('f, 'io, 't) io_api \<Rightarrow> ('w \<Rightarrow> 'w) \<Rightarrow> 'io loop_pool \<Rightarrow> 'w \<Rightarrow> error + ('io loop_pool \<times> 'w)" where
  "EventLoopThreadPool_stop_cb api fn p w = EventLoopThreadPool_stop api False (Some fn) p w"

section \<open>Choosing a loop\<close>

primrec getNextLoops :: "nat \<Rightarrow> 'io loop_pool \<Rightarrow> error + ('io event_loop list \<times> 'io loop_pool)" where
  "getNextLoops 0 p = Inr ([], p)"
| "getNextLoops (Suc n) p = rbind (getNextLoop p) (\<lambda>(l, p1). rbind (getNextLoops n p1) (\<lambda>(ls, p2). Inr (l # ls, p2)))"

lemma getNextLoop_running:
  assumes "isRunning p" and "threads p \<noteq> []"
  shows "getNextLoop p = Inr (event_loop (threads p ! (unat (next_loop p) mod length (threads p))), p\<lparr>next_loop := next_loop p + 1\<rparr>)"
  using assms by (simp add: getNextLoop_def Let_def)

lemma getNextLoops_running:
  "isRunning p \<Longrightarrow> threads p \<noteq> [] \<Longrightarrow> unat (next_loop p) + n < 2 ^ 64 \<Longrightarrow>
   getNextLoops n p = Inr (map (\<lambda>i. event_loop (threads p ! ((unat (next_loop p) + i) mod length (threads p)))) [0..<n],
     p\<lparr>next_loop := next_loop p + word_of_nat n\<rparr>)"
proof (induction n arbitrary: p)
  case 0
  then show ?case by simp
next
  case (Suc n)
  let ?p = "p\<lparr>next_loop := next_loop p + 1\<rparr>"
  have u: "unat (next_loop p + 1) = unat (next_loop p) + 1"
    using Suc.prems(3) by (simp add: unat_word_ariths)
  have "getNextLoops n ?p = Inr (map (\<lambda>i. event_loop (threads p ! ((unat (next_loop p) + 1 + i) mod length (threads p)))) [0..<n],
     p\<lparr>next_loop := next_loop p + 1 + word_of_nat n\<rparr>)"
    using Suc.IH [of ?p] Suc.prems u by (simp add: isRunning_def)
  then show ?case
    using getNextLoop_running [OF Suc.prems(1,2)] unfolding map_upt_Suc by (simp add: add.assoc)
qed

text \<open>Consecutive residues.\<close>

lemma residues_window:
  fixes n k :: nat
  assumes "0 < k"
  shows "distinct (map (\<lambda>i. (n + i) mod k) [0..<k])" and "set (map (\<lambda>i. (n + i) mod k) [0..<k]) = {..<k}"
proof -
  have le: "i = j" if "i \<le> j" "j < k" "(n + i) mod k = (n + j) mod k" for i j
  proof -
    have "k dvd (n + j) - (n + i)" using that mod_eq_dvd_iff_nat [of "n + i" "n + j" k] by simp
    then show ?thesis using that(1,2) by (auto dest: dvd_imp_le)
  qed
  have inj: "inj_on (\<lambda>i. (n + i) mod k) {..<k}"
  proof (rule inj_onI)
    fix i j assume ij: "i \<in> {..<k}" "j \<in> {..<k}" "(n + i) mod k = (n + j) mod k"
    then show "i = j" using le [of i j] le [of j i] by (cases "i \<le> j") auto
  qed
  then show "distinct (map (\<lambda>i. (n + i) mod k) [0..<k])" by (simp add: distinct_map lessThan_atLeast0)
  have "(\<lambda>i. (n + i) mod k) ` {..<k} = {..<k}"
    using inj assms by (intro card_subset_eq) (auto simp: card_image)
  then show "set (map (\<lambda>i. (n + i) mod k) [0..<k]) = {..<k}" by (simp add: lessThan_atLeast0)
qed

section \<open>A pool that runs\<close>

lemma base_loop_upd [simp]: "base_loop (p\<lparr>st := x\<rparr>) = base_loop (p :: 'io loop_pool)"
  by (cases p) simp

definition thread_up :: "nat \<Rightarrow> 'io loop_thread \<Rightarrow> bool" where
  "thread_up self t \<longleftrightarrow> st t = kRunning \<and> isRunning (event_loop t) \<and> thread t \<noteq> Some self"

definition pool_up :: "nat \<Rightarrow> 'io loop_pool \<Rightarrow> bool" where
  "pool_up self p \<longleftrightarrow> st p = kRunning \<and> length (threads p) = unat (thread_num p) \<and> (\<forall>t \<in> set (threads p). thread_up self t)"

lemma thread_enters_up:
  assumes "EventLoopThread_start x (EventLoopThread_new api) = Inr t" and "api = env_api e" and "x \<noteq> self"
  obtains t1 where "thread_enters e x t p = (t1, snd (prefn p))" "EventLoopThread_started t1 = Some (Inr True)"
    "\<And>n. thread_up self (EventLoopThread_setName n t1)"
proof -
  have t: "t = (EventLoopThread_new api)\<lparr>st := kStarting, thread := Some x\<rparr>"
    using assms(1) by (simp add: EventLoopThread_start_def EventLoopThread_new_def)
  show thesis
    by (rule that [of "fst (thread_enters e x t p)"])
      (use assms(2,3) in \<open>simp_all add: t thread_enters_def EventLoopThread_fn_def EventLoopThread_run_enter_def prefn_def kOK_def Let_def
        EventLoopThread_started_def EventLoopThread_new_def thread_up_def EventLoopThread_setName_def EventLoop_start_enter_def
        queueInLoop_def isRunning_def\<close>)
qed

lemma prefn_fields:
  "threads (snd (prefn p)) = threads p" "thread_num (snd (prefn p)) = thread_num p"
  "started_count (snd (prefn p)) = started_count p + 1" "base_loop (snd (prefn p)) = base_loop p"
  "st (snd (prefn p)) = (if started_count p + 1 = thread_num p then kRunning else st p)"
  by (simp_all add: prefn_def onThreadStarted_def Let_def)

text \<open>Starting the remaining threads: the last one makes the pool run.\<close>

lemma pool_start_threads_up:
  "self \<notin> set xs \<Longrightarrow> started_count p = word_of_nat i \<Longrightarrow> i + length xs = unat (thread_num p) \<Longrightarrow> length (threads p) = i \<Longrightarrow>
   (\<forall>t \<in> set (threads p). thread_up self t) \<Longrightarrow> (xs = [] \<longrightarrow> st p = kRunning) \<Longrightarrow>
   \<exists>p'. pool_start_threads True e xs i p = Inr p' \<and> pool_up self p' \<and> base_loop p' = base_loop p \<and> thread_num p' = thread_num p"
proof (induction xs arbitrary: i p)
  case Nil
  then show ?case by (simp add: pool_up_def)
next
  case (Cons x xs)
  obtain t where t: "EventLoopThread_start x (EventLoopThread_new (env_api e)) = Inr t"
    by (simp add: EventLoopThread_start_def EventLoopThread_new_def)
  obtain t1 where t1: "thread_enters e x t p = (t1, snd (prefn p))" "EventLoopThread_started t1 = Some (Inr True)"
    "\<And>n. thread_up self (EventLoopThread_setName n t1)"
    using thread_enters_up [OF t refl, of self] Cons.prems(1) by auto
  let ?n = "''EventLoopThreadPool-thread-'' @ decimal i @ ''th''"
  let ?p = "(snd (prefn p))\<lparr>threads := threads p @ [EventLoopThread_setName ?n t1]\<rparr>"
  have "Suc i \<le> unat (thread_num p)" using Cons.prems(3) by simp
  then have u: "unat (word_of_nat (Suc i) :: uint32) = Suc i"
    using unsigned_less [of "thread_num p", where 'a = nat] by (intro unat_of_nat32) simp
  have "xs = [] \<longrightarrow> word_of_nat (Suc i) = thread_num p"
    using Cons.prems(3) u by (auto simp: word_unat_eq_iff)
  then have run: "xs = [] \<longrightarrow> st ?p = kRunning"
    using Cons.prems(2) by (simp add: prefn_fields add.commute)
  obtain p' where "pool_start_threads True e xs (Suc i) ?p = Inr p'" "pool_up self p'" "base_loop p' = base_loop ?p" "thread_num p' = thread_num ?p"
    using Cons.IH [of ?p "Suc i"] Cons.prems run t1(3) by (auto simp: prefn_fields)
  then show ?case using t t1(1,2) by (simp add: prefn_fields)
qed

lemma pool_start_up:
  assumes "st p = kNull" "threads p = []" "unat (thread_num p) \<le> length (env_ids e)" "env_self e \<notin> set (env_ids e)"
  shows "\<exists>p'. EventLoopThreadPool_start True e p = Inr p' \<and> pool_up (env_self e) p' \<and> base_loop p' = base_loop p \<and> thread_num p' = thread_num p"
proof (cases "thread_num p = 0")
  case True
  then show ?thesis using assms(2) by (simp add: EventLoopThreadPool_start_def pool_up_def)
next
  case False
  let ?n = "unat (thread_num p)" and ?p = "p\<lparr>st := kStarting, started_count := 0, exited_count := 0\<rparr>"
  have "?n \<noteq> 0" using False by (simp add: unat_eq_zero)
  then have ne: "take ?n (env_ids e) \<noteq> []" using assms(3) by auto
  have "env_self e \<notin> set (take ?n (env_ids e))" using assms(4) by (auto dest: in_set_takeD)
  then obtain p' where "pool_start_threads True e (take ?n (env_ids e)) 0 ?p = Inr p'" "pool_up (env_self e) p'" "base_loop p' = base_loop p" "thread_num p' = thread_num p"
    using pool_start_threads_up [of "env_self e" "take ?n (env_ids e)" ?p 0 e] assms(2,3) ne by auto
  then show ?thesis using False by (simp add: EventLoopThreadPool_start_def pool_up_def isRunning_def)
qed

lemma stop_threads_up:
  "\<forall>t \<in> set ts. thread_up self t \<Longrightarrow>
   \<exists>ts'. stop_threads api ts = Inr ts' \<and> length ts' = length ts \<and> (\<forall>t \<in> set ts'. thread t \<noteq> Some self)"
proof (induction ts)
  case (Cons t ts)
  then obtain ts' where "stop_threads api ts = Inr ts'" "length ts' = length ts" "\<forall>t \<in> set ts'. thread t \<noteq> Some self" by auto
  then show ?case using Cons.prems by (simp add: EventLoopThread_stop_def EventLoopThread_isRunning_def thread_up_def)
qed simp

lemma leave_threads_ok:
  "\<forall>t \<in> set ts. thread t \<noteq> Some self \<Longrightarrow>
   \<exists>ts' p' w'. leave_threads f ts (p, w) = Inr (ts', p', w') \<and> (\<forall>t \<in> set ts'. isStopped t \<and> thread t \<noteq> Some self)
     \<and> thread_num p' = thread_num p \<and> base_loop p' = base_loop p"
proof (induction ts arbitrary: p w)
  case (Cons t ts)
  define p1 w1 where "p1 = fst (snd (postfn f p w))" and "w1 = snd (snd (postfn f p w))"
  then have p1: "snd (postfn f p w) = (p1, w1)" "thread_num p1 = thread_num p" "base_loop p1 = base_loop p"
    by (simp_all add: postfn_def onThreadExited_def Let_def)
  let ?t = "t\<lparr>event_loop := EventLoop_start_leave (event_loop t), st := kStopped\<rparr>"
  have r: "EventLoopThread_run_leave (Some (\<lambda>(p, w). postfn f p w)) t (p, w) = Inr (?t, p1, w1)"
    using p1(1) by (simp add: EventLoopThread_run_leave_def EventLoop_start_leave_def isStopped_def)
  obtain ts' p' w' where "leave_threads f ts (p1, w1) = Inr (ts', p', w')" "\<forall>t \<in> set ts'. isStopped t \<and> thread t \<noteq> Some self"
    "thread_num p' = thread_num p1" "base_loop p' = base_loop p1"
    using Cons.IH [of p1 w1] Cons.prems by auto
  then show ?case using r p1(2,3) Cons.prems by (simp add: isStopped_def)
qed (simp add: prod_eq_iff)

lemma pool_stop_ok:
  assumes "pool_up self p"
  shows "\<exists>p'. EventLoopThreadPool_stop_wait api True p = Inr p' \<and> isStopped p' \<and> (\<forall>t \<in> set (threads p'). isStopped t \<and> thread t \<noteq> Some self)
    \<and> thread_num p' = thread_num p \<and> base_loop p' = base_loop p"
proof (cases "thread_num p = 0")
  case True
  then show ?thesis using assms
    by (simp add: EventLoopThreadPool_stop_wait_def EventLoopThreadPool_stop_def isStopped_def pool_up_def)
next
  case False
  let ?p = "p\<lparr>st := kStopping, stopped_cb_set := False\<rparr>"
  obtain ts where ts: "stop_threads api (threads p) = Inr ts" "\<forall>t \<in> set ts. thread t \<noteq> Some self"
    using stop_threads_up [of "threads p" self api] assms by (auto simp: pool_up_def)
  obtain ts' p' w' where l: "leave_threads (\<lambda>w. w) ts (?p, ()) = Inr (ts', p', w')" "\<forall>t \<in> set ts'. isStopped t \<and> thread t \<noteq> Some self"
    "thread_num p' = thread_num p" "base_loop p' = base_loop p"
    using leave_threads_ok [OF ts(2), of "\<lambda>w. w" ?p "()"] by auto
  have "0 < thread_num p" using False by (simp add: word_greater_zero_iff)
  then show ?thesis using ts(1) l False
    by (simp add: EventLoopThreadPool_stop_wait_def EventLoopThreadPool_stop_def Let_def isStopped_def is_stopped_fn_def)
qed

lemma join_threads_ok:
  "\<forall>t \<in> set ts. isStopped t \<and> thread t \<noteq> Some self \<Longrightarrow> \<exists>ts'. join_threads self ts = Inr ts' \<and> delete_threads self ts' = Inr ()"
  by (induction ts) (auto simp: EventLoopThread_join_def EventLoopThread_delete_def isStopped_def split: option.splits)

lemma pool_join_ok:
  "\<forall>t \<in> set (threads p). isStopped t \<and> thread t \<noteq> Some self \<Longrightarrow> EventLoopThreadPool_join self p = Inr (p\<lparr>threads := []\<rparr>)"
  using join_threads_ok [of "threads p" self] by (auto simp: EventLoopThreadPool_join_def)

lemma getNextLoop_up:
  assumes "pool_up self p"
  shows "\<exists>l p'. getNextLoop p = Inr (l, p') \<and> pool_up self p'"
proof (cases "isRunning p \<and> threads p \<noteq> []")
  case True
  then show ?thesis using assms getNextLoop_running [of p] by (simp add: pool_up_def)
next
  case False
  then show ?thesis using assms by (auto simp: getNextLoop_def)
qed

section \<open>Properties\<close>

text \<open>
  Loops are handed out round robin: on a running pool \<open>getNextLoop\<close> never indexes outside the
  threads, and any \<open>k\<close> consecutive calls, \<open>k\<close> the number of threads, return the loop of every thread
  exactly once, in cyclic order, as long as the 64-bit counter does not wrap.
\<close>

theorem getNextLoop_round_robin:
  assumes "isRunning p" and "threads p \<noteq> []" and "unat (next_loop p) + length (threads p) < 2 ^ 64"
  shows "\<exists>idx. getNextLoops (length (threads p)) p
      = Inr (map (\<lambda>i. event_loop (threads p ! i)) idx, p\<lparr>next_loop := next_loop p + word_of_nat (length (threads p))\<rparr>)
    \<and> distinct idx \<and> set idx = {..<length (threads p)} \<and> hd idx = unat (next_loop p) mod length (threads p)"
proof -
  let ?k = "length (threads p)" and ?n = "unat (next_loop p)"
  let ?idx = "map (\<lambda>i. (?n + i) mod ?k) [0..<?k]"
  have k: "0 < ?k" using assms(2) by simp
  have "hd ?idx = ?n mod ?k" using k by (simp add: hd_map)
  moreover have "map (\<lambda>i. event_loop (threads p ! ((?n + i) mod ?k))) [0..<?k] = map (\<lambda>i. event_loop (threads p ! i)) ?idx"
    by simp
  ultimately show ?thesis
    using getNextLoops_running [OF assms] residues_window [OF k, of ?n] by metis
qed

definition test_io :: "(unit, (nat, unit) handler list, nat) io_api" where
  "test_io = \<lparr>io_new = [], io_post = (\<lambda>h io. io @ [h]), io_dispatch = (\<lambda>h io. io @ [h]), io_work = (\<lambda>_ io. io), io_stop = (\<lambda>io. io),
     io_timer = (\<lambda>io. (length io, io)), io_expires = (\<lambda>_ _ io. io), io_async_wait = (\<lambda>_ h io. io @ [h])\<rparr>"

definition test_pool :: "(nat, unit) handler list loop_pool" where
  "test_pool = (EventLoopThreadPool_new (EventLoop_new test_io) 2)\<lparr>st := kRunning, next_loop := 5,
     threads := [EventLoopThread_new test_io, (EventLoopThread_new test_io)\<lparr>event_loop := EventLoop_on [Posted ()]\<rparr>]\<rparr>"

theorem getNextLoop_round_robin_witness:
  "\<exists>idx. getNextLoops 2 test_pool = Inr (map (\<lambda>i. event_loop (threads test_pool ! i)) idx, test_pool\<lparr>next_loop := 7\<rparr>)
    \<and> distinct idx \<and> set idx = {..<2} \<and> hd idx = 1"
proof -
  have "isRunning test_pool" "threads test_pool \<noteq> []" "length (threads test_pool) = 2" "next_loop test_pool = 5"
    by (simp_all add: test_pool_def isRunning_def)
  then show ?thesis using getNextLoop_round_robin [of test_pool] by simp
qed

text \<open>
  C26. A pool comes up and goes down: \<open>start(true)\<close> on a new pool returns with the status \<open>kRunning\<close>
  and one thread per requested thread, each in its running loop; \<open>stop(true)\<close> then returns with
  every thread stopped, and the destructor joins them all. The system gives the pool as many new
  thread ids as it asks for.
\<close>

theorem pool_starts_and_stops:
  assumes "unat n \<le> length (env_ids e)" and "env_self e \<notin> set (env_ids e)"
  shows "\<exists>p p'. EventLoopThreadPool_start True e (EventLoopThreadPool_new base n) = Inr p \<and> isRunning p
    \<and> length (threads p) = unat n \<and> (\<forall>t \<in> set (threads p). isRunning (event_loop t))
    \<and> EventLoopThreadPool_stop_wait (env_api e) True p = Inr p' \<and> isStopped p' \<and> (\<forall>t \<in> set (threads p'). isStopped t)
    \<and> EventLoopThreadPool_delete (env_self e) p' = Inr (p'\<lparr>threads := []\<rparr>)"
proof -
  let ?p = "EventLoopThreadPool_new base n"
  obtain p where p: "EventLoopThreadPool_start True e ?p = Inr p" "pool_up (env_self e) p" "thread_num p = n"
    using pool_start_up [of ?p e] assms by (auto simp: EventLoopThreadPool_new_def)
  obtain p' where p': "EventLoopThreadPool_stop_wait (env_api e) True p = Inr p'" "isStopped p'"
    "\<forall>t \<in> set (threads p'). isStopped t \<and> thread t \<noteq> Some (env_self e)"
    using pool_stop_ok [OF p(2)] by blast
  then have "EventLoopThreadPool_delete (env_self e) p' = Inr (p'\<lparr>threads := []\<rparr>)"
    by (simp add: EventLoopThreadPool_delete_def pool_join_ok)
  then show ?thesis using p p' by (intro exI [of _ p] exI [of _ p']) (simp add: pool_up_def thread_up_def isRunning_def)
qed

definition test_env :: "(unit, (nat, unit) handler list, nat) pool_env" where
  "test_env = \<lparr>env_api = test_io, env_fn = (), env_id_string = decimal, env_ids = [1, 2], env_self = 0\<rparr>"

theorem pool_starts_and_stops_witness:
  "\<exists>p p'. EventLoopThreadPool_start True test_env (EventLoopThreadPool_new (EventLoop_new test_io) 2) = Inr p \<and> length (threads p) = 2
    \<and> EventLoopThreadPool_stop_wait test_io True p = Inr p' \<and> isStopped p'"
  using pool_starts_and_stops [of 2 test_env "EventLoop_new test_io"] by (auto simp: test_env_def)

text \<open>
  C40. A timer of \<open>runEvery\<close> runs its functor once: the handler that \<open>runEvery\<close> hands to asio runs the
  functor and arms the timer again, but with the function object the callback has captured of itself
  before it was assigned; that handler, on the second expiry, calls an empty \<open>std::function\<close>. The
  unused \<open>execTimerEvery\<close> arms the timer with itself and can go on.
\<close>

theorem runEvery_second_tick_fails:
  assumes "io_timer api (io_service l) = (t, io)"
  shows "\<exists>h h2. runEvery api delay f l = (t, l\<lparr>io_service := arm api t delay h io\<rparr>)
    \<and> run_handler api exec h s = rbind (exec f s) (\<lambda>(io, w). Inr (arm api t delay h2 io, w))
    \<and> run_handler api exec h2 s' = Inl BadFunctionCall
    \<and> run_handler api exec (ExecEvery t delay f) s = rbind (exec f s) (\<lambda>(io, w). Inr (arm api t delay (ExecEvery t delay f) io, w))"
  using assms
  by (intro exI [of _ "Every runEvery_callback t delay f"] exI [of _ "Every None t delay f"])
    (simp add: runEvery_def runEvery_callback_def every_tick_def execTimerEvery_def)

theorem runEvery_second_tick_fails_witness:
  "\<exists>h h2. run_handler test_io (\<lambda>_ (io, w). Inr (io, Suc w)) h ([], 0) = Inr ([h2], 1)
    \<and> run_handler test_io (\<lambda>_ (io, w). Inr (io, Suc w)) h2 ([], 1) = Inl BadFunctionCall"
proof -
  have "io_timer test_io (io_service (EventLoop_new test_io)) = (0, [])" by (simp add: test_io_def EventLoop_new_def)
  from runEvery_second_tick_fails [OF this, of 7 "()" "\<lambda>_ (io, w). Inr (io, Suc w)" "([], 0)" "([], 1)"]
  show ?thesis by (auto simp: arm_def test_io_def)
qed

end
