(* ===== verification/Logging.thy ===== *)
theory Logging
  imports Loop_Pool
begin

text \<open>
  \<^verbatim>\<open>src/netpp/base/logging.h\<close> and \<^verbatim>\<open>src/netpp/base/logging.cpp\<close>: the levels and their names, the
  sinks the initialisation adds to the core of Boost.Log, and the initialisation on first use behind a
  double check, as a step relation of threads.

  Of Boost.Log the model has what is documented of it: the core keeps a list of sinks, adding one
  that is there already has no effect, and a record goes to every sink whose filter accepts it. The
  formatting of time stamps, thread ids and scopes is a function that comes with the record.
\<close>

section \<open>Levels\<close>

datatype LogLevel = trace | debug | info | warning | error | fatal

primrec level_value :: "LogLevel \<Rightarrow> int" where
  "level_value trace = 0"
| "level_value debug = 1"
| "level_value info = 2"
| "level_value warning = 3"
| "level_value error = 4"
| "level_value fatal = 5"

instantiation LogLevel :: linorder
begin

definition less_eq_LogLevel :: "LogLevel \<Rightarrow> LogLevel \<Rightarrow> bool" where
  "less_eq_LogLevel a b = (level_value a \<le> level_value b)"

definition less_LogLevel :: "LogLevel \<Rightarrow> LogLevel \<Rightarrow> bool" where
  "less_LogLevel a b = (level_value a < level_value b)"

instance
proof
  fix x y :: LogLevel
  show "x \<le> y \<Longrightarrow> y \<le> x \<Longrightarrow> x = y"
    by (cases x; cases y) (simp_all add: less_eq_LogLevel_def)
qed (auto simp: less_eq_LogLevel_def less_LogLevel_def)

end

lemma trace_least: "trace \<le> lvl"
  by (cases lvl) (simp_all add: less_eq_LogLevel_def)

definition show_int :: "int \<Rightarrow> string" where
  "show_int n = (if n < 0 then CHR 0x2D # decimal (nat (- n)) else decimal (nat n))"

definition level_names :: "string list" where
  "level_names = [''trace'', ''debug'', ''info'', ''warning'', ''error'', ''fatal'']"

text \<open>
  \<open>operator<<\<close> on the value of a level: its name, or the value itself if it is outside the table. The
  comparison is that of \<open>size_t\<close>, so a negative value is outside.
\<close>

definition level_text :: "int \<Rightarrow> string" where
  "level_text lvl =
     (if 0 \<le> lvl \<and> lvl < int (length level_names) then level_names ! nat lvl else show_int lvl)"

section \<open>Sinks\<close>

text \<open>A record: its severity and message, and the texts of its attributes.\<close>

record log_record =
  severity :: LogLevel
  message :: string
  timestamp :: "string \<Rightarrow> string"
  thread_id :: string
  scope :: "string \<Rightarrow> string"

record file_settings =
  file_name :: string
  rotation_size :: nat
  rotation_at :: "nat \<times> nat \<times> nat"
  open_append :: bool
  auto_flush :: bool
  collector_target :: string
  collector_max_size :: nat
  collector_min_free :: nat

datatype sink_kind = ConsoleSink | FileSink file_settings

record log_sink =
  kind :: sink_kind
  level_filter :: "LogLevel option"
  formatter :: "log_record \<Rightarrow> string"

text \<open>
  The core of Boost.Log: the sinks by their addresses, in the order in which they were added, whether the
  common attributes are registered, and the threads that have the attribute \<open>Scope\<close>: an attribute added
  by \<open>add_thread_attribute\<close> belongs to the thread that adds it.
\<close>

record log_core =
  sinks :: "(nat \<times> log_sink) list"
  next_sink :: nat
  common_attributes :: bool
  scope_threads :: "nat list"

definition add_sink :: "nat \<Rightarrow> log_sink \<Rightarrow> log_core \<Rightarrow> log_core" where
  "add_sink i s c = (if i \<in> set (map fst (sinks c)) then c else c\<lparr>sinks := sinks c @ [(i, s)]\<rparr>)"

definition new_sink :: "log_sink \<Rightarrow> log_core \<Rightarrow> nat \<times> log_core" where
  "new_sink s c = (next_sink c, add_sink (next_sink c) s (c\<lparr>next_sink := Suc (next_sink c)\<rparr>))"

definition update_sink :: "nat \<Rightarrow> (log_sink \<Rightarrow> log_sink) \<Rightarrow> log_core \<Rightarrow> log_core" where
  "update_sink i f c = c\<lparr>sinks := map (\<lambda>(j, s). (j, if j = i then f s else s)) (sinks c)\<rparr>"

definition console_format :: "log_record \<Rightarrow> string" where
  "console_format r = timestamp r ''[%Y-%m-%d,%H:%M:%S.%f]'' @ '' ['' @ level_text (level_value (severity r)) @ '']: '' @ message r"

definition file_format :: "log_record \<Rightarrow> string" where
  "file_format r = ''['' @ thread_id r @ ''][''  @ timestamp r ''%Y-%m-%d,%H:%M:%S.%f'' @ ''][''
     @ scope r ''%n (%f:%l)'' @ ''][''  @ level_text (level_value (severity r)) @ '']: '' @ message r"

text \<open>The default formatter of a sink writes the message.\<close>

definition console_sink :: log_sink where
  "console_sink = \<lparr>kind = ConsoleSink, level_filter = None, formatter = console_format\<rparr>"

definition file_sink :: "string \<Rightarrow> string \<Rightarrow> log_sink" where
  "file_sink path dir = \<lparr>kind = FileSink \<lparr>file_name = path, rotation_size = 10 * 1024 * 1024, rotation_at = (0, 0, 0),
       open_append = True, auto_flush = False, collector_target = dir, collector_max_size = 50 * 1024 * 1024,
       collector_min_free = 100 * 1024 * 1024\<rparr>,
     level_filter = None, formatter = message\<rparr>"

record log_config =
  console_on :: bool
  console_level :: LogLevel
  log_file_on :: bool
  log_file_level :: LogLevel
  log_file_dir :: string
  log_file_name_prefix :: string

text \<open>\<open>initLogging_unlock\<close>, called by the thread \<open>t\<close>.\<close>

definition initLogging_unlock :: "nat \<Rightarrow> log_config \<Rightarrow> log_core \<Rightarrow> log_core" where
  "initLogging_unlock t cfg c =
     (let c1 = (if console_on cfg then snd (new_sink console_sink c) else c);
          c2 = (if log_file_on cfg
            then let path = log_file_dir cfg @ ''/'' @ log_file_name_prefix cfg @ ''_%Y%m%d.log'';
                     (i, d) = new_sink (file_sink path (log_file_dir cfg)) c1;
                     d1 = update_sink i (level_filter_update (\<lambda>_. Some (log_file_level cfg))) d;
                     d2 = update_sink i (formatter_update (\<lambda>_. file_format)) d1
                 in add_sink i (the (map_of (sinks d2) i)) d2
            else c1)
      in c2\<lparr>common_attributes := True, scope_threads := List.insert t (scope_threads c2)\<rparr>)"

section \<open>Initialisation\<close>

record log_state =
  initialized :: bool
  core :: log_core

definition log_start :: log_state where
  "log_start = \<lparr>initialized = False,
     core = \<lparr>sinks = [], next_sink = 0, common_attributes = False, scope_threads = []\<rparr>\<rparr>"

text \<open>
  The statements of \<open>initLogging\<close> and \<open>lg\<close> under the mutex, in the order of the code: the assertion of
  \<open>initLogging\<close>, the second check of \<open>initialized_\<close>, the call of \<open>initLogging_unlock\<close>, the assignment to
  \<open>initialized_\<close>, and the end of the block, where the mutex is released. A function takes one statement
  and gives the next one with the new state.
\<close>

datatype log_point = AtAssert | AtCheck | AtInit | AtPublish | AtUnlock

fun initLogging_locked :: "log_config \<Rightarrow> nat \<Rightarrow> log_point \<Rightarrow> log_state \<Rightarrow> error + (log_point \<times> log_state)" where
  "initLogging_locked cfg t AtAssert s = rbind (cassert (\<not> initialized s)) (\<lambda>_. Inr (AtCheck, s))"
| "initLogging_locked cfg t AtCheck s = Inr (if \<not> initialized s then AtInit else AtUnlock, s)"
| "initLogging_locked cfg t AtInit s = Inr (AtPublish, s\<lparr>core := initLogging_unlock t cfg (core s)\<rparr>)"
| "initLogging_locked cfg t AtPublish s = Inr (AtUnlock, s\<lparr>initialized := True\<rparr>)"
| "initLogging_locked cfg t AtUnlock s = Inr (AtUnlock, s)"

text \<open>The configuration of \<open>lg\<close>, from the directory and the stem of the program's path.\<close>

definition default_config :: "string \<Rightarrow> string \<Rightarrow> log_config" where
  "default_config dir stem = \<lparr>console_on = True, console_level = trace, log_file_on = True, log_file_level = trace,
     log_file_dir = dir @ ''/logs'', log_file_name_prefix = stem\<rparr>"

fun lg_locked :: "string \<Rightarrow> string \<Rightarrow> nat \<Rightarrow> log_point \<Rightarrow> log_state \<Rightarrow> log_point \<times> log_state" where
  "lg_locked dir stem t AtAssert s = (AtCheck, s)"
| "lg_locked dir stem t AtCheck s = (if \<not> initialized s then AtInit else AtUnlock, s)"
| "lg_locked dir stem t AtInit s = (AtPublish, s\<lparr>core := initLogging_unlock t (default_config dir stem) (core s)\<rparr>)"
| "lg_locked dir stem t AtPublish s = (AtUnlock, s\<lparr>initialized := True\<rparr>)"
| "lg_locked dir stem t AtUnlock s = (AtUnlock, s)"

text \<open>
  The two functions as one thread runs them, undisturbed by others: at most four statements lead from
  the first one under the mutex to the end of the block.
\<close>

definition initLogging :: "log_config \<Rightarrow> nat \<Rightarrow> log_state \<Rightarrow> error + log_state" where
  "initLogging cfg t s =
     (if \<not> initialized s
      then rbind (((\<lambda>x. rbind x (\<lambda>(p, y). initLogging_locked cfg t p y)) ^^ 4) (Inr (AtAssert, s))) (\<lambda>(_, y). Inr y)
      else Inl AssertFailed)"

definition lg :: "string \<Rightarrow> string \<Rightarrow> nat \<Rightarrow> log_state \<Rightarrow> log_state" where
  "lg dir stem t s =
     (if \<not> initialized s then snd (((\<lambda>(p, y). lg_locked dir stem t p y) ^^ 3) (AtCheck, s)) else s)"

text \<open>
  \<open>LOG_LEVEL(lvl) << text\<close> in the thread \<open>t\<close>: the logger is fetched, and the record goes to every sink
  whose filter accepts its severity. A thread without the attribute \<open>Scope\<close> has records without it,
  which a formatter shows as nothing. The result has what each sink writes.
\<close>

definition accepts :: "log_sink \<Rightarrow> log_record \<Rightarrow> bool" where
  "accepts k r = (case level_filter k of None \<Rightarrow> True | Some lvl \<Rightarrow> lvl \<le> severity r)"

definition open_record :: "nat \<Rightarrow> log_core \<Rightarrow> log_record \<Rightarrow> log_record" where
  "open_record t c r = (if t \<in> set (scope_threads c) then r else r\<lparr>scope := \<lambda>_. []\<rparr>)"

definition LOG_LEVEL :: "string \<Rightarrow> string \<Rightarrow> nat \<Rightarrow> log_record \<Rightarrow> log_state \<Rightarrow> (sink_kind \<times> string) list \<times> log_state" where
  "LOG_LEVEL dir stem t r s =
     (let s1 = lg dir stem t s; r1 = open_record t (core s1) r
      in (map (\<lambda>(_, k). (kind k, formatter k r1)) (filter (\<lambda>(_, k). accepts k r1) (sinks (core s1))), s1))"

section \<open>Threads\<close>

text \<open>
  Where a thread is in \<open>lg\<close> or \<open>initLogging\<close>: outside, past the unlocked check and waiting for the mutex,
  with the mutex at one of the statements, or returned. The threads take turns statement by statement.
  Reads and writes of \<open>initialized_\<close> are atomic and in program order, which is more than C++ promises
  for a plain \<open>bool\<close>.
\<close>

datatype log_call = Lg | Init log_config

datatype log_pc = Outside | Waits log_call | Inside log_call log_point | Returned

record log_threads =
  shared :: log_state
  mutex :: "nat option"
  pc :: "nat \<Rightarrow> log_pc"

definition goto :: "nat \<Rightarrow> log_pc \<Rightarrow> log_threads \<Rightarrow> log_threads" where
  "goto t x s = s\<lparr>pc := (pc s)(t := x)\<rparr>"

primrec first_point :: "log_call \<Rightarrow> log_point" where
  "first_point Lg = AtCheck"
| "first_point (Init cfg) = AtAssert"

primrec statement :: "string \<Rightarrow> string \<Rightarrow> log_call \<Rightarrow> nat \<Rightarrow> log_point \<Rightarrow> log_state \<Rightarrow> error + (log_point \<times> log_state)" where
  "statement dir stem Lg = (\<lambda>t p s. Inr (lg_locked dir stem t p s))"
| "statement dir stem (Init cfg) = initLogging_locked cfg"

inductive log_step :: "string \<Rightarrow> string \<Rightarrow> log_threads \<Rightarrow> error + log_threads \<Rightarrow> bool" for dir stem where
  lg_call: "pc s t = Outside \<Longrightarrow>
    log_step dir stem s (Inr (goto t (if \<not> initialized (shared s) then Waits Lg else Returned) s))"
| init_call: "pc s t = Outside \<Longrightarrow>
    log_step dir stem s (if \<not> initialized (shared s) then Inr (goto t (Waits (Init cfg)) s) else Inl AssertFailed)"
| lock: "pc s t = Waits c \<Longrightarrow> mutex s = None \<Longrightarrow>
    log_step dir stem s (Inr (goto t (Inside c (first_point c)) (s\<lparr>mutex := Some t\<rparr>)))"
| inside: "pc s t = Inside c p \<Longrightarrow> p \<noteq> AtUnlock \<Longrightarrow>
    log_step dir stem s (rbind (statement dir stem c t p (shared s)) (\<lambda>(q, x). Inr (goto t (Inside c q) (s\<lparr>shared := x\<rparr>))))"
| unlock: "pc s t = Inside c AtUnlock \<Longrightarrow> log_step dir stem s (Inr (goto t Returned (s\<lparr>mutex := None\<rparr>)))"
| again: "pc s t = Returned \<Longrightarrow> log_step dir stem s (Inr (goto t Outside s))"

definition log_threads_start :: "log_threads \<Rightarrow> bool" where
  "log_threads_start s \<longleftrightarrow> s = \<lparr>shared = log_start, mutex = None, pc = (\<lambda>_. Outside)\<rparr>"

fun holds_lock :: "log_pc \<Rightarrow> bool" where
  "holds_lock (Inside c p) = True"
| "holds_lock _ = False"

text \<open>
  Between two critical sections the log is untouched, or it is initialised and its core is that of one
  run of the initialisation on the empty core. Inside a section the state follows the statements.
\<close>

definition settled :: "log_state \<Rightarrow> bool" where
  "settled x \<longleftrightarrow> (if initialized x then \<exists>u cfg. core x = initLogging_unlock u cfg (core log_start) else x = log_start)"

fun at_point :: "nat \<Rightarrow> log_pc \<Rightarrow> log_state \<Rightarrow> bool" where
  "at_point t (Inside c AtInit) x = (x = log_start)"
| "at_point t (Inside c AtPublish) x = (\<exists>cfg. x = log_start\<lparr>core := initLogging_unlock t cfg (core log_start)\<rparr>)"
| "at_point t (Inside c AtUnlock) x = (settled x \<and> initialized x)"
| "at_point t _ x = settled x"

definition log_inv :: "log_threads \<Rightarrow> bool" where
  "log_inv s \<longleftrightarrow> (\<forall>t. holds_lock (pc s t) \<longleftrightarrow> mutex s = Some t)
     \<and> (case mutex s of None \<Rightarrow> settled (shared s) | Some t \<Rightarrow> at_point t (pc s t) (shared s))
     \<and> (\<forall>t. pc s t = Returned \<longrightarrow> initialized (shared s))"

lemma funpow_few: "(f ^^ 3) x = f (f (f x))" "(f ^^ 4) x = f (f (f (f x)))"
  by (simp_all add: numeral_eq_Suc)

lemma initLogging_unlock_attributes [simp]: "common_attributes (initLogging_unlock t cfg c)"
  by (simp add: initLogging_unlock_def Let_def)

lemma goto_sel [simp]:
  "shared (goto t x s) = shared s" "mutex (goto t x s) = mutex s" "pc (goto t x s) = (pc s)(t := x)"
  by (simp_all add: goto_def)

lemma statement_keeps_initialized:
  "statement dir stem c t p x = Inr (q, y) \<Longrightarrow> initialized x \<Longrightarrow> initialized y"
  by (cases c; cases p) (auto simp: rbind_eq_Inr_iff)

lemma settled_cases: "settled x \<Longrightarrow> \<not> initialized x \<Longrightarrow> x = log_start"
  by (simp add: settled_def)

lemma settled_published: "settled (log_start\<lparr>core := initLogging_unlock t cfg (core log_start), initialized := True\<rparr>)"
  by (auto simp: settled_def)

text \<open>One statement under the mutex leads from the states at one point to the states at the next.\<close>

lemma statement_at_point:
  assumes "at_point t (Inside c p) x" and "p \<noteq> AtUnlock" and "statement dir stem c t p x = Inr (q, y)"
  shows "at_point t (Inside c q) y"
  using assms settled_published
  by (cases c; cases p) (auto simp: rbind_eq_Inr_iff dest: settled_cases)

lemma log_step_inv:
  assumes "log_inv s" and "log_step dir stem s (Inr s')"
  shows "log_inv s'"
proof -
  have out: "\<not> holds_lock (pc s t) \<Longrightarrow> mutex s \<noteq> Some t" for t using assms(1) by (auto simp: log_inv_def)
  have held: "at_point t (pc s t) (shared s)" "mutex s = Some t" if "pc s t = Inside c p" for t c p
  proof -
    show m: "mutex s = Some t" using assms(1) that by (metis log_inv_def holds_lock.simps(1))
    show "at_point t (pc s t) (shared s)" using assms(1) m by (simp add: log_inv_def)
  qed
  show ?thesis using assms(2)
  proof (cases rule: log_step.cases)
    case (lg_call t)
    then show ?thesis using assms(1) out [of t] by (auto simp: log_inv_def split: option.splits)
  next
    case (init_call t cfg)
    then show ?thesis using assms(1) out [of t] by (auto simp: log_inv_def split: if_splits option.splits)
  next
    case (lock t c)
    then show ?thesis using assms(1) out [of t] by (cases c) (auto simp: log_inv_def)
  next
    case (inside t c p)
    then obtain q x where x: "statement dir stem c t p (shared s) = Inr (q, x)" "s' = goto t (Inside c q) (s\<lparr>shared := x\<rparr>)"
      by (cases "statement dir stem c t p (shared s)") auto
    have "at_point t (Inside c q) x" using statement_at_point [OF _ inside(3) x(1)] held(1) [OF inside(2)] inside(2) by simp
    moreover have "initialized (shared s) \<Longrightarrow> initialized x" by (rule statement_keeps_initialized [OF x(1)])
    ultimately show ?thesis using x(2) assms(1) held(2) [OF inside(2)] by (auto simp: log_inv_def)
  next
    case (unlock t c)
    then show ?thesis using assms(1) held [OF unlock(2)] by (auto simp: log_inv_def)
  next
    case (again t)
    then have "mutex s \<noteq> Some t" using out [of t] by auto
    then show ?thesis using again assms(1) by (auto simp: log_inv_def split: option.splits)
  qed
qed

interpretation logging: inductive_invariant log_threads_start "log_step dir stem" log_inv for dir stem
proof unfold_locales
  show "log_threads_start s \<Longrightarrow> log_inv s" for s
    by (auto simp: log_threads_start_def log_inv_def log_start_def settled_def)
qed (rule log_step_inv)

section \<open>Properties\<close>

text \<open>
  C27. The log is set up once, whatever threads call \<open>lg\<close> and \<open>initLogging\<close> and however their statements
  interleave, as long as reads and writes of \<open>initialized_\<close> are sequentially consistent: in every
  reachable state at most one thread is in the critical section; a thread that has returned from either
  function finds the flag set; as long as the flag is set the core is that of exactly one complete run
  of the initialisation on the empty core; and as long as it is not, the core is empty or the thread
  that holds the mutex has just initialised it and is about to set the flag.
\<close>

theorem logging_initialised_once:
  assumes "reach log_threads_start (log_step dir stem) s"
  shows "(\<forall>t u. holds_lock (pc s t) \<and> holds_lock (pc s u) \<longrightarrow> t = u)
    \<and> (\<forall>t. pc s t = Returned \<longrightarrow> initialized (shared s))
    \<and> (initialized (shared s) \<longrightarrow> (\<exists>u cfg. core (shared s) = initLogging_unlock u cfg (core log_start)))
    \<and> (\<not> initialized (shared s) \<longrightarrow> shared s = log_start \<or>
        (\<exists>t c cfg. mutex s = Some t \<and> pc s t = Inside c AtPublish \<and> core (shared s) = initLogging_unlock t cfg (core log_start)))"
proof -
  have inv: "log_inv s" by (rule logging.reach_inv [OF assms])
  have one: "\<forall>t u. holds_lock (pc s t) \<and> holds_lock (pc s u) \<longrightarrow> t = u" using inv by (auto simp: log_inv_def)
  have "settled (shared s) \<or> shared s = log_start \<or> (\<exists>t c cfg. mutex s = Some t \<and> pc s t = Inside c AtPublish
      \<and> shared s = log_start\<lparr>core := initLogging_unlock t cfg (core log_start)\<rparr>)"
  proof (cases "mutex s")
    case (Some t)
    then have "holds_lock (pc s t)" "at_point t (pc s t) (shared s)" using inv by (auto simp: log_inv_def)
    then show ?thesis using Some by (cases "(t, pc s t, shared s)" rule: at_point.cases) auto
  qed (use inv in \<open>auto simp: log_inv_def\<close>)
  moreover have "\<not> initialized log_start" by (simp add: log_start_def)
  ultimately show ?thesis using one inv by (fastforce simp: log_inv_def settled_def split: if_splits)
qed

definition one_thread :: "log_pc \<Rightarrow> log_threads" where
  "one_thread x = \<lparr>shared = log_start, mutex = None, pc = (\<lambda>_. Outside)(0 := x)\<rparr>"

text \<open>Thread 0 has initialised the core and is about to set the flag; thread 1 waits for the mutex.\<close>

definition mid_init :: log_threads where
  "mid_init = \<lparr>shared = log_start\<lparr>core := initLogging_unlock 0 (default_config ''d'' ''s'') (core log_start)\<rparr>,
     mutex = Some 0, pc = (\<lambda>_. Outside)(0 := Inside Lg AtPublish, Suc 0 := Waits Lg)\<rparr>"

lemma one_thread_reached:
  "reach log_threads_start (log_step dir stem) (one_thread Outside)"
  "reach log_threads_start (log_step dir stem) (one_thread (Waits Lg))"
proof -
  show r: "reach log_threads_start (log_step dir stem) (one_thread Outside)"
    by (rule reach.init) (simp add: log_threads_start_def one_thread_def fun_eq_iff)
  show "reach log_threads_start (log_step dir stem) (one_thread (Waits Lg))"
    using reach.step [OF r log_step.lg_call [of _ 0]] by (simp add: goto_def log_start_def one_thread_def)
qed

lemma mid_init_reached: "reach log_threads_start (log_step ''d'' ''s'') mid_init"
proof -
  let ?R = "reach log_threads_start (log_step ''d'' ''s'')"
  define a where "a = goto 1 (Waits Lg) (one_thread (Waits Lg))"
  have a: "?R a" using reach.step [OF one_thread_reached(2) log_step.lg_call [of _ 1]]
    by (simp add: a_def one_thread_def log_start_def)
  define b where "b = goto 0 (Inside Lg AtCheck) (a\<lparr>mutex := Some 0\<rparr>)"
  have b: "?R b" using reach.step [OF a log_step.lock [of _ 0 Lg]] by (simp add: a_def b_def one_thread_def)
  define c where "c = goto 0 (Inside Lg AtInit) b"
  have "log_step ''d'' ''s'' b (Inr c)" using log_step.inside [of b 0 Lg AtCheck "''d''" "''s''"]
    by (simp add: a_def b_def c_def one_thread_def log_start_def goto_def)
  then have c: "?R c" by (rule reach.step [OF b])
  have "log_step ''d'' ''s'' c (Inr mid_init)" using log_step.inside [of c 0 Lg AtInit "''d''" "''s''"]
    by (simp add: a_def b_def c_def one_thread_def mid_init_def goto_def fun_upd_twist)
  then show ?thesis by (rule reach.step [OF c])
qed

theorem logging_initialised_once_witness:
  "reach log_threads_start (log_step ''d'' ''s'') mid_init \<and> \<not> initialized (shared mid_init)
    \<and> (\<exists>t c cfg. mutex mid_init = Some t \<and> pc mid_init t = Inside c AtPublish
        \<and> core (shared mid_init) = initLogging_unlock t cfg (core log_start))"
proof -
  have "\<not> initialized (shared mid_init)" "common_attributes (core (shared mid_init))" "\<not> common_attributes (core log_start)"
    by (simp_all add: mid_init_def log_start_def)
  moreover from this have "shared mid_init \<noteq> log_start" by metis
  ultimately show ?thesis using logging_initialised_once [OF mid_init_reached] mid_init_reached by blast
qed

text \<open>
  What a log statement of the thread \<open>t\<close> writes after \<open>initLogging\<close> by the thread \<open>u\<close>: one line on the
  console if the console is on, whatever \<open>console_level\<close> says, and one line in the file if the file is
  on and the severity is at least \<open>log_file_level\<close>, with the scope left out unless \<open>t = u\<close>; without
  \<open>initLogging\<close> the first statement initialises the log with everything on.
\<close>

theorem log_statement_routed:
  assumes "initLogging cfg u log_start = Inr s"
  shows "map snd (fst (LOG_LEVEL dir stem t r s)) = (if console_on cfg then [console_format r] else [])
      @ (if log_file_on cfg \<and> log_file_level cfg \<le> severity r then [file_format (if t = u then r else r\<lparr>scope := \<lambda>_. []\<rparr>)] else [])
    \<and> snd (LOG_LEVEL dir stem t r s) = s
    \<and> map snd (fst (LOG_LEVEL dir stem t r log_start)) = [console_format r, file_format r]"
proof -
  have s: "s = log_start\<lparr>core := initLogging_unlock u cfg (core log_start), initialized := True\<rparr>"
    using assms by (auto simp: initLogging_def log_start_def funpow_few)
  note defs = LOG_LEVEL_def lg_def log_start_def initLogging_unlock_def new_sink_def add_sink_def update_sink_def
    accepts_def console_sink_def file_sink_def open_record_def console_format_def Let_def funpow_few
  have "map snd (fst (LOG_LEVEL dir stem t r s)) = (if console_on cfg then [console_format r] else [])
      @ (if log_file_on cfg \<and> log_file_level cfg \<le> severity r then [file_format (if t = u then r else r\<lparr>scope := \<lambda>_. []\<rparr>)] else [])"
    "snd (LOG_LEVEL dir stem t r s) = s"
    unfolding s by (simp_all add: defs)
  moreover have "map snd (fst (LOG_LEVEL dir stem t r log_start)) = [console_format r, file_format r]"
    using trace_least [of "severity r"] by (simp add: defs default_config_def)
  ultimately show ?thesis by simp
qed

theorem log_statement_routed_witness:
  "let cfg = (default_config ''d'' ''s'')\<lparr>console_level := fatal, log_file_level := warning\<rparr>;
       r = \<lparr>severity = debug, message = ''hi'', timestamp = (\<lambda>_. ''T''), thread_id = ''1'', scope = (\<lambda>_. ''f'')\<rparr>
   in \<exists>s. initLogging cfg 0 log_start = Inr s \<and> map snd (fst (LOG_LEVEL ''d'' ''s'' 0 r s)) = [''T [debug]: hi'']"
proof -
  let ?cfg = "(default_config ''d'' ''s'')\<lparr>console_level := fatal, log_file_level := warning\<rparr>"
  let ?r = "\<lparr>severity = debug, message = ''hi'', timestamp = (\<lambda>_. ''T''), thread_id = ''1'', scope = (\<lambda>_. ''f'')\<rparr>"
  obtain s where s: "initLogging ?cfg 0 log_start = Inr s" by (simp add: initLogging_def log_start_def funpow_few)
  have "map snd (fst (LOG_LEVEL ''d'' ''s'' 0 ?r s)) = [''T [debug]: hi'']"
    using log_statement_routed [OF s, of "''d''" "''s''" 0 ?r]
    by (simp add: default_config_def less_eq_LogLevel_def console_format_def level_text_def level_names_def)
  then show ?thesis using s by (auto simp: Let_def)
qed

text \<open>
  Two calls of \<open>initLogging\<close> that pass the unlocked check together end in a failed assertion: when the
  first has initialised the log and the second gets the mutex, the assertion under the mutex does not
  allow for the race that the second check behind it handles.
\<close>

theorem concurrent_initLogging_asserts:
  assumes "reach log_threads_start (log_step dir stem) s" and "pc s t = Inside (Init cfg) AtUnlock"
    and "pc s u = Waits (Init cfg')"
  shows "\<exists>s1 s2. log_step dir stem s (Inr s1) \<and> log_step dir stem s1 (Inr s2)
    \<and> pc s2 u = Inside (Init cfg') AtAssert \<and> initLogging_locked cfg' u AtAssert (shared s2) = Inl AssertFailed"
proof -
  have inv: "log_inv s" by (rule logging.reach_inv [OF assms(1)])
  then have "mutex s = Some t" using assms(2) by (metis log_inv_def holds_lock.simps(1))
  then have i: "initialized (shared s)" using inv assms(2) by (simp add: log_inv_def)
  let ?s1 = "goto t Returned (s\<lparr>mutex := None\<rparr>)"
  let ?s2 = "goto u (Inside (Init cfg') AtAssert) (?s1\<lparr>mutex := Some u\<rparr>)"
  have "u \<noteq> t" using assms(2,3) by auto
  then have "log_step dir stem ?s1 (Inr ?s2)" using log_step.lock [of ?s1 u "Init cfg'" dir stem] assms(3) by simp
  moreover have "initLogging_locked cfg' u AtAssert (shared ?s2) = Inl AssertFailed" using i by simp
  ultimately show ?thesis using log_step.unlock [OF assms(2)] by fastforce
qed

end
