(* ===== verification/Codec_Conn.thy ===== *)
theory Codec_Conn
  imports Conn_Data Dispatcher
begin

text \<open>
  The codec on a connection: what \<open>ProtobufCodec::send\<close> hands to the output side, and what
  \<open>ProtobufCodec::onMessage\<close>, bound as the message callback of a connection, does when the bytes of
  a frame arrive, in as many reads as the network likes.
\<close>

section \<open>The codec as a message callback\<close>

text \<open>
  \<open>onMessage\<close> of the codec on the input buffer of the connection. Both callbacks of the codec get the
  connection, here the world; the error callback also gets the input buffer, which is a part of it.
\<close>

definition ProtobufCodec_onMessage :: "('d, 'msg) protobuf_api \<Rightarrow> ('msg \<Rightarrow> 'u callback) \<Rightarrow> (ErrorCode \<Rightarrow> 'u callback) \<Rightarrow> 'u callback" where
  "ProtobufCodec_onMessage api messageCallback errorCallback s =
     rbind (onMessage api
       (\<lambda>msg m s. rbind (messageCallback msg (s\<lparr>cmem := m\<rparr>)) (\<lambda>s1. Inr (cmem s1, s1)))
       (\<lambda>code b m s. rbind (errorCallback code (upd_conn (input_buffer_update (\<lambda>_. b)) (s\<lparr>cmem := m\<rparr>)))
          (\<lambda>s1. Inr (input_buffer (conn s1), cmem s1, s1)))
       (input_buffer (conn s)) (cmem s) s)
     (\<lambda>(b, m, s1). Inr (upd_conn (input_buffer_update (\<lambda>_. b)) (s1\<lparr>cmem := m\<rparr>)))"

text \<open>
  The object: its two callbacks. With one argument the constructor takes the default error callback,
  whose log line is not kept in the world.
\<close>

record ('msg, 'u) protobuf_codec =
  messageCallback :: "'msg \<Rightarrow> 'u callback"
  errorCallback :: "ErrorCode \<Rightarrow> 'u callback"

definition ProtobufCodec_new :: "('msg \<Rightarrow> 'u callback) \<Rightarrow> ('msg, 'u) protobuf_codec" where
  "ProtobufCodec_new messageCb = \<lparr>messageCallback = messageCb,
     errorCallback = (\<lambda>code s. Inr (the (snd (defaultErrorCallback (Some s) code []))))\<rparr>"

definition ProtobufCodec_new_error :: "('msg \<Rightarrow> 'u callback) \<Rightarrow> (ErrorCode \<Rightarrow> 'u callback) \<Rightarrow> ('msg, 'u) protobuf_codec" where
  "ProtobufCodec_new_error messageCb errorCb = \<lparr>messageCallback = messageCb, errorCallback = errorCb\<rparr>"

definition codec_onMessage :: "('d, 'msg) protobuf_api \<Rightarrow> ('msg, 'u) protobuf_codec \<Rightarrow> 'u callback" where
  "codec_onMessage api codec = ProtobufCodec_onMessage api (messageCallback codec) (errorCallback codec)"

section \<open>What sending leaves alone\<close>

definition others :: "'u world \<Rightarrow> request list" where
  "others s = filter (\<lambda>r. \<not> is_send r) (pending s)"

lemma others_simps [simp]:
  "others (upd_conn f s) = others s" "others (s\<lparr>cmem := m\<rparr>) = others s" "others (s\<lparr>user := u\<rparr>) = others s"
  "others (s\<lparr>calls := cs\<rparr>) = others s"
  "others (request r s) = others s @ (if is_send r then [] else [r])"
  by (simp_all add: others_def upd_conn_def)

lemma async_send_keeps:
  "async_send p s = Inr s' \<Longrightarrow> others s' = others s \<and> user s' = user s \<and> calls s' = calls s"
  by (auto simp: async_send_def rbind_eq_Inr_iff split: option.splits)

lemma sendInLoop_keeps:
  assumes "sendInLoop p s = Inr s'"
  shows "others s' = others s \<and> user s' = user s \<and> calls s' = calls s"
proof -
  obtain b m where w: "OutputBuffer_writePieceQueue p (output_buffer (conn s)) (cmem s) = Inr (b, m)"
    using assms by (auto simp: sendInLoop_def rbind_eq_Inr_iff)
  show ?thesis
  proof (cases "is_sending (conn s)")
    case True
    then show ?thesis using assms w by (auto simp: sendInLoop_def)
  next
    case False
    then show ?thesis using assms w by (auto simp: sendInLoop_def rbind_eq_Inr_iff dest!: async_send_keeps)
  qed
qed

lemma launchWrite_keeps:
  "launchWrite s = Inr s' \<Longrightarrow> others s' = others s \<and> user s' = user s \<and> calls s' = calls s"
  by (auto simp: launchWrite_def rbind_eq_Inr_iff split: if_splits dest!: async_send_keeps)

lemma others_taken_send: "others (taken (AsyncSend a) s) = others s"
  by (simp add: others_def filter_remove1 remove1_idem)

lemma handleWrite_keeps:
  assumes "handleWrite cbs a Success (taken (AsyncSend a) s) = Inr s'"
  shows "others s' = others s \<and> user s' = user s \<and> calls s' = calls s"
  using assms by (auto simp: handleWrite_def Let_def rbind_eq_Inr_iff others_taken_send dest!: launchWrite_keeps)

section \<open>Sending a message\<close>

lemma holds_one_piece:
  assumes "holds_one m b bs F r"
  obtains a where "bchain m b [a] F" "cell_bytes (cells m) a = bs" "cell_ok (cells m) a"
    "Buffer_moveToQueueHead b = (Some a, Buffer_new)" "Buffer_length b = length bs"
proof -
  obtain a c where a: "bchain m b [a] F" "cells m a = Some c" "piece_bytes c = bs" "blength b = length bs"
    using assms by (auto simp: holds_one_def)
  then show thesis
    using that [of a] moveToQueueHead_pieces [OF a(1)] by (auto simp: cell_bytes_def bchain_def Buffer_length_def)
qed

lemma ProtobufCodec_send_ok:
  assumes rep: "sender s fl oas F" and st: "status (conn s) = kConnected"
    and fits: "length (frame_bytes api msg) \<le> kPieceCapacity"
    and some: "concat (raw_writes api msg) \<noteq> [] \<or> length (frame_bytes api msg) < kPieceCapacity"
  shows "\<exists>s' fl' oas' L. ProtobufCodec_send True api msg s = Inr s' \<and> sender s' fl' oas' (L \<union> F)
     \<and> outgoing s' fl' oas' = outgoing s fl oas @ frame_bytes api msg \<and> fl' \<noteq> None
     \<and> frame (cmem s) (cmem s') F \<and> status (conn s') = kConnected
     \<and> input_buffer (conn s') = input_buffer (conn s) \<and> L \<inter> F = {}
     \<and> others s' = others s \<and> user s' = user s \<and> calls s' = calls s \<and> length oas' \<le> Suc (length oas)"
proof -
  let ?m = "cmem s" and ?G = "set oas \<union> (set_option fl \<union> F)"
  have b: "bchain ?m (output_buffer (conn s)) oas (set_option fl \<union> F)" "set_option fl \<inter> F = {}"
    using rep by (auto simp: sender_def)
  then have inv: "mem_inv ?m ?G" by (simp add: bchain_def)
  obtain b' m' where w: "fillEmptyBuffer api msg Buffer_new ?m = Inr (b', m')"
    "holds_one m' b' (frame_bytes api msg) ?G 0" "frame ?m m' ?G"
    using fillEmptyBuffer_one [OF inv fits some] by blast
  from w(2) obtain a where a: "bchain m' b' [a] ?G" "cell_bytes (cells m') a = frame_bytes api msg" "cell_ok (cells m') a"
    "Buffer_moveToQueueHead b' = (Some a, Buffer_new)" "Buffer_length b' = length (frame_bytes api msg)"
    by (rule holds_one_piece)
  have ne: "frame_bytes api msg \<noteq> []" by (simp add: frame_bytes_def le_bytes_ne)
  have dis: "a \<notin> ?G" using a(1) by (auto simp: bchain_def)
  have "mem_inv m' (set oas \<union> (set_option fl \<union> insert a F))" using a(1) by (simp add: bchain_def insert_commute)
  moreover have "(set oas \<union> set_option fl) \<inter> insert a F = {}" using dis b by (auto simp: bchain_def)
  moreover have "frame ?m m' (set oas \<union> set_option fl)" using w(3) by (rule frame_mono) auto
  ultimately have s1: "sender (s\<lparr>cmem := m'\<rparr>) fl oas (insert a F)"
    "outgoing (s\<lparr>cmem := m'\<rparr>) fl oas = outgoing s fl oas"
    using sender_frame [OF rep] by blast+
  have aF: "a \<notin> F" using dis by simp
  obtain s' fl' oas' L where r: "sendInLoop (Some a) (s\<lparr>cmem := m'\<rparr>) = Inr s'" "sender s' fl' oas' (L \<union> F)"
    "outgoing s' fl' oas' = outgoing s fl oas @ frame_bytes api msg" "fl' \<noteq> None"
    "frame m' (cmem s') F" "status (conn s') = kConnected"
    "input_buffer (conn s') = input_buffer (conn s)" "L \<inter> F = {}" "length oas' \<le> Suc (length oas)"
    using sendInLoop_ok [OF s1(1) aF] a(2,3) ne s1(2) st by auto
  have "TCPConn_send_buffer True b' (s\<lparr>cmem := m'\<rparr>) = Inr (Buffer_new, s')"
    using st a(4,5) ne r(1) by (simp add: TCPConn_send_buffer_def)
  then have "ProtobufCodec_send True api msg s = Inr s'"
    using w(1) by (simp add: ProtobufCodec_send_def codec_send_def)
  moreover have "frame ?m (cmem s') F" using frame_mono [OF w(3)] r(5) by (blast intro: frame_trans)
  ultimately show ?thesis using r(2-4,6-9) sendInLoop_keeps [OF r(1)] by auto
qed

section \<open>Receiving a frame\<close>

text \<open>A buffer that is empty or has its bytes in one piece.\<close>

definition in_one :: "mem \<Rightarrow> buffer \<Rightarrow> byte list \<Rightarrow> addr set \<Rightarrow> bool" where
  "in_one m b bs F \<longleftrightarrow> (\<exists>as. bchain m b as F \<and> chain_bytes (cells m) as = bs \<and> blength b = length bs
     \<and> length as = (if bs = [] then 0 else 1))"

lemma in_one_dense: "in_one m b bs F \<Longrightarrow> dense m b bs F"
  unfolding in_one_def dense_def
proof (elim exE conjE, intro exI conjI)
  fix as assume "chain_bytes (cells m) as = bs" and "length as = (if bs = [] then 0 else 1)"
  then show "\<forall>c \<in> set (chunks m as). c \<noteq> []" by (auto simp: chunks_def length_Suc_conv split: if_splits)
qed

lemma in_one_front:
  assumes "in_one m b bs F" and "bs \<noteq> []" and "n \<le> length bs"
  shows "front_has n m b"
proof -
  obtain a where "bchain m b [a] F" "cell_bytes (cells m) a = bs"
    using assms by (auto simp: in_one_def length_Suc_conv)
  then show ?thesis using assms(3) Queue_front_bchain [of m b "[a]" F] by (simp add: front_has_def)
qed

text \<open>
  The cache keeps a piece that is given back now. With the counters away from the end of their range
  this stays so while the fragments of one frame arrive.
\<close>

definition pool_room :: "mem \<Rightarrow> bool" where
  "pool_room m \<longleftrightarrow> unat (qsize (pqueue (pool m))) < unat (using_count (pool m)) + 7
     \<and> unat (using_count (pool m)) + 7 < 2 ^ 32"

lemma pool_room_cache: "pool_room m \<Longrightarrow> cache_has_room m"
proof -
  assume r: "pool_room m"
  have e: "using_count (pool m) - 1 + BASE_CACHE_COUNT = using_count (pool m) + 7"
    by (simp add: BASE_CACHE_COUNT_def)
  have "unat (using_count (pool m) + 7) = unat (using_count (pool m)) + 7"
    using r by (simp add: pool_room_def unat_word_ariths)
  then show ?thesis unfolding cache_has_room_def e using r by (simp add: pool_room_def word_less_nat_alt)
qed

text \<open>The effect of a fragment and of the next \<open>launchRead\<close> on the counters.\<close>

lemma pool_room_next:
  assumes "pool_room m" "first \<longrightarrow> unat (using_count (pool m)) + 8 < 2 ^ 32"
    and "if first then pool m1 = pool m
      else unat (qsize (pqueue (pool m1))) = unat (qsize (pqueue (pool m))) + 1 \<and> using_count (pool m1) = using_count (pool m) - 1"
    and "using_count (pool m2) = using_count (pool m1) + 1" "unat (qsize (pqueue (pool m2))) = unat (qsize (pqueue (pool m1))) - 1"
  shows "pool_room m2"
proof (cases first)
  case True
  then have "unat (using_count (pool m2)) = unat (using_count (pool m)) + 1"
    using assms by (simp add: unat_word_ariths)
  then show ?thesis using True assms by (auto simp: pool_room_def)
next
  case False
  then show ?thesis using assms by (simp add: pool_room_def)
qed

lemma in_one_writePiece:
  assumes rep: "in_one m b bs (insert a F)" "a \<notin> F" and i: "cells m a = Some i" "piece_ok i"
    and d: "piece_bytes i = d" "d \<noteq> []" and fits: "length (bs @ d) \<le> kPieceCapacity"
    and room: "bs \<noteq> [] \<longrightarrow> cache_has_room m"
  shows "\<exists>b' m'. InputBuffer_writePiece (Some a) b m = Inr (b', m') \<and> in_one m' b' (bs @ d) F \<and> frame m m' F
     \<and> (if bs = [] then pool m' = pool m
        else unat (qsize (pqueue (pool m'))) = unat (qsize (pqueue (pool m))) + 1
          \<and> using_count (pool m') = using_count (pool m) - 1)"
proof -
  have li: "unat (len i) = length d" using length_piece_bytes [OF i(2)] d(1) by simp
  then have pos: "0 < unat (len i)" using d(2) by simp
  obtain as where as: "bchain m b as (insert a F)" "chain_bytes (cells m) as = bs" "blength b = length bs"
    "length as = (if bs = [] then 0 else 1)"
    using rep(1) by (auto simp: in_one_def)
  show ?thesis
  proof (cases "bs = []")
    case True
    then have nil: "as = []" using as(4) by simp
    then have "\<not> merges m as a" by (simp add: merges_def)
    then obtain b' m' where w: "InputBuffer_writePiece (Some a) b m = Inr (b', m')" "bchain m' b' (as @ [a]) F"
      "chunks m' (as @ [a]) = chunks m as @ [piece_bytes i]" "blength b' = blength b + unat (len i)" "frame m m' F"
      "pool m' = pool m"
      using writePiece_push [OF as(1) rep(2) i pos] by blast
    have "in_one m' b' (bs @ d) F" unfolding in_one_def
      using w(2-4) True nil li d as(3) by (intro exI [of _ "[a]"]) (simp add: chunks_def)
    then show ?thesis using w(1,5,6) True by auto
  next
    case False
    then obtain z where z: "as = [z]" using as(4) by (auto simp: length_Suc_conv)
    then have bz: "cell_bytes (cells m) z = bs" using as(2) by simp
    have "merges m ([] @ [z]) a" using bz fits i(1) d(1) by (simp add: merges_def cell_bytes_def [of _ a])
    then obtain b' m' where w: "InputBuffer_writePiece (Some a) b m = Inr (b', m')" "bchain m' b' ([] @ [z]) F"
      "chunks m' ([] @ [z]) = chunks m [] @ [cell_bytes (cells m) z @ piece_bytes i]"
      "blength b' = blength b + unat (len i)" "frame m m' F"
      "unat (qsize (pqueue (pool m'))) = unat (qsize (pqueue (pool m))) + 1"
      "using_count (pool m') = using_count (pool m) - 1"
      using writePiece_merge [of m b "[]" z a F i] as(1) rep(2) i pos room False z by auto
    have "in_one m' b' (bs @ d) F" unfolding in_one_def
      using w(2-4) False bz li d as(3) by (intro exI [of _ "[z]"]) (simp add: chunks_def)
    then show ?thesis using w(1,5-7) False by auto
  qed
qed

text \<open>What the kernel writes and \<open>handleRead\<close> stores in the piece of a completed read.\<close>

lemma read_piece:
  assumes inv: "mem_inv m (insert a G)" and c: "cells m a = Some c" "off c = 0" and d: "length d \<le> kPieceCapacity"
  obtains m1 c1 m2 i where "kernel_store a d m = Inr m1" "mderef (Some a) m1 = Inr c1"
    "mstore (Some a) (c1\<lparr>len := word_of_nat (length d)\<rparr>) m1 = Inr m2"
    "cells m2 a = Some i" "piece_ok i" "piece_bytes i = d" "m2 = m\<lparr>cells := (cells m)(a \<mapsto> i)\<rparr>"
proof -
  have l: "length (data c) = kPieceCapacity" using inv c(1) mem_inv_alive by fastforce
  let ?c1 = "c\<lparr>data := d @ drop (length d) (data c)\<rparr>"
  let ?i = "?c1\<lparr>len := word_of_nat (length d)\<rparr>"
  let ?m1 = "m\<lparr>cells := (cells m)(a \<mapsto> ?c1)\<rparr>"
  have k: "kernel_store a d m = Inr ?m1" using c d l by (simp add: kernel_store_def mem_simps)
  have "unat (len ?i) = length d" using d by (simp add: kPieceCapacity_def)
  then have "piece_ok ?i" "piece_bytes ?i = d" using c(2) l d by (auto simp: piece_ok_def piece_bytes_def)
  then show thesis using that [OF k, of ?c1 "m\<lparr>cells := (cells m)(a \<mapsto> ?i)\<rparr>" ?i] by (simp add: mem_simps)
qed

lemma receive_one:
  assumes rep: "in_one (cmem s) (input_buffer (conn s)) bs (insert a F)" "a \<notin> F"
    and c: "cells (cmem s) a = Some c" "off c = 0"
    and d: "d \<noteq> []" "length (bs @ d) \<le> kPieceCapacity" and room: "bs \<noteq> [] \<longrightarrow> cache_has_room (cmem s)"
  shows "\<exists>b m. rbind (kernel_store a d (cmem s)) (\<lambda>m. handleRead cbs a Success (length d) (taken r (s\<lparr>cmem := m\<rparr>)))
      = rbind (call MessageCb (message_cb cbs) (upd_conn (input_buffer_update (\<lambda>_. b)) (taken r (s\<lparr>cmem := m\<rparr>)))) launchRead
     \<and> in_one m b (bs @ d) F \<and> frame (cmem s) m F
     \<and> (if bs = [] then pool m = pool (cmem s)
        else unat (qsize (pqueue (pool m))) = unat (qsize (pqueue (pool (cmem s)))) + 1
          \<and> using_count (pool m) = using_count (pool (cmem s)) - 1)"
proof -
  let ?m = "cmem s" and ?b = "input_buffer (conn s)"
  obtain as where as: "bchain ?m ?b as (insert a F)" "chain_bytes (cells ?m) as = bs" "blength ?b = length bs"
    "length as = (if bs = [] then 0 else 1)"
    using rep(1) by (auto simp: in_one_def)
  then have "mem_inv ?m (insert a (set as \<union> F))" by (simp add: bchain_def)
  moreover have "length d \<le> kPieceCapacity" using d(2) by (metis add_leE length_append)
  ultimately obtain m1 c1 m2 i where k: "kernel_store a d ?m = Inr m1" "mderef (Some a) m1 = Inr c1"
    "mstore (Some a) (c1\<lparr>len := word_of_nat (length d)\<rparr>) m1 = Inr m2"
    "cells m2 a = Some i" "piece_ok i" "piece_bytes i = d" "m2 = ?m\<lparr>cells := (cells ?m)(a \<mapsto> i)\<rparr>"
    using c by (blast elim: read_piece)
  have "length (data i) = kPieceCapacity" using k(5) by (simp add: piece_ok_def)
  note h = bchain_held_upd [OF as(1) this, folded k(7)]
  have "chain_bytes (cells m2) as = bs" using h(2) as(2) by (metis concat_chunks)
  then have "in_one m2 ?b bs (insert a F)" using h(1) as(3,4) by (auto simp: in_one_def)
  moreover have "bs \<noteq> [] \<longrightarrow> cache_has_room m2" using room k(7) by (simp add: cache_has_room_def)
  ultimately obtain b m where w: "InputBuffer_writePiece (Some a) ?b m2 = Inr (b, m)" "in_one m b (bs @ d) F" "frame m2 m F"
    "if bs = [] then pool m = pool m2
     else unat (qsize (pqueue (pool m))) = unat (qsize (pqueue (pool m2))) + 1 \<and> using_count (pool m) = using_count (pool m2) - 1"
    using in_one_writePiece [OF _ rep(2) k(4-6) d] by blast
  have "frame ?m m2 F" using k(7) rep(2) by (auto simp: frame_def)
  then have "frame ?m m F" using w(3) frame_trans by blast
  moreover have "handleRead cbs a Success (length d) (taken r (s\<lparr>cmem := m1\<rparr>))
      = rbind (call MessageCb (message_cb cbs) (upd_conn (input_buffer_update (\<lambda>_. b)) (taken r (s\<lparr>cmem := m\<rparr>)))) launchRead"
    using k(2,3) w(1) by (simp add: handleRead_def taken_cmem)
  ultimately show ?thesis using k(1,7) w(2,4) by (intro exI [of _ b] exI [of _ m] conjI) simp_all
qed

lemma launchRead_ok:
  assumes inv: "mem_inv (cmem s) G" and sock: "socket (conn s) \<noteq> None"
  shows "\<exists>a m c. launchRead s = Inr (request (AsyncRead a) (s\<lparr>cmem := m\<rparr>)) \<and> a \<notin> G \<and> mem_inv m (insert a G)
     \<and> cells m a = Some c \<and> off c = 0 \<and> frame (cmem s) m G
     \<and> using_count (pool m) = using_count (pool (cmem s)) + 1
     \<and> unat (qsize (pqueue (pool m))) = unat (qsize (pqueue (pool (cmem s)))) - 1"
proof -
  obtain ps where ps: "cache_rep (cmem s) G ps" using inv by (auto simp: mem_inv_def)
  obtain a m c where n: "newPiece (cmem s) = Inr (Some a, m)" "a \<notin> G" "mem_inv m (insert a G)" "cells m a = Some c"
    "off c = 0" "frame (cmem s) m G"
    using newPiece_ok [OF inv] by blast
  moreover have "launchRead s = Inr (request (AsyncRead a) (s\<lparr>cmem := m\<rparr>))"
    using n(1,4) sock by (auto simp: launchRead_def mem_simps)
  ultimately show ?thesis using newPiece_pool [OF ps n(1)] cache_rep_size [OF ps]
    by (intro exI [of _ a] exI [of _ m] exI [of _ c]) simp
qed

text \<open>A frame that is not complete yet is left in the buffer.\<close>

lemma onMessage_prefix:
  assumes b: "in_one m b bs F" and bs: "bs @ rest = frame_bytes api msg" "rest \<noteq> []"
    and size: "10 \<le> length (payload api msg)" "length (payload api msg) \<le> 67108864"
  shows "onMessage api mcb ecb b m w = Inr (b, m, w)"
proof (cases "length bs < 14")
  case True
  then show ?thesis using dense_length [OF in_one_dense [OF b]] by (simp add: onMessage_def codec_consts)
next
  case False
  define x where "x = (word_of_nat (length (payload api msg)) :: uint32)"
  have sx: "sint x = int (length (payload api msg))" unfolding x_def using size(2) by (intro sint_of_nat32) simp
  then have x: "10 \<le> sint x" "sint x \<le> 67108864" using size by linarith+
  have "take 4 (bs @ rest) = le_bytes 4 (htonl x)" "drop 4 (bs @ rest) = payload api msg"
    unfolding bs(1) by (simp_all add: frame_bytes_def x_def)
  then have t: "take 4 bs = le_bytes 4 (htonl x)" and p: "drop 4 bs @ rest = payload api msg"
    using False by (simp_all only: take_le_append drop_le_append)
  have s: "bs = le_bytes 4 (htonl x) @ drop 4 bs" unfolding t [symmetric] by simp
  have "length (drop 4 bs) < length (payload api msg)" using bs(2) unfolding p [symmetric] by simp
  then have part: "int (length (drop 4 bs)) < sint x" using sx by linarith
  have "front_has 4 m b" using False by (intro in_one_front [OF b]) auto
  moreover have "dense m b (le_bytes 4 (htonl x) @ drop 4 bs) F" using in_one_dense [OF b] s by simp
  ultimately show ?thesis unfolding onMessage_def using x part by (intro onMessage_loop_waits)
qed

section \<open>A frame in any number of reads\<close>

text \<open>The reads of a connection complete one after the other with the given data.\<close>

primrec receive :: "'u conn_callbacks \<Rightarrow> byte list list \<Rightarrow> 'u world \<Rightarrow> error + 'u world" where
  "receive cbs [] s = Inr s"
| "receive cbs (d # ds) s = (case filter is_read (pending s) of
     AsyncRead a # _ \<Rightarrow>
       rbind (rbind (kernel_store a d (cmem s)) (\<lambda>m. handleRead cbs a Success (length d) (taken (AsyncRead a) (s\<lparr>cmem := m\<rparr>))))
         (receive cbs ds)
   | _ \<Rightarrow> Inr s)"

text \<open>A connection that waits for data, with \<open>bs\<close> in its input buffer and \<open>a\<close> as the piece of its read.\<close>

definition awaits :: "'u world \<Rightarrow> addr \<Rightarrow> byte list \<Rightarrow> addr set \<Rightarrow> bool" where
  "awaits s a bs F \<longleftrightarrow> in_one (cmem s) (input_buffer (conn s)) bs (insert a F) \<and> a \<notin> F
     \<and> filter is_read (pending s) = [AsyncRead a] \<and> (\<exists>c. cells (cmem s) a = Some c \<and> off c = 0)
     \<and> socket (conn s) \<noteq> None"

text \<open>The world in which the codec's message callback is called after the reads of a frame.\<close>

definition delivered :: "nat \<Rightarrow> mem \<Rightarrow> buffer \<Rightarrow> 'u world \<Rightarrow> 'u world" where
  "delivered n m b s = s\<lparr>conn := (conn s)\<lparr>input_buffer := b\<rparr>, cmem := m,
     pending := filter (\<lambda>r. \<not> is_read r) (pending s), calls := calls s @ replicate n MessageCb\<rparr>"

lemma remove1_only:
  "filter P xs = [x] \<Longrightarrow> remove1 x xs = filter (\<lambda>y. \<not> P y) xs"
proof (induction xs)
  case (Cons y xs)
  show ?case
  proof (cases "P y")
    case True
    then show ?thesis using Cons.prems by (auto simp: filter_empty_conv intro!: filter_True [symmetric])
  next
    case False
    then have xs: "filter P xs = [x]" using Cons.prems by simp
    then have "x \<in> set (filter P xs)" by simp
    then have "y \<noteq> x" using False by auto
    then show ?thesis using Cons.IH [OF xs] False by simp
  qed
qed simp

lemma call_delivered:
  assumes "filter is_read (pending s) = [AsyncRead a]"
  shows "(upd_conn (input_buffer_update (\<lambda>_. b)) (taken (AsyncRead a) (s\<lparr>cmem := m\<rparr>)))\<lparr>calls := calls s @ [MessageCb]\<rparr>
    = delivered 1 m b s"
  using remove1_only [OF assms] by (cases s) (simp add: delivered_def world_defs)

lemma delivered_again:
  "delivered n m b (request (AsyncRead a) (delivered k m' b' s)) = delivered (k + n) m b s"
  by (cases s) (simp add: delivered_def request_def replicate_add)

lemma delivered_sel [simp]:
  "conn (delivered n m b s) = (conn s)\<lparr>input_buffer := b\<rparr>" "cmem (delivered n m b s) = m"
  "user (delivered n m b s) = user s" "(delivered n m b s)\<lparr>cmem := m'\<rparr> = delivered n m' b s"
  "upd_conn (input_buffer_update (\<lambda>_. b')) (delivered n m b s) = delivered n m b' s"
  by (cases s; simp add: delivered_def upd_conn_def)+

text \<open>One read: the message callback runs on the longer input.\<close>

lemma receive_step:
  assumes aw: "awaits s a bs F" and d: "d \<noteq> []" "length (bs @ d) \<le> kPieceCapacity"
    and room: "bs \<noteq> [] \<longrightarrow> pool_room (cmem s)"
  shows "\<exists>b m. receive cbs (d # ds) s = rbind (rbind (message_cb cbs (delivered 1 m b s)) launchRead) (receive cbs ds)
     \<and> in_one m b (bs @ d) F \<and> frame (cmem s) m F
     \<and> (if bs = [] then pool m = pool (cmem s)
        else unat (qsize (pqueue (pool m))) = unat (qsize (pqueue (pool (cmem s)))) + 1
          \<and> using_count (pool m) = using_count (pool (cmem s)) - 1)"
proof -
  have pend: "filter is_read (pending s) = [AsyncRead a]" and aF: "a \<notin> F"
    and rep: "in_one (cmem s) (input_buffer (conn s)) bs (insert a F)" using aw by (auto simp: awaits_def)
  obtain c where c: "cells (cmem s) a = Some c" "off c = 0" using aw by (auto simp: awaits_def)
  have room': "bs \<noteq> [] \<longrightarrow> cache_has_room (cmem s)" using room pool_room_cache by blast
  obtain b m where r: "rbind (kernel_store a d (cmem s)) (\<lambda>m. handleRead cbs a Success (length d) (taken (AsyncRead a) (s\<lparr>cmem := m\<rparr>)))
      = rbind (call MessageCb (message_cb cbs) (upd_conn (input_buffer_update (\<lambda>_. b)) (taken (AsyncRead a) (s\<lparr>cmem := m\<rparr>)))) launchRead"
    "in_one m b (bs @ d) F" "frame (cmem s) m F"
    "if bs = [] then pool m = pool (cmem s)
     else unat (qsize (pqueue (pool m))) = unat (qsize (pqueue (pool (cmem s)))) + 1
       \<and> using_count (pool m) = using_count (pool (cmem s)) - 1"
    using receive_one [OF rep aF c d room', of cbs "AsyncRead a"] by blast
  have "receive cbs (d # ds) s = rbind (rbind (message_cb cbs (delivered 1 m b s)) launchRead) (receive cbs ds)"
    using r(1) pend call_delivered [OF pend, of b m] by (simp add: call_def)
  then show ?thesis using r(2-4) by blast
qed

lemma onMessage_cb_waits:
  assumes "message_cb cbs = ProtobufCodec_onMessage api mcb ecb" and "in_one m b bs F"
    and "bs @ rest = frame_bytes api msg" "rest \<noteq> []"
    and "10 \<le> length (payload api msg)" "length (payload api msg) \<le> 67108864"
  shows "message_cb cbs (delivered n m b s) = Inr (delivered n m b s)"
  unfolding assms(1) ProtobufCodec_onMessage_def by (simp add: onMessage_prefix [OF assms(2-6)])

lemma onMessage_cb_delivers:
  assumes "message_cb cbs = ProtobufCodec_onMessage api mcb ecb" and b: "in_one m b (frame_bytes api msg) F"
    and size: "10 \<le> length (payload api msg)" "length (payload api msg) \<le> 67108864"
    and p: "createMessage api (GetTypeName api msg @ [0]) = Some p"
      "reads_all (parser api p) (concat (raw_writes api msg)) (ok, msg)"
  shows "\<exists>m1. mem_inv m1 F \<and> frame m m1 F \<and> message_cb cbs (delivered n m b s)
    = rbind (mcb msg (delivered n m1 b s)) (\<lambda>s2. Inr (upd_conn (input_buffer_update (\<lambda>_. Buffer_new)) s2))"
proof -
  let ?mcb = "\<lambda>msg m s. rbind (mcb msg (s\<lparr>cmem := m\<rparr>)) (\<lambda>s1. Inr (cmem s1, s1))"
  let ?ecb = "\<lambda>code b m s. rbind (ecb code (upd_conn (input_buffer_update (\<lambda>_. b)) (s\<lparr>cmem := m\<rparr>)))
          (\<lambda>s1. Inr (input_buffer (conn s1), cmem s1, s1))"
  have ne: "frame_bytes api msg \<noteq> []" by (simp add: frame_bytes_def le_bytes_ne)
  have "front_has 4 m b" using in_one_front [OF b ne, of 4] by (simp add: length_frame_bytes)
  then obtain m1 where "mem_inv m1 F" "frame m m1 F"
    "onMessage api ?mcb ?ecb b m (delivered n m b s)
      = rbind (?mcb msg m1 (delivered n m b s)) (\<lambda>(m2, w2). Inr (Buffer_new, m2, w2))"
    using onMessage_frame [of m b api msg "[]" F p ok msg ?mcb ?ecb "delivered n m b s"] in_one_dense [OF b] size p by auto
  then show ?thesis
    unfolding assms(1) ProtobufCodec_onMessage_def by (intro exI [of _ m1]) (simp add: rbind_assoc)
qed

text \<open>A frame is still incomplete: the next read starts, and the connection waits for the rest.\<close>

lemma await_more:
  assumes one: "in_one m b bs F" and ne: "bs \<noteq> []" and sock: "socket (conn s) \<noteq> None"
  shows "\<exists>a' m'. launchRead (delivered 1 m b s) = Inr (request (AsyncRead a') (delivered 1 m' b s))
    \<and> awaits (request (AsyncRead a') (delivered 1 m' b s)) a' bs F \<and> frame m m' F
    \<and> using_count (pool m') = using_count (pool m) + 1 \<and> unat (qsize (pqueue (pool m'))) = unat (qsize (pqueue (pool m))) - 1"
proof -
  have sock': "socket (conn (delivered 1 m b s)) \<noteq> None" using sock by simp
  obtain as where as: "bchain m b as F" "chain_bytes (cells m) as = bs" "blength b = length bs" "length as = 1"
    using one ne by (auto simp: in_one_def)
  have inv: "mem_inv m (set as \<union> F)" using as(1) by (simp add: bchain_def)
  obtain a' m' c where l: "launchRead (delivered 1 m b s) = Inr (request (AsyncRead a') (delivered 1 m' b s))"
    "a' \<notin> set as \<union> F" "mem_inv m' (insert a' (set as \<union> F))" "cells m' a' = Some c" "off c = 0" "frame m m' (set as \<union> F)"
    "using_count (pool m') = using_count (pool m) + 1" "unat (qsize (pqueue (pool m'))) = unat (qsize (pqueue (pool m))) - 1"
    using launchRead_ok [OF _ sock', of "set as \<union> F"] inv by auto
  have frs: "frame m m' (set as)" "frame m m' F" using l(6) by (auto intro: frame_mono)
  have "bchain m' b as (insert a' F)" "chunks m' as = chunks m as"
    using bchain_frame [OF as(1) frs(1), of "insert a' F"] l(2,3) as(1) by (auto simp: bchain_def)
  then have "in_one m' b bs (insert a' F)" using as ne by (auto simp: in_one_def simp flip: concat_chunks)
  then have "awaits (request (AsyncRead a') (delivered 1 m' b s)) a' bs F"
    using l(2,4,5) sock' by (auto simp: awaits_def delivered_def request_def filter_empty_conv)
  then show ?thesis using l(1,7,8) frs(2) by blast
qed

lemma receive_frame:
  assumes cb: "message_cb cbs = ProtobufCodec_onMessage api mcb ecb"
    and size: "10 \<le> length (payload api msg)" and fits: "length (frame_bytes api msg) \<le> kPieceCapacity"
    and p: "createMessage api (GetTypeName api msg @ [0]) = Some p"
      "reads_all (parser api p) (concat (raw_writes api msg)) (ok, msg)"
  shows "awaits s a bs F \<Longrightarrow> bs @ concat ds = frame_bytes api msg \<Longrightarrow> ds \<noteq> [] \<Longrightarrow> \<forall>d \<in> set ds. d \<noteq> [] \<Longrightarrow>
     bs = [] \<and> length ds = 1 \<or> pool_room (cmem s) \<and> (bs = [] \<longrightarrow> unat (using_count (pool (cmem s))) + 8 < 2 ^ 32) \<Longrightarrow>
     \<exists>m b. mem_inv m F \<and> frame (cmem s) m F \<and> receive cbs ds s =
       rbind (rbind (mcb msg (delivered (length ds) m b s)) (\<lambda>s2. Inr (upd_conn (input_buffer_update (\<lambda>_. Buffer_new)) s2))) launchRead"
proof (induction ds arbitrary: s a bs)
  case Nil
  then show ?case by simp
next
  case (Cons d ds)
  have max: "length (payload api msg) \<le> 67108864" using fits by (simp add: length_frame_bytes kPieceCapacity_def)
  have d: "d \<noteq> []" "length (bs @ d) \<le> kPieceCapacity"
    using Cons.prems(2,4) fits by (auto dest!: arg_cong [where f = length])
  have room: "bs \<noteq> [] \<longrightarrow> pool_room (cmem s)" using Cons.prems(5) by auto
  obtain b m where r: "receive cbs (d # ds) s = rbind (rbind (message_cb cbs (delivered 1 m b s)) launchRead) (receive cbs ds)"
    "in_one m b (bs @ d) F" "frame (cmem s) m F"
    "if bs = [] then pool m = pool (cmem s)
     else unat (qsize (pqueue (pool m))) = unat (qsize (pqueue (pool (cmem s)))) + 1
       \<and> using_count (pool m) = using_count (pool (cmem s)) - 1"
    using receive_step [OF Cons.prems(1) d room] by blast
  show ?case
  proof (cases "ds = []")
    case True
    then have "in_one m b (frame_bytes api msg) F" using r(2) Cons.prems(2) by simp
    then obtain m1 where "mem_inv m1 F" "frame m m1 F" "message_cb cbs (delivered 1 m b s)
        = rbind (mcb msg (delivered 1 m1 b s)) (\<lambda>s2. Inr (upd_conn (input_buffer_update (\<lambda>_. Buffer_new)) s2))"
      using onMessage_cb_delivers [OF cb _ size max p] by blast
    then show ?thesis using r(1,3) True
      by (intro exI [of _ m1] exI [of _ b]) (auto intro: frame_trans simp: rbind_def split: sum.splits)
  next
    case False
    then have wait: "message_cb cbs (delivered 1 m b s) = Inr (delivered 1 m b s)"
      using Cons.prems(2,4) by (intro onMessage_cb_waits [OF cb r(2) _ _ size max, of "concat ds"]) auto
    have sock: "socket (conn s) \<noteq> None" using Cons.prems(1) by (simp add: awaits_def)
    obtain a' m' where l: "launchRead (delivered 1 m b s) = Inr (request (AsyncRead a') (delivered 1 m' b s))"
      "awaits (request (AsyncRead a') (delivered 1 m' b s)) a' (bs @ d) F" "frame m m' F"
      "using_count (pool m') = using_count (pool m) + 1" "unat (qsize (pqueue (pool m'))) = unat (qsize (pqueue (pool m))) - 1"
      using await_more [OF r(2) _ sock] d(1) by blast
    let ?s = "request (AsyncRead a') (delivered 1 m' b s)"
    have "pool_room (cmem s) \<and> (bs = [] \<longrightarrow> unat (using_count (pool (cmem s))) + 8 < 2 ^ 32)"
      using Cons.prems(5) False by auto
    then have "pool_room m'" using pool_room_next [OF _ _ r(4) l(4,5)] by blast
    then obtain m2 b2 where ih: "mem_inv m2 F" "frame m' m2 F" "receive cbs ds ?s =
        rbind (rbind (mcb msg (delivered (length ds) m2 b2 ?s)) (\<lambda>s2. Inr (upd_conn (input_buffer_update (\<lambda>_. Buffer_new)) s2))) launchRead"
      using Cons.IH [OF l(2) _ False] Cons.prems(2,4) d(1) by auto
    then show ?thesis
      using r(1,3) wait l(1,3) delivered_again [of "length ds" m2 b2 a' 1 m' b s]
      by (intro exI [of _ m2] exI [of _ b2]) (simp, blast intro: frame_trans)
  qed
qed

section \<open>Properties\<close>

text \<open>
  C9. A frame is delivered once, however the network cuts it. The frame has at most 4096 bytes and a
  payload of at least ten (shorter ones are never delivered), it arrives alone, in non-empty reads, on
  a connection that waits with an empty input buffer and has the codec as its message callback,
  protobuf finds the type and parses these bytes back, and, when the frame comes in more than one
  read, the pool's cache has room for the pieces that are merged (with a full cache a merge is a use
  after free). Then the reads before the last one leave everything to the next one, and the
  last one calls the codec's callback with the message, once, on a world in which nothing but the
  input side has changed, and starts the next read.
\<close>

theorem codec_receives_fragments:
  assumes "message_cb cbs = ProtobufCodec_onMessage api mcb ecb"
    and "10 \<le> length (payload api msg)" and "length (frame_bytes api msg) \<le> kPieceCapacity"
    and "createMessage api (GetTypeName api msg @ [0]) = Some p"
    and "reads_all (parser api p) (concat (raw_writes api msg)) (ok, msg)"
    and "awaits s a [] F" and "concat ds = frame_bytes api msg" and "\<forall>d \<in> set ds. d \<noteq> []"
    and "length ds = 1 \<or> pool_room (cmem s) \<and> unat (using_count (pool (cmem s))) + 8 < 2 ^ 32"
  shows "\<exists>m b. mem_inv m F \<and> frame (cmem s) m F \<and> receive cbs ds s =
     rbind (rbind (mcb msg (delivered (length ds) m b s)) (\<lambda>s2. Inr (upd_conn (input_buffer_update (\<lambda>_. Buffer_new)) s2))) launchRead"
proof -
  have "ds \<noteq> []" using assms(7) by (auto simp: frame_bytes_def le_bytes_ne)
  then show ?thesis using receive_frame [OF assms(1-6), of ds] assms(7-9) by simp
qed

definition inbox_cbs :: "byte list list conn_callbacks" where
  "inbox_cbs = \<lparr>connection_cb = Inr, message_cb = ProtobufCodec_onMessage echo_api
      (\<lambda>msg s. Inr (s\<lparr>user := user s @ [msg]\<rparr>)) (\<lambda>_. Inr), close_cb = Inr\<rparr>"

definition inbox_world :: "byte list list world" where
  "inbox_world = \<lparr>conn = conn open_world, cmem = cmem open_world, pending = [AsyncRead 0], calls = [], user = []\<rparr>"

lemma inbox_world_awaits: "awaits inbox_world 0 [] {}"
  using open_world_piece(1) open_world_run(2,4)
  by (simp add: awaits_def inbox_world_def in_one_def TCPConn_new_def Buffer_new_def bchain_def queue_rep_def)

lemma inbox_world_room: "pool_room (cmem inbox_world)" "unat (using_count (pool (cmem inbox_world))) = 1"
  by (simp_all add: pool_room_def inbox_world_def open_world_def connectEstablished_def idle_world_def idle_cbs_def TCPConn_new_def
      launchRead_def world_defs newPiece_def mem_start_def PiecePool_new_def Queue_new_def Queue_pop_def
      mderef_def deref_def Let_def raw_piece_def)

theorem codec_receives_fragments_witness:
  "\<exists>s. receive inbox_cbs [take 3 (frame_bytes echo_api [5, 6]), drop 3 (frame_bytes echo_api [5, 6])] inbox_world = Inr s
     \<and> user s = [[5, 6]] \<and> calls s = [MessageCb, MessageCb] \<and> reads s = 1"
proof -
  let ?f = "frame_bytes echo_api [5, 6]" and ?mcb = "\<lambda>msg s. Inr (s\<lparr>user := user s @ [msg]\<rparr>)"
  let ?ds = "[take 3 ?f, drop 3 ?f]"
  have l: "length ?f = 17" by (simp add: echo_fields)
  then have ds: "concat ?ds = ?f" "\<forall>d \<in> set ?ds. d \<noteq> []" by auto
  have p: "createMessage echo_api (GetTypeName echo_api [5, 6] @ [0]) = Some []"
    "reads_all (parser echo_api []) (concat (raw_writes echo_api [5, 6])) (True, [5, 6])"
    using collect_reads_all [of "[5, 6]" 100] by (simp_all add: echo_fields del: collect_all.simps)
  have cb: "message_cb inbox_cbs = ProtobufCodec_onMessage echo_api ?mcb (\<lambda>_. Inr)" by (simp add: inbox_cbs_def)
  have size: "10 \<le> length (payload echo_api [5, 6])" "length ?f \<le> kPieceCapacity"
    using l by (simp_all add: payload_def echo_fields kPieceCapacity_def)
  have room: "length ?ds = 1 \<or> pool_room (cmem inbox_world) \<and> unat (using_count (pool (cmem inbox_world))) + 8 < 2 ^ 32"
    using inbox_world_room by simp
  obtain m b where r: "mem_inv m {}" "receive inbox_cbs ?ds inbox_world =
      rbind (rbind (?mcb [5, 6] (delivered (length ?ds) m b inbox_world))
        (\<lambda>s2. Inr (upd_conn (input_buffer_update (\<lambda>_. Buffer_new)) s2))) launchRead"
    using codec_receives_fragments [OF cb size p inbox_world_awaits ds room] by blast
  let ?t = "upd_conn (input_buffer_update (\<lambda>_. Buffer_new)) ((delivered 2 m b inbox_world)\<lparr>user := [[5, 6]]\<rparr>)"
  have "receive inbox_cbs ?ds inbox_world = launchRead ?t"
    unfolding r(2) by (simp add: inbox_world_def numeral_2_eq_2)
  moreover have "socket (conn ?t) \<noteq> None" using open_world_run(2) by (simp add: inbox_world_def TCPConn_new_def)
  then obtain a m' where "launchRead ?t = Inr (request (AsyncRead a) (?t\<lparr>cmem := m'\<rparr>))"
    using launchRead_ok [of ?t "{}"] r(1) by auto
  ultimately show ?thesis by (auto simp: delivered_def inbox_world_def reads_def numeral_2_eq_2)
qed

end
