(* ===== verification/Tcp_Server.thy ===== *)
theory Tcp_Server
  imports Loop_Pool Conn_Control "HOL-Library.Multiset"
begin

text \<open>
  The acceptor side, \<^verbatim>\<open>src/netpp/net/tcp_server.h\<close> and \<^verbatim>\<open>src/netpp/net/tcp_server.cpp\<close>, and the
  default callbacks of \<^verbatim>\<open>src/netpp/net/tcp_callbacks.h\<close>.

  The server runs in its base loop. Its state has the acceptor (null or not), the thread pool (null,
  or a pool of theory \<open>Loop_Pool\<close>), the next connection id and the map of connections, each with the
  status of its \<open>TCPConn\<close>. What is queued in loops or waits for the network is the list \<open>tasks\<close>; the
  environment runs tasks in any order. A connection goes through its states as in theory
  \<open>Conn_Control\<close>: established, closing, and then the close callback, which is
  \<open>TCPServer::removeConnection\<close>.
\<close>

section \<open>Callbacks\<close>

definition defaultConnectionCallback :: "'u callback" where
  "defaultConnectionCallback s = Inr s"

definition defaultMessageCallback :: "'u callback" where
  "defaultMessageCallback s = Inr s"

definition defaultVerifyAddressCallback :: "'addr \<Rightarrow> bool" where
  "defaultVerifyAddressCallback remote = True"

record ('u, 'addr) server_callbacks =
  server_connection_cb :: "'u callback"
  server_message_cb :: "'u callback"
  verify_address_cb :: "'addr \<Rightarrow> bool"

definition server_callbacks_new :: "('u, 'addr) server_callbacks" where
  "server_callbacks_new = \<lparr>server_connection_cb = defaultConnectionCallback, server_message_cb = defaultMessageCallback,
     verify_address_cb = defaultVerifyAddressCallback\<rparr>"

definition TCPServer_setConnectionCallback :: "'u callback \<Rightarrow> ('u, 'addr) server_callbacks \<Rightarrow> ('u, 'addr) server_callbacks" where
  "TCPServer_setConnectionCallback cb c = c\<lparr>server_connection_cb := cb\<rparr>"

definition TCPServer_setMessageCallback :: "'u callback \<Rightarrow> ('u, 'addr) server_callbacks \<Rightarrow> ('u, 'addr) server_callbacks" where
  "TCPServer_setMessageCallback cb c = c\<lparr>server_message_cb := cb\<rparr>"

definition TCPServer_setVerifyAddressCallback :: "('addr \<Rightarrow> bool) \<Rightarrow> ('u, 'addr) server_callbacks \<Rightarrow> ('u, 'addr) server_callbacks" where
  "TCPServer_setVerifyAddressCallback cb c = c\<lparr>verify_address_cb := cb\<rparr>"

text \<open>The callbacks a new connection of the server gets; \<open>remove\<close> is \<open>removeConnection\<close> for it.\<close>

definition TCPServer_conn_callbacks :: "('u, 'addr) server_callbacks \<Rightarrow> 'u callback \<Rightarrow> 'u conn_callbacks" where
  "TCPServer_conn_callbacks c remove =
     \<lparr>connection_cb = server_connection_cb c, message_cb = server_message_cb c, close_cb = remove\<rparr>"

section \<open>Data\<close>

text \<open>The flag of the stopping tasks says whether they carry a callback or an empty function.\<close>

datatype task =
    Listen                       \<comment> \<open>the lambda of \<open>start\<close> is queued in the base loop\<close>
  | Accept                       \<comment> \<open>\<open>async_accept\<close> is pending\<close>
  | Establish uint64             \<comment> \<open>\<open>connectEstablished\<close> is queued in the loop of the connection\<close>
  | CloseConn uint64             \<comment> \<open>the task queued by \<open>TCPConn::close\<close>\<close>
  | Remove uint64                \<comment> \<open>the lambda of \<open>removeConnection\<close> is queued in the base loop\<close>
  | StopInLoop bool              \<comment> \<open>\<open>stopInLoop\<close> is queued\<close>
  | StopSafe bool                \<comment> \<open>\<open>stopInloopSafe\<close> is queued\<close>

record 'io tcp_server = server_status +
  server_name :: string
  acceptor :: bool
  spool :: "'io loop_pool option"
  next_conn_id :: uint64
  connections :: "uint64 \<Rightarrow> StateE option"
  stopped_cb :: bool
  tasks :: "task list"
  stopped_calls :: nat

definition TCPServer_new :: "'io event_loop \<Rightarrow> string \<Rightarrow> uint32 \<Rightarrow> 'io tcp_server" where
  "TCPServer_new loop name num = \<lparr>st = kNull, substatus = kSubStatusNull, server_name = name, acceptor = False,
     spool = Some (EventLoopThreadPool_new loop num), next_conn_id = 0,
     connections = (\<lambda>_. None), stopped_cb = False, tasks = [], stopped_calls = 0\<rparr>"

definition TCPServer_getName :: "'io tcp_server \<Rightarrow> string" where
  "TCPServer_getName s = server_name s"

definition add_task :: "task \<Rightarrow> 'io tcp_server \<Rightarrow> 'io tcp_server" where
  "add_task t s = s\<lparr>tasks := tasks s @ [t]\<rparr>"

definition run_task :: "task \<Rightarrow> 'io tcp_server \<Rightarrow> 'io tcp_server" where
  "run_task t s = s\<lparr>tasks := remove1 t (tasks s)\<rparr>"

section \<open>Operations\<close>

definition doAccept :: "'io tcp_server \<Rightarrow> error + 'io tcp_server" where
  "doAccept s = (case spool s of
     None \<Rightarrow> Inl NullDeref
   | Some p \<Rightarrow> rbind (getNextLoop p) (\<lambda>(io_loop, p1).
       if \<not> acceptor s then Inl NullDeref else Inr (add_task Accept (s\<lparr>spool := Some p1\<rparr>))))"

text \<open>\<open>start\<close>: the pool is started and waited for; the lambda that listens is given to the base loop.\<close>

definition TCPServer_start :: "('f, 'io, 't) pool_env \<Rightarrow> 'io tcp_server \<Rightarrow> error + 'io tcp_server" where
  "TCPServer_start e s =
     rbind (cassert (st s = kNull)) (\<lambda>_.
     let s1 = s\<lparr>st := kStarting\<rparr> in
     case spool s1 of
       None \<Rightarrow> Inl NullDeref
     | Some p \<Rightarrow> rbind (EventLoopThreadPool_start True e p) (\<lambda>p1. Inr (add_task Listen (s1\<lparr>spool := Some p1\<rparr>))))"

text \<open>
  The lambda: \<open>opened\<close> is what \<open>open\<close>, \<open>set_option\<close>, \<open>bind\<close> and \<open>listen\<close> of the acceptor come to, since
  each of them may throw.
\<close>

definition TCPServer_listen :: "error + unit \<Rightarrow> 'io tcp_server \<Rightarrow> error + 'io tcp_server" where
  "TCPServer_listen opened s = (let s1 = s\<lparr>acceptor := True\<rparr> in rbind opened (\<lambda>_. doAccept (s1\<lparr>st := kRunning\<rparr>)))"

definition TCPServer_stop :: "bool \<Rightarrow> 'io tcp_server \<Rightarrow> error + 'io tcp_server" where
  "TCPServer_stop cb s = rbind (cassert (st s = kRunning)) (\<lambda>_. Inr (add_task (StopInLoop cb) s))"

text \<open>Closing every connected connection of the map, in the order of the ids given.\<close>

definition close_conn :: "uint64 \<Rightarrow> 'io tcp_server \<Rightarrow> 'io tcp_server" where
  "close_conn i s = (if connections s i = Some kConnected
     then add_task (CloseConn i) (s\<lparr>connections := (connections s)(i \<mapsto> kDisconnecting)\<rparr>) else s)"

definition stopInLoop :: "bool \<Rightarrow> uint64 list \<Rightarrow> 'io tcp_server \<Rightarrow> error + 'io tcp_server" where
  "stopInLoop cb ids s =
     (let s1 = s\<lparr>st := kStopping, substatus := kStoppingListener\<rparr> in
      if \<not> acceptor s1 then Inl NullDeref
      else let s2 = s1\<lparr>acceptor := False\<rparr> in
           if connections s2 = (\<lambda>_. None) then Inr (add_task (StopSafe cb) s2)
           else Inr ((fold close_conn ids s2)\<lparr>stopped_cb := cb\<rparr>))"

definition stopThreadPool :: "('f, 'io, 't) pool_env \<Rightarrow> 'io tcp_server \<Rightarrow> error + 'io tcp_server" where
  "stopThreadPool e s =
     rbind (cassert (isStopping s)) (\<lambda>_.
     let s1 = s\<lparr>substatus := kStoppingThreadPool\<rparr> in
     case spool s1 of
       None \<Rightarrow> Inl NullDeref
     | Some p \<Rightarrow>
         rbind (EventLoopThreadPool_stop_wait (env_api e) True p) (\<lambda>p1.
         rbind (cassert (isStopped p1)) (\<lambda>_.
         rbind (EventLoopThreadPool_join (env_self e) p1) (\<lambda>p2.
         rbind (EventLoopThreadPool_delete (env_self e) p2) (\<lambda>_.
         Inr (s1\<lparr>spool := None, substatus := kSubStatusNull\<rparr>))))))"

definition stopInloopSafe :: "('f, 'io, 't) pool_env \<Rightarrow> bool \<Rightarrow> 'io tcp_server \<Rightarrow> error + 'io tcp_server" where
  "stopInloopSafe e cb s =
     rbind (cassert (substatus s = kStoppingListener)) (\<lambda>_.
     rbind (stopThreadPool e s) (\<lambda>s1.
     let s2 = (if cb then s1\<lparr>stopped_calls := stopped_calls s1 + 1\<rparr> else s1) in
     Inr (s2\<lparr>st := kStopped\<rparr>)))"

text \<open>
  \<open>newConnection\<close>: \<open>remote\<close> is the result of \<open>sock->remote_endpoint()\<close>, which throws when the peer has
  already gone. \<open>runInLoop\<close> on the loop of the connection queues \<open>connectEstablished\<close>; on the base loop,
  which serves the connections of a pool without threads, it runs it at once, before \<open>doAccept\<close>. The
  task list allows for both, as the two do not depend on each other and the environment may run the
  task next, except for a connection callback that stops the server from inside: \<open>doAccept\<close> then finds
  the acceptor released.
\<close>

definition TCPServer_newConnection :: "('addr \<Rightarrow> bool) \<Rightarrow> error + 'addr \<Rightarrow> error_code \<Rightarrow> 'io tcp_server \<Rightarrow> error + 'io tcp_server" where
  "TCPServer_newConnection verify remote ec s =
     rbind (if ec = Success
       then rbind remote (\<lambda>endpoint.
            let verify_success = verify endpoint in
            Inr (if verify_success
             then let i = next_conn_id s + 1 in
                  add_task (Establish i) (s\<lparr>next_conn_id := i, connections := (connections s)(i \<mapsto> kDisconnected)\<rparr>)
             else s))
       else Inr s) (\<lambda>s1.
     if ec \<noteq> operation_aborted then doAccept s1 else Inr s1)"

definition TCPServer_removeConnection :: "uint64 \<Rightarrow> 'io tcp_server \<Rightarrow> 'io tcp_server" where
  "TCPServer_removeConnection i s = add_task (Remove i) s"

definition removeConnection_f :: "uint64 \<Rightarrow> 'io tcp_server \<Rightarrow> 'io tcp_server" where
  "removeConnection_f i s =
     (let s1 = s\<lparr>connections := (connections s)(i := None)\<rparr> in
      if isStopping s1 \<and> connections s1 = (\<lambda>_. None) then add_task (StopSafe (stopped_cb s1)) s1 else s1)"

definition TCPServer_delete :: "nat \<Rightarrow> 'io tcp_server \<Rightarrow> error + unit" where
  "TCPServer_delete self s =
     rbind (cassert (connections s = (\<lambda>_. None))) (\<lambda>_.
     rbind (cassert (\<not> acceptor s)) (\<lambda>_.
     case spool s of
       None \<Rightarrow> Inr ()
     | Some p \<Rightarrow> rbind (cassert (isStopped p)) (\<lambda>_. rbind (EventLoopThreadPool_delete self p) (\<lambda>_. Inr ()))))"

text \<open>
  The environment: the connection's own life is \<open>connectEstablished\<close> (to \<open>kConnected\<close>), a \<open>close\<close> by its
  user, and the end of the connection, by its close task or by an error, in \<open>handleClose\<close>, which calls
  the close callback and leaves the status \<open>kDisconnected\<close>. The 64-bit id of connections does not wrap.
\<close>

definition conn_closed :: "uint64 \<Rightarrow> 'io tcp_server \<Rightarrow> 'io tcp_server" where
  "conn_closed i s = TCPServer_removeConnection i (s\<lparr>connections := (connections s)(i \<mapsto> kDisconnected)\<rparr>)"

definition conn_established :: "uint64 \<Rightarrow> 'io tcp_server \<Rightarrow> 'io tcp_server" where
  "conn_established i s = s\<lparr>connections := (connections s)(i := map_option (\<lambda>_. kConnected) (connections s i))\<rparr>"

inductive server_step :: "('f, 'io, 't) pool_env \<Rightarrow> ('addr \<Rightarrow> bool) \<Rightarrow> 'io tcp_server \<Rightarrow> error + 'io tcp_server \<Rightarrow> bool" for e verify where
  listened: "Listen \<in> set (tasks s) \<Longrightarrow> server_step e verify s (TCPServer_listen opened (run_task Listen s))"
| accepted: "Accept \<in> set (tasks s) \<Longrightarrow> next_conn_id s + 1 \<noteq> 0 \<Longrightarrow>
    server_step e verify s (TCPServer_newConnection verify remote ec (run_task Accept s))"
| established: "Establish i \<in> set (tasks s) \<Longrightarrow> server_step e verify s (Inr (conn_established i (run_task (Establish i) s)))"
| user_close: "server_step e verify s (Inr (close_conn i s))"
| closed: "CloseConn i \<in> set (tasks s) \<Longrightarrow>
    server_step e verify s (if connections s i = Some kDisconnecting then Inr (conn_closed i (run_task (CloseConn i) s)) else Inl AssertFailed)"
| failed: "connections s i = Some c \<Longrightarrow> c \<noteq> kDisconnected \<Longrightarrow> server_step e verify s (Inr (conn_closed i s))"
| removed: "Remove i \<in> set (tasks s) \<Longrightarrow> server_step e verify s (Inr (removeConnection_f i (run_task (Remove i) s)))"
| stop: "server_step e verify s (TCPServer_stop cb s)"
| stopping: "StopInLoop cb \<in> set (tasks s) \<Longrightarrow> set ids = dom (connections s) \<Longrightarrow> sorted ids \<Longrightarrow> distinct ids \<Longrightarrow>
    server_step e verify s (stopInLoop cb ids (run_task (StopInLoop cb) s))"
| stopped: "StopSafe cb \<in> set (tasks s) \<Longrightarrow> server_step e verify s (stopInloopSafe e cb (run_task (StopSafe cb) s))"

text \<open>The system gives the pool enough thread ids, none of them the caller's.\<close>

definition env_ok :: "('f, 'io, 't) pool_env \<Rightarrow> uint32 \<Rightarrow> bool" where
  "env_ok e num \<longleftrightarrow> unat num \<le> length (env_ids e) \<and> env_self e \<notin> set (env_ids e)"

definition server_start :: "('f, 'io, 't) pool_env \<Rightarrow> 'io tcp_server \<Rightarrow> bool" where
  "server_start e s \<longleftrightarrow> (\<exists>num loop name. env_ok e num \<and> TCPServer_start e (TCPServer_new loop name num) = Inr s)"

abbreviation server_run :: "('f, 'io, 't) pool_env \<Rightarrow> ('addr \<Rightarrow> bool) \<Rightarrow> 'io tcp_server \<Rightarrow> bool" where
  "server_run e verify \<equiv> reach (server_start e) (server_step e verify)"

section \<open>The invariant\<close>

definition pend :: "'io tcp_server \<Rightarrow> task \<Rightarrow> nat" where
  "pend s t = count (mset (tasks s)) t"

definition stop_safes :: "'io tcp_server \<Rightarrow> nat" where
  "stop_safes s = pend s (StopSafe True) + pend s (StopSafe False)"

text \<open>
  The phases of the server: it waits for its loop, it listens and runs, it stops, it has stopped. Until
  it has stopped its pool runs; the stopping ends with one \<open>stopInloopSafe\<close>, when no connection is left.
\<close>

fun phase_inv :: "nat \<Rightarrow> Status \<Rightarrow> 'io tcp_server \<Rightarrow> bool" where
  "phase_inv self kStarting s \<longleftrightarrow> tasks s = [Listen] \<and> connections s = (\<lambda>_. None) \<and> \<not> acceptor s \<and> stopped_calls s = 0
     \<and> (\<exists>p. spool s = Some p \<and> pool_up self p)"
| "phase_inv self kRunning s \<longleftrightarrow> pend s Listen = 0 \<and> acceptor s \<and> stop_safes s = 0 \<and> stopped_calls s = 0
     \<and> (\<exists>p. spool s = Some p \<and> pool_up self p)"
| "phase_inv self kStopping s \<longleftrightarrow> pend s Listen = 0 \<and> \<not> acceptor s \<and> stopped_calls s = 0 \<and> substatus s = kStoppingListener
     \<and> (\<exists>p. spool s = Some p \<and> pool_up self p)
     \<and> stop_safes s = (if connections s = (\<lambda>_. None) then 1 else 0)"
| "phase_inv self kStopped s \<longleftrightarrow> pend s Listen = 0 \<and> \<not> acceptor s \<and> stopped_calls s \<le> 1 \<and> spool s = None
     \<and> connections s = (\<lambda>_. None) \<and> stop_safes s = 0"
| "phase_inv self _ s \<longleftrightarrow> False"

text \<open>
  A connection with the status \<open>kDisconnected\<close> is either new and waits for \<open>connectEstablished\<close> or over and
  waits for its removal, in exactly one task.
\<close>

definition conns_inv :: "'io tcp_server \<Rightarrow> bool" where
  "conns_inv s \<longleftrightarrow> (\<forall>i. connections s i = Some kDisconnected \<longrightarrow> pend s (Establish i) + pend s (Remove i) = 1)
     \<and> (\<forall>i. connections s i \<noteq> Some kDisconnected \<longrightarrow> pend s (Establish i) = 0 \<and> pend s (Remove i) = 0)
     \<and> (\<forall>i. connections s i \<noteq> None \<longrightarrow> i \<le> next_conn_id s) \<and> pend s Accept \<le> 1"

definition server_inv :: "nat \<Rightarrow> 'io tcp_server \<Rightarrow> bool" where
  "server_inv self s \<longleftrightarrow> phase_inv self (st s) s \<and> conns_inv s"

lemma tasks_upd [simp]:
  "tasks (add_task t s) = tasks s @ [t]" "tasks (run_task t s) = remove1 t (tasks s)"
  "st (add_task t s) = st s" "st (run_task t s) = st s"
  "substatus (add_task t s) = substatus s" "substatus (run_task t s) = substatus s"
  "acceptor (add_task t s) = acceptor s" "acceptor (run_task t s) = acceptor s"
  "spool (add_task t s) = spool s" "spool (run_task t s) = spool s"
  "connections (add_task t s) = connections s" "connections (run_task t s) = connections s"
  "stopped_calls (add_task t s) = stopped_calls s" "stopped_calls (run_task t s) = stopped_calls s"
  "stopped_cb (add_task t s) = stopped_cb s" "stopped_cb (run_task t s) = stopped_cb s"
  "next_conn_id (add_task t s) = next_conn_id s" "next_conn_id (run_task t s) = next_conn_id s"
  by (simp_all add: add_task_def run_task_def)

lemma pend_upd [simp]:
  "pend (add_task t s) u = pend s u + (if t = u then 1 else 0)"
  "pend (run_task t s) u = pend s u - (if t = u then 1 else 0)"
  by (simp_all add: pend_def)

lemma pend_fields [simp]:
  "pend (s\<lparr>connections := c\<rparr>) t = pend s t" "pend (s\<lparr>st := x\<rparr>) t = pend s t" "pend (s\<lparr>acceptor := a\<rparr>) t = pend s t"
  "pend (s\<lparr>substatus := y\<rparr>) t = pend s t" "pend (s\<lparr>stopped_cb := b\<rparr>) t = pend s t"
  "pend (s\<lparr>next_conn_id := n\<rparr>) t = pend s t" "pend (s\<lparr>spool := q\<rparr>) t = pend s t"
  "pend (s\<lparr>stopped_calls := k\<rparr>) t = pend s t"
  by (simp_all add: pend_def)

lemma pend_pos: "t \<in> set (tasks s) \<longleftrightarrow> 0 < pend s t"
  by (simp add: pend_def count_greater_zero_iff)

lemma stop_safes_upd [simp]:
  "stop_safes (add_task t s) = stop_safes s + (if \<exists>cb. t = StopSafe cb then 1 else 0)"
  "t \<in> set (tasks s) \<Longrightarrow> stop_safes (run_task t s) = stop_safes s - (if \<exists>cb. t = StopSafe cb then 1 else 0)"
  by (cases t; auto simp: stop_safes_def pend_pos)+

lemma stop_safes_fields [simp]:
  "stop_safes (s\<lparr>connections := c\<rparr>) = stop_safes s" "stop_safes (s\<lparr>st := x\<rparr>) = stop_safes s" "stop_safes (s\<lparr>acceptor := a\<rparr>) = stop_safes s"
  "stop_safes (s\<lparr>substatus := y\<rparr>) = stop_safes s" "stop_safes (s\<lparr>stopped_cb := b\<rparr>) = stop_safes s"
  "stop_safes (s\<lparr>next_conn_id := n\<rparr>) = stop_safes s" "stop_safes (s\<lparr>spool := q\<rparr>) = stop_safes s"
  "stop_safes (s\<lparr>stopped_calls := k\<rparr>) = stop_safes s"
  by (simp_all add: stop_safes_def)

lemma stop_safes_pos: "StopSafe cb \<in> set (tasks s) \<Longrightarrow> 0 < stop_safes s"
  by (cases cb) (simp_all add: stop_safes_def pend_pos)

lemma stop_safes_task: "0 < stop_safes s \<Longrightarrow> \<exists>cb. StopSafe cb \<in> set (tasks s)"
  unfolding stop_safes_def pend_pos by (metis add_cancel_right_right add_is_0 gr0I)

text \<open>Closing connections touches nothing but their statuses and close tasks.\<close>

lemma close_conn_keeps [simp]:
  "st (close_conn i s) = st s" "acceptor (close_conn i s) = acceptor s" "substatus (close_conn i s) = substatus s"
  "spool (close_conn i s) = spool s" "stopped_calls (close_conn i s) = stopped_calls s" "next_conn_id (close_conn i s) = next_conn_id s"
  "stop_safes (close_conn i s) = stop_safes s" "\<forall>j. t \<noteq> CloseConn j \<Longrightarrow> pend (close_conn i s) t = pend s t"
  "(connections (close_conn i s) j = Some kDisconnected) = (connections s j = Some kDisconnected)"
  "(connections (close_conn i s) j = None) = (connections s j = None)"
  by (auto simp: close_conn_def)

lemma fold_close_keeps [simp]:
  "st (fold close_conn ids s) = st s" "acceptor (fold close_conn ids s) = acceptor s" "substatus (fold close_conn ids s) = substatus s"
  "spool (fold close_conn ids s) = spool s" "stopped_calls (fold close_conn ids s) = stopped_calls s"
  "next_conn_id (fold close_conn ids s) = next_conn_id s"
  "stop_safes (fold close_conn ids s) = stop_safes s" "\<forall>j. t \<noteq> CloseConn j \<Longrightarrow> pend (fold close_conn ids s) t = pend s t"
  "(connections (fold close_conn ids s) j = Some kDisconnected) = (connections s j = Some kDisconnected)"
  "(connections (fold close_conn ids s) j = None) = (connections s j = None)"
  by (induction ids arbitrary: s) simp_all

lemma no_conns: "(c = (\<lambda>_. None)) = (\<forall>i. c i = None)"
  by (rule fun_eq_iff)

section \<open>The connections\<close>

lemma conns_inv_fields [simp]:
  "conns_inv (s\<lparr>st := x\<rparr>) = conns_inv s" "conns_inv (s\<lparr>acceptor := a\<rparr>) = conns_inv s" "conns_inv (s\<lparr>substatus := y\<rparr>) = conns_inv s"
  "conns_inv (s\<lparr>stopped_cb := b\<rparr>) = conns_inv s" "conns_inv (s\<lparr>spool := q\<rparr>) = conns_inv s" "conns_inv (s\<lparr>stopped_calls := k\<rparr>) = conns_inv s"
  by (simp_all add: conns_inv_def)

lemma conns_inv_tasks:
  assumes "\<forall>i. t \<noteq> Establish i \<and> t \<noteq> Remove i" and "t \<noteq> Accept"
  shows "conns_inv (add_task t s) = conns_inv s" and "conns_inv (run_task t s) = conns_inv s"
  using assms by (simp_all add: conns_inv_def)

lemma conns_inv_doAccept:
  "conns_inv s \<Longrightarrow> pend s Accept = 0 \<Longrightarrow> doAccept s = Inr s' \<Longrightarrow> conns_inv s'"
  by (auto simp: doAccept_def rbind_eq_Inr_iff conns_inv_def split: option.splits if_splits prod.splits)

lemma next_id_less: "i + 1 \<noteq> 0 \<Longrightarrow> i < i + 1" for i :: uint64
  using unatSuc [of i] by (simp add: word_less_nat_alt add.commute)

lemma conns_inv_accepted:
  assumes inv: "conns_inv s" and i: "next_conn_id s + 1 \<noteq> 0"
  shows "conns_inv (add_task (Establish (next_conn_id s + 1))
    (s\<lparr>next_conn_id := next_conn_id s + 1, connections := (connections s)(next_conn_id s + 1 \<mapsto> kDisconnected)\<rparr>))"
proof -
  have lt: "next_conn_id s < next_conn_id s + 1" using i by (rule next_id_less)
  then have "connections s (next_conn_id s + 1) = None" using inv by (auto simp: conns_inv_def)
  moreover have "j \<le> next_conn_id s + 1" if "j \<le> next_conn_id s" for j using that lt by simp
  ultimately show ?thesis using inv by (auto simp: conns_inv_def)
qed

lemma conns_inv_established:
  assumes inv: "conns_inv s" and i: "Establish i \<in> set (tasks s)"
  shows "connections s i = Some kDisconnected" and "conns_inv (conn_established i (run_task (Establish i) s))"
proof -
  show c: "connections s i = Some kDisconnected" using inv i by (auto simp: pend_pos conns_inv_def)
  then have "pend s (Establish i) + pend s (Remove i) = 1" using inv by (simp add: conns_inv_def)
  then have "pend s (Remove i) = 0" "pend s (Establish i) = 1" using i by (auto simp: pend_pos)
  then show "conns_inv (conn_established i (run_task (Establish i) s))"
    using inv c by (auto simp: conns_inv_def conn_established_def)
qed

lemma conns_inv_close_conn: "conns_inv s \<Longrightarrow> conns_inv (close_conn i s)"
  by (simp add: conns_inv_def)

lemma conns_inv_closed:
  assumes "conns_inv s" and "connections s i = Some c" and "c \<noteq> kDisconnected"
  shows "conns_inv (conn_closed i s)"
proof -
  have "pend s (Establish i) + pend s (Remove i) = 0" using assms by (simp add: conns_inv_def)
  then show ?thesis using assms by (auto simp: conns_inv_def conn_closed_def TCPServer_removeConnection_def)
qed

lemma conns_inv_removed:
  assumes inv: "conns_inv s" and i: "Remove i \<in> set (tasks s)"
  shows "connections s i = Some kDisconnected" and "conns_inv (removeConnection_f i (run_task (Remove i) s))"
proof -
  show c: "connections s i = Some kDisconnected" using inv i by (auto simp: pend_pos conns_inv_def)
  then have "pend s (Establish i) + pend s (Remove i) = 1" using inv by (simp add: conns_inv_def)
  then have "pend s (Establish i) = 0" "pend s (Remove i) = 1" using i by (auto simp: pend_pos)
  then have "conns_inv ((run_task (Remove i) s)\<lparr>connections := (connections s)(i := None)\<rparr>)"
    using inv c by (auto simp: conns_inv_def)
  then show "conns_inv (removeConnection_f i (run_task (Remove i) s))"
    by (auto simp: removeConnection_f_def Let_def conns_inv_tasks simp del: tcp_server.fold_congs)
qed

lemma conns_inv_fold_close: "conns_inv s \<Longrightarrow> conns_inv (fold close_conn ids s)"
  by (simp add: conns_inv_def)

lemma conns_inv_stopInLoop: "conns_inv s \<Longrightarrow> stopInLoop cb ids s = Inr s' \<Longrightarrow> conns_inv s'"
  by (auto simp: stopInLoop_def Let_def conns_inv_tasks conns_inv_fold_close split: if_splits)

section \<open>The phases\<close>

lemma phase_inv_cases:
  assumes "phase_inv self x s"
  shows "x \<in> {kStarting, kRunning, kStopping, kStopped}"
  using assms by (cases x) simp_all

text \<open>A task that is not about listening or stopping.\<close>

definition plain_task :: "task \<Rightarrow> bool" where
  "plain_task t \<longleftrightarrow> t \<noteq> Listen \<and> (\<forall>cb. t \<noteq> StopSafe cb)"

lemma phase_inv_run:
  assumes "phase_inv self (st s) s" and "t \<in> set (tasks s)" and "plain_task t"
  shows "phase_inv self (st s) (run_task t s)" and "st s \<noteq> kStarting"
proof -
  show "st s \<noteq> kStarting" using assms by (auto simp: plain_task_def)
  then show "phase_inv self (st s) (run_task t s)"
    using assms by (cases "st s") (auto simp: plain_task_def)
qed

lemma phase_inv_add:
  assumes "phase_inv self (st s) s" and "st s \<noteq> kStarting" and "plain_task t"
  shows "phase_inv self (st s) (add_task t s)"
  using assms by (cases "st s") (auto simp: plain_task_def)

text \<open>Changing statuses of connections.\<close>

lemma phase_inv_connections:
  assumes "phase_inv self (st s) s" and "st s \<noteq> kStarting" and "\<forall>i. c i = None \<longleftrightarrow> connections s i = None"
  shows "phase_inv self (st s) (s\<lparr>connections := c\<rparr>)"
proof -
  have "c = (\<lambda>_. None) \<longleftrightarrow> connections s = (\<lambda>_. None)" using assms(3) by (simp add: no_conns)
  then show ?thesis using assms(1,2) by (cases "st s") auto
qed

lemma phase_inv_doAccept:
  assumes "phase_inv self kRunning s"
  shows "\<exists>s'. doAccept s = Inr s' \<and> phase_inv self kRunning s' \<and> st s' = st s"
proof -
  obtain p where p: "spool s = Some p" "pool_up self p" using assms by auto
  then obtain l p' where "getNextLoop p = Inr (l, p')" "pool_up self p'" using getNextLoop_up by blast
  then show ?thesis using p assms by (simp add: doAccept_def)
qed

lemma listen_inv:
  assumes "server_inv self s" and "Listen \<in> set (tasks s)"
  shows "\<exists>s'. TCPServer_listen (Inr ()) (run_task Listen s) = Inr s' \<and> server_inv self s' \<and> st s' = kRunning"
proof -
  have st: "st s = kStarting"
    using assms phase_inv_cases [of self "st s" s] by (auto simp: server_inv_def pend_pos)
  let ?s = "(run_task Listen s)\<lparr>acceptor := True, st := kRunning\<rparr>"
  have "tasks ?s = []" using st assms(1) by (simp add: server_inv_def)
  then have "phase_inv self kRunning ?s" using st assms(1) by (simp add: server_inv_def pend_def stop_safes_def)
  then obtain s' where s': "doAccept ?s = Inr s'" "phase_inv self kRunning s'" "st s' = kRunning"
    using phase_inv_doAccept [of self ?s] by auto
  have "conns_inv ?s" using assms(1) by (simp add: server_inv_def conns_inv_tasks)
  moreover have "pend ?s Accept = 0" using \<open>tasks ?s = []\<close> by (simp add: pend_def)
  ultimately have "conns_inv s'" using conns_inv_doAccept s'(1) by blast
  then show ?thesis using s' by (simp add: server_inv_def TCPServer_listen_def)
qed

lemma accepted_inv:
  assumes inv: "server_inv self s" and acc: "Accept \<in> set (tasks s)" and i: "next_conn_id s + 1 \<noteq> 0"
    and run: "TCPServer_newConnection verify remote ec (run_task Accept s) = Inr s'"
  shows "server_inv self s'"
proof -
  let ?r = "run_task Accept s" and ?i = "next_conn_id s + 1"
  let ?s = "add_task (Establish ?i) (?r\<lparr>next_conn_id := ?i, connections := (connections s)(?i \<mapsto> kDisconnected)\<rparr>)"
  have st: "st s \<noteq> kStarting" using inv acc by (auto simp: server_inv_def)
  have r: "phase_inv self (st s) ?r" "conns_inv ?r" "pend ?r Accept = 0"
    using inv acc phase_inv_run [of self s Accept] by (auto simp: server_inv_def plain_task_def conns_inv_def pend_pos)
  have s: "conns_inv ?s" "pend ?s Accept = 0" using conns_inv_accepted [of ?r] r i by simp_all
  have run_s: "phase_inv self kRunning ?s" if "st s = kRunning" using r(1) that by simp
  have go: "server_inv self s'" if "doAccept u = Inr s'" "u = ?r \<or> u = ?s" for u
  proof -
    have "acceptor s" using that by (auto simp: doAccept_def rbind_eq_Inr_iff split: option.splits if_splits prod.splits)
    then have run: "st s = kRunning" using inv phase_inv_cases [of self "st s" s] by (auto simp: server_inv_def)
    then have "phase_inv self kRunning u" "st u = kRunning" "conns_inv u" "pend u Accept = 0" using that(2) r s run_s by auto
    then show ?thesis using that(1) phase_inv_doAccept [of self u] conns_inv_doAccept [of u s'] by (auto simp: server_inv_def)
  qed
  show ?thesis using run go r(1,2)
    by (auto simp: TCPServer_newConnection_def rbind_eq_Inr_iff Let_def server_inv_def split: if_splits)
qed

lemma established_inv:
  assumes inv: "server_inv self s" and t: "Establish i \<in> set (tasks s)"
  shows "server_inv self (conn_established i (run_task (Establish i) s))"
proof -
  have c: "connections s i = Some kDisconnected" "conns_inv (conn_established i (run_task (Establish i) s))"
    using conns_inv_established [OF _ t] inv by (simp_all add: server_inv_def)
  have "phase_inv self (st s) (run_task (Establish i) s)" "st s \<noteq> kStarting"
    using inv t phase_inv_run [of self s "Establish i"] by (auto simp: server_inv_def plain_task_def)
  then have "phase_inv self (st s) (conn_established i (run_task (Establish i) s))"
    using phase_inv_connections [of self "run_task (Establish i) s"] c(1) by (simp add: conn_established_def)
  then show ?thesis using c(2) by (simp add: server_inv_def conn_established_def)
qed

lemma close_conn_inv: "server_inv self s \<Longrightarrow> server_inv self (close_conn i s)"
  using phase_inv_connections [of self s "(connections s)(i \<mapsto> kDisconnecting)"]
    phase_inv_add [of self "s\<lparr>connections := (connections s)(i \<mapsto> kDisconnecting)\<rparr>" "CloseConn i"] conns_inv_close_conn [of s i]
  by (cases "st s = kStarting") (auto simp: server_inv_def close_conn_def plain_task_def)

lemma conn_closed_inv:
  assumes "server_inv self s" and "connections s i = Some c" and "c \<noteq> kDisconnected"
  shows "server_inv self (conn_closed i s)"
proof -
  let ?s = "s\<lparr>connections := (connections s)(i \<mapsto> kDisconnected)\<rparr>"
  have st: "st s \<noteq> kStarting" using assms by (auto simp: server_inv_def)
  then have "phase_inv self (st s) ?s" using assms by (intro phase_inv_connections) (auto simp: server_inv_def)
  then have "phase_inv self (st s) (conn_closed i s)"
    using st phase_inv_add [of self ?s "Remove i"] by (simp add: conn_closed_def TCPServer_removeConnection_def plain_task_def)
  then show ?thesis using assms conns_inv_closed [of s i c]
    by (simp add: server_inv_def conn_closed_def TCPServer_removeConnection_def)
qed

lemma run_plain_inv:
  assumes "server_inv self s" and "t \<in> set (tasks s)" and "(\<exists>i. t = CloseConn i) \<or> (\<exists>cb. t = StopInLoop cb)"
  shows "server_inv self (run_task t s)"
  using assms phase_inv_run [of self s t] conns_inv_tasks(2) [of t s] by (auto simp: server_inv_def plain_task_def)

lemma removeConnection_f_st [simp]: "st (removeConnection_f i s) = st s"
  by (simp add: removeConnection_f_def Let_def)

lemma removeConnection_f_connections: "connections (removeConnection_f i s) = (connections s)(i := None)"
  by (simp add: removeConnection_f_def Let_def)

lemma removed_inv:
  assumes inv: "server_inv self s" and t: "Remove i \<in> set (tasks s)"
  shows "server_inv self (removeConnection_f i (run_task (Remove i) s))"
proof -
  have c: "connections s i = Some kDisconnected" "conns_inv (removeConnection_f i (run_task (Remove i) s))"
    using conns_inv_removed [OF _ t] inv by (simp_all add: server_inv_def)
  have r: "phase_inv self (st s) (run_task (Remove i) s)" "st s \<noteq> kStarting"
    using inv t phase_inv_run [of self s "Remove i"] by (auto simp: server_inv_def plain_task_def)
  have ne: "connections s \<noteq> (\<lambda>_. None)" using c(1) by auto
  have "phase_inv self (st s) (removeConnection_f i (run_task (Remove i) s))"
    using r ne by (cases "st s") (auto simp: removeConnection_f_def Let_def isStopping_def)
  then show ?thesis using c(2) by (simp add: server_inv_def)
qed

lemma stopInLoop_inv:
  assumes inv: "server_inv self s" and run: "stopInLoop cb ids s = Inr s'"
  shows "server_inv self s'"
proof -
  have acc: "acceptor s" using run by (auto simp: stopInLoop_def Let_def split: if_splits)
  then have st: "st s = kRunning" using inv phase_inv_cases [of self "st s" s] by (auto simp: server_inv_def)
  let ?s = "s\<lparr>st := kStopping, substatus := kStoppingListener, acceptor := False\<rparr>"
  have "conns_inv s'" using inv run conns_inv_stopInLoop by (auto simp: server_inv_def)
  moreover have "phase_inv self kStopping s'" "st s' = kStopping"
    using run acc inv st by (auto simp: stopInLoop_def Let_def server_inv_def no_conns split: if_splits)
  ultimately show ?thesis by (simp add: server_inv_def)
qed

text \<open>The last step of stopping cannot fail.\<close>

lemma stopThreadPool_ok:
  assumes "st s = kStopping" and "spool s = Some p" and "pool_up (env_self e) p"
  shows "stopThreadPool e s = Inr (s\<lparr>spool := None, substatus := kSubStatusNull\<rparr>)"
proof -
  obtain p' where p': "EventLoopThreadPool_stop_wait (env_api e) True p = Inr p'" "isStopped p'"
    "\<forall>t \<in> set (threads p'). isStopped t \<and> thread t \<noteq> Some (env_self e)"
    using pool_stop_ok [OF assms(3)] by blast
  then have "EventLoopThreadPool_join (env_self e) p' = Inr (p'\<lparr>threads := []\<rparr>)"
    "EventLoopThreadPool_delete (env_self e) (p'\<lparr>threads := []\<rparr>) = Inr (p'\<lparr>threads := []\<rparr>)"
    by (simp_all add: pool_join_ok EventLoopThreadPool_delete_def)
  then show ?thesis using assms(1,2) p'(1,2) by (simp add: stopThreadPool_def isStopping_def)
qed

lemma stopInloopSafe_result:
  assumes inv: "server_inv (env_self e) s" and t: "StopSafe cb \<in> set (tasks s)"
  shows "stopInloopSafe e cb (run_task (StopSafe cb) s) = Inr ((if cb then (run_task (StopSafe cb) s)\<lparr>stopped_calls := 1\<rparr>
      else run_task (StopSafe cb) s)\<lparr>substatus := kSubStatusNull, spool := None, st := kStopped\<rparr>)"
    and "st s = kStopping" "connections s = (\<lambda>_. None)"
proof -
  show st: "st s = kStopping"
    using inv t stop_safes_pos [OF t] phase_inv_cases [of "env_self e" "st s" s] by (auto simp: server_inv_def)
  then obtain p where p: "spool s = Some p" "pool_up (env_self e) p" using inv by (auto simp: server_inv_def)
  show "connections s = (\<lambda>_. None)" using inv st stop_safes_pos [OF t] by (auto simp: server_inv_def split: if_splits)
  have ph: "substatus s = kStoppingListener" "stopped_calls s = 0" using inv st by (auto simp: server_inv_def)
  show "stopInloopSafe e cb (run_task (StopSafe cb) s) = Inr ((if cb then (run_task (StopSafe cb) s)\<lparr>stopped_calls := 1\<rparr>
      else run_task (StopSafe cb) s)\<lparr>substatus := kSubStatusNull, spool := None, st := kStopped\<rparr>)"
    using st p ph stopThreadPool_ok [of "run_task (StopSafe cb) s" p e] by (cases s) (auto simp: stopInloopSafe_def Let_def run_task_def)
qed

lemma stopped_inv:
  assumes inv: "server_inv (env_self e) s" and t: "StopSafe cb \<in> set (tasks s)"
  shows "\<exists>s'. stopInloopSafe e cb (run_task (StopSafe cb) s) = Inr s' \<and> server_inv (env_self e) s' \<and> st s' = kStopped"
proof -
  note r = stopInloopSafe_result [OF assms]
  have "stop_safes s = 1" "pend s Listen = 0" "\<not> acceptor s" "stopped_calls s = 0" using inv r(2,3) by (auto simp: server_inv_def)
  moreover have "conns_inv (run_task (StopSafe cb) s)" using inv by (simp add: server_inv_def conns_inv_tasks)
  ultimately show ?thesis using r(1,3) t by (auto simp: server_inv_def)
qed

section \<open>Runs\<close>

lemma server_step_inv:
  assumes "server_step e verify s (Inr s')" and inv: "server_inv (env_self e) s"
  shows "server_inv (env_self e) s'"
  using assms(1)
proof (cases rule: server_step.cases)
  case (listened opened)
  then show ?thesis using listen_inv [OF inv] by (cases opened) (auto simp: TCPServer_listen_def)
next
  case (accepted remote ec)
  then show ?thesis using accepted_inv [OF inv] by metis
next
  case (established i)
  then show ?thesis using established_inv [OF inv] by auto
next
  case (user_close i)
  then show ?thesis using close_conn_inv [OF inv] by auto
next
  case (closed i)
  then show ?thesis using run_plain_inv [OF inv, of "CloseConn i"] conn_closed_inv [of "env_self e" "run_task (CloseConn i) s" i]
    by (auto split: if_splits)
next
  case (failed i c)
  then show ?thesis using conn_closed_inv [OF inv] by auto
next
  case (removed i)
  then show ?thesis using removed_inv [OF inv] by auto
next
  case (stop cb)
  then have "st s \<noteq> kStarting" "s' = add_task (StopInLoop cb) s" by (auto simp: TCPServer_stop_def rbind_eq_Inr_iff cassert_def split: if_splits)
  then show ?thesis using inv phase_inv_add [of "env_self e" s "StopInLoop cb"]
    by (simp add: server_inv_def conns_inv_tasks plain_task_def)
next
  case (stopping cb ids)
  then show ?thesis using run_plain_inv [OF inv, of "StopInLoop cb"] by (metis stopInLoop_inv)
next
  case (stopped cb)
  then show ?thesis using stopped_inv [OF inv] by (metis sum.inject(2))
qed

lemma server_started_inv:
  assumes "env_ok e num" and "TCPServer_start e (TCPServer_new loop name num) = Inr s"
  shows "server_inv (env_self e) s"
proof -
  let ?p = "EventLoopThreadPool_new loop num"
  obtain p where p: "EventLoopThreadPool_start True e ?p = Inr p" "pool_up (env_self e) p"
    using pool_start_up [of ?p e] assms(1) by (auto simp: env_ok_def EventLoopThreadPool_new_def)
  then have "s = add_task Listen ((TCPServer_new loop name num)\<lparr>st := kStarting, spool := Some p\<rparr>)"
    using assms(2) by (simp add: TCPServer_start_def TCPServer_new_def)
  then show ?thesis using p(2) by (simp add: server_inv_def conns_inv_def TCPServer_new_def pend_def)
qed

interpretation server: inductive_invariant "server_start e" "server_step e verify" "server_inv (env_self e)" for e verify
  by unfold_locales (auto simp: server_start_def intro: server_started_inv server_step_inv)

lemmas server_run_inv = server.reach_inv

abbreviation server_steps :: "('f, 'io, 't) pool_env \<Rightarrow> ('addr \<Rightarrow> bool) \<Rightarrow> 'io tcp_server \<Rightarrow> 'io tcp_server \<Rightarrow> bool" where
  "server_steps e verify \<equiv> (\<lambda>s s'. server_step e verify s (Inr s'))\<^sup>*\<^sup>*"

section \<open>Running the tasks of a stopping server\<close>

text \<open>
  Every close task belongs to one call of \<open>close\<close>: it is pending exactly once while the connection is
  closing, and not before. (It may outlive the closing, when an error ends the connection first.)
\<close>

definition closes_inv :: "'io tcp_server \<Rightarrow> bool" where
  "closes_inv s \<longleftrightarrow> (\<forall>i. pend s (CloseConn i) \<le> 1
     \<and> (connections s i = Some kConnected \<or> 0 < pend s (Establish i) \<or> next_conn_id s < i \<longrightarrow> pend s (CloseConn i) = 0)
     \<and> (connections s i = Some kDisconnecting \<longrightarrow> pend s (CloseConn i) = 1))"

lemma closes_inv_fields [simp]:
  "closes_inv (s\<lparr>st := x\<rparr>) = closes_inv s" "closes_inv (s\<lparr>acceptor := a\<rparr>) = closes_inv s" "closes_inv (s\<lparr>substatus := y\<rparr>) = closes_inv s"
  "closes_inv (s\<lparr>stopped_cb := b\<rparr>) = closes_inv s" "closes_inv (s\<lparr>spool := q\<rparr>) = closes_inv s" "closes_inv (s\<lparr>stopped_calls := k\<rparr>) = closes_inv s"
  by (simp_all add: closes_inv_def)

lemma closes_inv_tasks:
  assumes "\<forall>i. t \<noteq> CloseConn i \<and> t \<noteq> Establish i"
  shows "closes_inv (add_task t s) = closes_inv s" and "closes_inv (run_task t s) = closes_inv s"
  using assms by (simp_all add: closes_inv_def)

lemma closes_inv_doAccept: "closes_inv s \<Longrightarrow> doAccept s = Inr s' \<Longrightarrow> closes_inv s'"
  by (auto simp: doAccept_def rbind_eq_Inr_iff closes_inv_tasks split: option.splits if_splits prod.splits)

lemma closes_inv_accepted:
  assumes inv: "closes_inv s" "conns_inv s" and i: "next_conn_id s + 1 \<noteq> 0"
    and run: "TCPServer_newConnection verify remote ec s = Inr s'"
  shows "closes_inv s'"
proof -
  let ?i = "next_conn_id s + 1"
  let ?s = "add_task (Establish ?i) (s\<lparr>next_conn_id := ?i, connections := (connections s)(?i \<mapsto> kDisconnected)\<rparr>)"
  have lt: "next_conn_id s < ?i" using i by (rule next_id_less)
  then have "pend s (CloseConn ?i) = 0" using inv(1) by (simp add: closes_inv_def)
  moreover have "next_conn_id s < j" if "?i < j" for j using that lt by simp
  ultimately have "closes_inv ?s" using inv(1) by (auto simp: closes_inv_def)
  then show ?thesis using run inv(1) closes_inv_doAccept
    by (auto simp: TCPServer_newConnection_def rbind_eq_Inr_iff Let_def split: if_splits)
qed

lemma closes_inv_close_conn:
  assumes "closes_inv s" and "conns_inv s"
  shows "closes_inv (close_conn i s)"
proof (cases "connections s i = Some kConnected")
  case True
  then have "pend s (Establish i) = 0" "i \<le> next_conn_id s" using assms(2) by (auto simp: conns_inv_def)
  then show ?thesis using assms(1) True by (auto simp: closes_inv_def close_conn_def)
qed (use assms(1) in \<open>simp add: close_conn_def\<close>)

lemma closes_inv_fold_close: "closes_inv s \<Longrightarrow> conns_inv s \<Longrightarrow> closes_inv (fold close_conn ids s)"
  by (induction ids arbitrary: s) (simp_all add: closes_inv_close_conn conns_inv_close_conn)

lemma closes_inv_ends:
  assumes "closes_inv s" and "connections s i = Some kDisconnecting"
  shows "closes_inv ((run_task (CloseConn i) s)\<lparr>connections := (connections s)(i \<mapsto> kDisconnected)\<rparr>)"
  using assms by (auto simp: closes_inv_def)

lemma server_step_closes:
  assumes inv: "server_inv (env_self e) s" "closes_inv s" and "server_step e verify s (Inr s')"
  shows "closes_inv s'"
proof -
  have c: "conns_inv s" using inv(1) by (simp add: server_inv_def)
  show ?thesis using assms(3)
  proof (cases rule: server_step.cases)
    case (listened opened)
    then have "doAccept ((run_task Listen s)\<lparr>acceptor := True, st := kRunning\<rparr>) = Inr s'"
      by (auto simp: TCPServer_listen_def Let_def Inr_eq_rbind_iff)
    then show ?thesis using closes_inv_doAccept [of "(run_task Listen s)\<lparr>acceptor := True, st := kRunning\<rparr>" s'] inv(2)
      by (simp add: closes_inv_tasks)
  next
    case (accepted remote ec)
    then show ?thesis using closes_inv_accepted [of "run_task Accept s" verify remote ec s'] inv(2) c
      by (auto simp: closes_inv_tasks conns_inv_def)
  next
    case (established i)
    then have "pend s (CloseConn i) = 0" "connections s i = Some kDisconnected"
      using inv(2) conns_inv_established(1) [OF c] by (auto simp: closes_inv_def pend_pos)
    then show ?thesis using established(1) inv(2) by (auto simp: closes_inv_def conn_established_def)
  next
    case (user_close i)
    then show ?thesis using closes_inv_close_conn [OF inv(2) c] by simp
  next
    case (closed i)
    then show ?thesis using closes_inv_ends [OF inv(2), of i]
      by (auto simp: conn_closed_def TCPServer_removeConnection_def closes_inv_tasks split: if_splits)
  next
    case (failed i x)
    then show ?thesis using inv(2) by (auto simp: conn_closed_def TCPServer_removeConnection_def closes_inv_def)
  next
    case (removed i)
    then show ?thesis using inv(2) by (auto simp: removeConnection_f_def Let_def closes_inv_def)
  next
    case (stop cb)
    then show ?thesis using inv(2) by (auto simp: TCPServer_stop_def Inr_eq_rbind_iff closes_inv_tasks)
  next
    case (stopping cb ids)
    let ?s = "(run_task (StopInLoop cb) s)\<lparr>st := kStopping, substatus := kStoppingListener, acceptor := False\<rparr>"
    have "closes_inv ?s" "conns_inv ?s" using inv(2) c by (simp_all add: closes_inv_tasks conns_inv_tasks)
    then show ?thesis using stopping(1) closes_inv_fold_close [of ?s ids]
      by (auto simp: stopInLoop_def Let_def closes_inv_tasks split: if_splits)
  next
    case (stopped cb)
    then show ?thesis using inv(2) stopInloopSafe_result(1) [OF inv(1) stopped(2)] by (auto simp: closes_inv_tasks)
  qed
qed

lemma server_started_closes: "TCPServer_start e (TCPServer_new loop name num) = Inr s \<Longrightarrow> closes_inv s"
  by (auto simp: TCPServer_start_def TCPServer_new_def Let_def rbind_eq_Inr_iff closes_inv_tasks closes_inv_def pend_def add_task_def
    split: option.splits)

interpretation server_closes: inductive_invariant "server_start e" "server_step e verify" "\<lambda>s. server_inv (env_self e) s \<and> closes_inv s" for e verify
  by unfold_locales (auto simp: server_start_def intro: server_started_inv server_started_closes server_step_inv server_step_closes)

text \<open>
  The tasks of a server whose acceptor is closed, run in any order: an accept that is still pending
  completes with \<open>operation_aborted\<close>. Nothing else happens: no connection fails, and the user makes no
  call.
\<close>

inductive task_step :: "('f, 'io, 't) pool_env \<Rightarrow> ('addr \<Rightarrow> bool) \<Rightarrow> 'io tcp_server \<Rightarrow> error + 'io tcp_server \<Rightarrow> bool" for e verify where
  aborted: "Accept \<in> set (tasks s) \<Longrightarrow>
    task_step e verify s (TCPServer_newConnection verify remote operation_aborted (run_task Accept s))"
| established: "Establish i \<in> set (tasks s) \<Longrightarrow> task_step e verify s (Inr (conn_established i (run_task (Establish i) s)))"
| closed: "CloseConn i \<in> set (tasks s) \<Longrightarrow>
    task_step e verify s (if connections s i = Some kDisconnecting then Inr (conn_closed i (run_task (CloseConn i) s)) else Inl AssertFailed)"
| removed: "Remove i \<in> set (tasks s) \<Longrightarrow> task_step e verify s (Inr (removeConnection_f i (run_task (Remove i) s)))"
| stopping: "StopInLoop cb \<in> set (tasks s) \<Longrightarrow> set ids = dom (connections s) \<Longrightarrow> sorted ids \<Longrightarrow> distinct ids \<Longrightarrow>
    task_step e verify s (stopInLoop cb ids (run_task (StopInLoop cb) s))"
| stopped: "StopSafe cb \<in> set (tasks s) \<Longrightarrow> task_step e verify s (stopInloopSafe e cb (run_task (StopSafe cb) s))"

text \<open>
  A task that does not disturb a stop: not a connection that still waits for \<open>connectEstablished\<close>, not a
  second stop, and not the close task of a connection that an error has ended already.
\<close>

fun quiet_task :: "'io tcp_server \<Rightarrow> task \<Rightarrow> bool" where
  "quiet_task s Accept = True"
| "quiet_task s (CloseConn i) = (connections s i = Some kDisconnecting)"
| "quiet_task s (Remove i) = True"
| "quiet_task s _ = False"

definition drain_inv :: "nat \<Rightarrow> bool \<Rightarrow> 'io tcp_server \<Rightarrow> bool" where
  "drain_inv self cb s \<longleftrightarrow> server_inv self s \<and> closes_inv s \<and> st s \<in> {kStopping, kStopped}
     \<and> (\<forall>t \<in> set (tasks s). t = StopSafe cb \<or> quiet_task s t) \<and> (\<forall>i. connections s i \<noteq> Some kConnected)
     \<and> (connections s \<noteq> (\<lambda>_. None) \<longrightarrow> stopped_cb s = cb) \<and> stopped_calls s = (if st s = kStopped \<and> cb then 1 else 0)"

primrec task_weight :: "task \<Rightarrow> nat" where
  "task_weight Listen = 0"
| "task_weight Accept = 1"
| "task_weight (Establish i) = 0"
| "task_weight (CloseConn i) = 3"
| "task_weight (Remove i) = 2"
| "task_weight (StopInLoop cb) = 0"
| "task_weight (StopSafe cb) = 1"

definition work_left :: "'io tcp_server \<Rightarrow> nat" where
  "work_left s = sum_list (map task_weight (tasks s))"

lemma work_left_upd [simp]:
  "work_left (add_task t s) = work_left s + task_weight t"
  "t \<in> set (tasks s) \<Longrightarrow> work_left (run_task t s) = work_left s - task_weight t"
  "work_left (s\<lparr>connections := c\<rparr>) = work_left s"
  by (simp_all add: work_left_def sum_list_map_remove1)

lemma work_left_pos: "t \<in> set (tasks s) \<Longrightarrow> task_weight t \<le> work_left s"
  by (simp add: work_left_def member_le_sum_list)

lemma work_left_bound: "work_left s \<le> 3 * length (tasks s)"
proof -
  have "task_weight t \<le> 3" for t by (cases t) simp_all
  then have "sum_list (map task_weight ts) \<le> 3 * length ts" for ts
    by (induction ts) (simp_all add: add_mono)
  then show ?thesis by (simp add: work_left_def)
qed

lemma aborted_noop: "TCPServer_newConnection verify remote operation_aborted s = Inr s"
  by (simp add: TCPServer_newConnection_def)

lemma drain_accept:
  assumes "drain_inv self cb s" and "Accept \<in> set (tasks s)"
  shows "drain_inv self cb (run_task Accept s)"
proof -
  have "phase_inv self (st s) (run_task Accept s)" "conns_inv (run_task Accept s)"
    using assms phase_inv_run [of self s Accept] by (auto simp: drain_inv_def server_inv_def plain_task_def conns_inv_def)
  moreover have "quiet_task (run_task Accept s) t = quiet_task s t" for t by (cases t) simp_all
  ultimately show ?thesis using assms by (auto simp: drain_inv_def server_inv_def closes_inv_tasks dest: set_remove1_subset [THEN subsetD])
qed

lemma drain_close:
  assumes inv: "drain_inv self cb s" and t: "CloseConn i \<in> set (tasks s)"
  shows "connections s i = Some kDisconnecting" and "drain_inv self cb (conn_closed i (run_task (CloseConn i) s))"
proof -
  show c: "connections s i = Some kDisconnecting" using inv t by (auto simp: drain_inv_def)
  let ?s = "conn_closed i (run_task (CloseConn i) s)"
  have s: "server_inv self s" "closes_inv s" using inv by (auto simp: drain_inv_def)
  have "server_inv self ?s" using conn_closed_inv [OF run_plain_inv [OF s(1) t], of i kDisconnecting] c by simp
  moreover have "closes_inv ?s" using closes_inv_ends [OF s(2) c] by (simp add: conn_closed_def TCPServer_removeConnection_def closes_inv_tasks)
  moreover have "pend (run_task (CloseConn i) s) (CloseConn i) = 0" using s(2) by (auto simp: closes_inv_def)
  then have gone: "CloseConn i \<notin> set (remove1 (CloseConn i) (tasks s))" using pend_pos [of "CloseConn i" "run_task (CloseConn i) s"] by simp
  then have "x = StopSafe cb \<or> quiet_task ?s x" if "x \<in> set (tasks ?s)" for x
  proof (cases "x = Remove i")
    case False
    then have x: "x \<in> set (tasks s)" "x \<noteq> CloseConn i" using that gone
      by (auto simp: conn_closed_def TCPServer_removeConnection_def dest: set_remove1_subset [THEN subsetD])
    then have "x = StopSafe cb \<or> quiet_task s x" using inv by (simp add: drain_inv_def)
    then show ?thesis using x(2) by (cases x) (auto simp: conn_closed_def TCPServer_removeConnection_def)
  qed simp
  ultimately show "drain_inv self cb ?s" using inv c
    by (auto simp: drain_inv_def conn_closed_def TCPServer_removeConnection_def no_conns)
qed

lemma drain_remove:
  assumes inv: "drain_inv self cb s" and t: "Remove i \<in> set (tasks s)"
  shows "drain_inv self cb (removeConnection_f i (run_task (Remove i) s))"
proof -
  let ?s = "removeConnection_f i (run_task (Remove i) s)"
  have s: "server_inv self s" "closes_inv s" using inv by (auto simp: drain_inv_def)
  then have c: "connections s i = Some kDisconnected" using conns_inv_removed(1) [OF _ t] by (simp add: server_inv_def)
  then have cb: "stopped_cb s = cb" using inv by (auto simp: drain_inv_def)
  have "server_inv self ?s" by (rule removed_inv [OF s(1) t])
  moreover have "closes_inv ?s" using s(2) by (auto simp: removeConnection_f_def Let_def closes_inv_def)
  moreover have "x = StopSafe cb \<or> quiet_task ?s x" if "x \<in> set (tasks ?s)" for x
  proof -
    have "x = StopSafe cb \<or> x \<in> set (tasks s)" using that cb
      by (auto simp: removeConnection_f_def Let_def dest: set_remove1_subset [THEN subsetD] split: if_splits)
    then have "x = StopSafe cb \<or> quiet_task s x" using inv by (auto simp: drain_inv_def)
    then show ?thesis using c by (cases x) (auto simp: removeConnection_f_connections)
  qed
  ultimately show ?thesis using inv cb by (auto simp: drain_inv_def removeConnection_f_def Let_def)
qed

lemma drain_stop:
  assumes inv: "drain_inv (env_self e) cb s" and t: "StopSafe cb \<in> set (tasks s)"
  shows "\<exists>s'. stopInloopSafe e cb (run_task (StopSafe cb) s) = Inr s' \<and> drain_inv (env_self e) cb s' \<and> work_left s' < work_left s"
proof -
  let ?r = "run_task (StopSafe cb) s"
  let ?s = "(if cb then ?r\<lparr>stopped_calls := 1\<rparr> else ?r)\<lparr>substatus := kSubStatusNull, spool := None, st := kStopped\<rparr>"
  have s: "server_inv (env_self e) s" "closes_inv s" using inv by (auto simp: drain_inv_def)
  have run: "stopInloopSafe e cb ?r = Inr ?s" and st: "st s = kStopping" "connections s = (\<lambda>_. None)"
    using stopInloopSafe_result [OF s(1) t] by simp_all
  then have "server_inv (env_self e) ?s" using stopped_inv [OF s(1) t] by simp
  moreover have "x = StopSafe cb \<or> quiet_task ?s x" if "x \<in> set (tasks ?s)" for x
  proof -
    have "x \<in> set (tasks s)" using that by (auto dest: set_remove1_subset [THEN subsetD] split: if_splits)
    then have "x = StopSafe cb \<or> quiet_task s x" using inv by (simp add: drain_inv_def)
    then show ?thesis using st(2) by (cases x) auto
  qed
  ultimately have "drain_inv (env_self e) cb ?s" using inv s(2) st by (auto simp: drain_inv_def closes_inv_tasks)
  moreover have "work_left ?s < work_left s" using work_left_pos [OF t] t by (simp add: work_left_def sum_list_map_remove1)
  ultimately show ?thesis using run by blast
qed

lemma drain_step:
  assumes inv: "drain_inv (env_self e) cb s" and step: "task_step e verify s r"
  shows "\<exists>s'. r = Inr s' \<and> drain_inv (env_self e) cb s' \<and> work_left s' < work_left s"
  using step
proof (cases rule: task_step.cases)
  case (aborted remote)
  then show ?thesis using drain_accept [OF inv] work_left_pos [of Accept s] by (simp add: aborted_noop)
next
  case (established i)
  then show ?thesis using inv by (auto simp: drain_inv_def)
next
  case (closed i)
  then show ?thesis using drain_close [OF inv] work_left_pos [of "CloseConn i" s]
    by (simp add: conn_closed_def TCPServer_removeConnection_def)
next
  case (removed i)
  then show ?thesis using drain_remove [OF inv removed(2)] work_left_pos [of "Remove i" s]
    by (auto simp: removeConnection_f_def Let_def)
next
  case (stopping c ids)
  then show ?thesis using inv by (auto simp: drain_inv_def)
next
  case (stopped c)
  then have "c = cb" using inv by (auto simp: drain_inv_def)
  then show ?thesis using drain_stop [OF inv] stopped by auto
qed

definition stopped_well :: "nat \<Rightarrow> bool \<Rightarrow> 'io tcp_server \<Rightarrow> bool" where
  "stopped_well self cb s \<longleftrightarrow> tasks s = [] \<and> st s = kStopped \<and> stopped_calls s = (if cb then 1 else 0) \<and> TCPServer_delete self s = Inr ()"

lemma drain_progress:
  assumes inv: "drain_inv (env_self e) cb s" and none: "\<And>r. \<not> task_step e verify s r"
  shows "stopped_well (env_self e) cb s"
proof -
  have "t \<notin> set (tasks s)" for t
  proof
    assume t: "t \<in> set (tasks s)"
    then have "t = StopSafe cb \<or> quiet_task s t" using inv unfolding drain_inv_def by blast
    then have "\<exists>r. task_step e verify s r" using t task_step.aborted task_step.closed task_step.removed task_step.stopped
      by (cases t) (simp_all, blast+)
    then show False using none by blast
  qed
  then have t: "tasks s = []" using last_in_set by blast
  then have p: "pend s x = 0" for x by (simp add: pend_def)
  have "connections s i = None" for i
  proof (cases "connections s i")
    case (Some x)
    then show ?thesis using inv p by (cases x) (auto simp: drain_inv_def server_inv_def conns_inv_def closes_inv_def)
  qed
  then have c: "connections s = (\<lambda>_. None)" by auto
  then have "st s = kStopped" using inv p by (auto simp: drain_inv_def server_inv_def stop_safes_def)
  then show ?thesis using inv t c by (auto simp: stopped_well_def drain_inv_def server_inv_def TCPServer_delete_def)
qed

interpretation drain: finite_runs "task_step e verify" "drain_inv (env_self e) cb" work_left "stopped_well (env_self e) cb" for e verify cb
  by unfold_locales (rule drain_step drain_progress; assumption)+

text \<open>\<open>stopInLoop\<close> leads to such a state: the loop over the connections closes every one that is open.\<close>

lemma fold_close_status:
  "connections (fold close_conn ids s) i = (if i \<in> set ids \<and> connections s i = Some kConnected then Some kDisconnecting else connections s i)"
  by (induction ids arbitrary: s) (auto simp: close_conn_def)

lemma fold_close_tasks:
  "set (tasks (fold close_conn ids s)) \<subseteq> set (tasks s) \<union> CloseConn ` {i \<in> set ids. connections s i = Some kConnected}"
proof (induction ids arbitrary: s)
  case (Cons i ids)
  then show ?case using Cons.IH [of "close_conn i s"] by (fastforce simp: close_conn_def split: if_splits)
qed simp

lemma stopInLoop_drains:
  assumes inv: "server_inv self s" "closes_inv s" and st: "st s = kRunning" and ids: "set ids = dom (connections s)"
    and quiet: "\<forall>t \<in> set (tasks s). quiet_task s t"
  shows "\<exists>s1. stopInLoop cb ids s = Inr s1 \<and> drain_inv self cb s1"
proof -
  have acc: "acceptor s" "stopped_calls s = 0" using inv(1) st by (auto simp: server_inv_def)
  let ?s = "s\<lparr>st := kStopping, substatus := kStoppingListener, acceptor := False\<rparr>"
  let ?f = "fold close_conn ids ?s"
  define s1 where "s1 = (if connections s = (\<lambda>_. None) then add_task (StopSafe cb) ?s else ?f\<lparr>stopped_cb := cb\<rparr>)"
  have run: "stopInLoop cb ids s = Inr s1" using acc by (simp add: stopInLoop_def s1_def)
  have c: "closes_inv s1" using inv closes_inv_fold_close [of ?s ids] by (simp add: s1_def closes_inv_tasks server_inv_def)
  have "connections s1 i \<noteq> Some kConnected" for i using ids by (auto simp: s1_def fold_close_status)
  moreover have "t = StopSafe cb \<or> quiet_task s1 t" if "t \<in> set (tasks s1)" for t
  proof -
    have "t = StopSafe cb \<or> t \<in> set (tasks s) \<or> (\<exists>i \<in> set ids. t = CloseConn i \<and> connections s i = Some kConnected \<and> connections s \<noteq> (\<lambda>_. None))"
      using that fold_close_tasks [of ids ?s] unfolding s1_def by (fastforce split: if_splits)
    then have "t = StopSafe cb \<or> quiet_task s t \<or> (\<exists>i. t = CloseConn i \<and> connections s1 i = Some kDisconnecting)"
      using quiet by (auto simp: s1_def fold_close_status)
    then show ?thesis by (cases t) (auto simp: s1_def fold_close_status)
  qed
  moreover have "connections s1 \<noteq> (\<lambda>_. None) \<longrightarrow> stopped_cb s1 = cb" by (auto simp: s1_def)
  ultimately have "drain_inv self cb s1" using stopInLoop_inv [OF inv(1) run] c acc by (auto simp: drain_inv_def s1_def)
  then show ?thesis using run by blast
qed

section \<open>Properties\<close>

definition test_server :: "(nat, unit) handler list tcp_server" where
  "test_server = projr (TCPServer_start test_env (TCPServer_new (EventLoop_new test_io) ''test'' 0))"

definition listening :: "(nat, unit) handler list tcp_server" where
  "listening = projr (TCPServer_listen (Inr ()) (run_task Listen test_server))"

lemma listening_run: "server_run test_env verify listening" "acceptor listening" "tasks listening = [Accept]"
  "connections listening = (\<lambda>_. None)" "st listening = kRunning"
proof -
  have s: "TCPServer_start test_env (TCPServer_new (EventLoop_new test_io) ''test'' 0) = Inr test_server"
    "TCPServer_listen (Inr ()) (run_task Listen test_server) = Inr listening" "tasks test_server = [Listen]"
    by (simp_all add: test_server_def listening_def TCPServer_start_def TCPServer_listen_def TCPServer_new_def doAccept_def
      EventLoopThreadPool_new_def EventLoopThreadPool_start_def getNextLoop_def isRunning_def add_task_def run_task_def)
  have "env_ok test_env 0" by (simp add: env_ok_def test_env_def)
  then have "server_run test_env verify test_server" using s(1) by (intro reach.init) (auto simp: server_start_def)
  moreover have "server_step test_env verify test_server (Inr listening)"
    using server_step.listened [of test_server test_env verify "Inr ()"] s(2,3) by simp
  ultimately show "server_run test_env verify listening" by (rule reach.step)
  show "acceptor listening" "tasks listening = [Accept]" "connections listening = (\<lambda>_. None)" "st listening = kRunning"
    by (simp_all add: test_server_def listening_def TCPServer_start_def TCPServer_listen_def TCPServer_new_def doAccept_def
      EventLoopThreadPool_new_def EventLoopThreadPool_start_def getNextLoop_def isRunning_def add_task_def run_task_def)
qed

text \<open>
  C10. A server that has stopped is clean: in every reachable state at most one accept is pending and
  the stopped callback has been called at most once, and only by a server whose status is \<open>kStopped\<close>;
  then no connection is left, the acceptor is closed and the thread pool has been stopped, joined and
  released, so that the assertions of the destructor hold.
\<close>

theorem server_stops_clean:
  assumes "server_run e verify s"
  shows "pend s Accept \<le> 1 \<and> stopped_calls s \<le> 1 \<and> (stopped_calls s = 1 \<longrightarrow> st s = kStopped)
    \<and> (st s = kStopped \<longrightarrow> connections s = (\<lambda>_. None) \<and> \<not> acceptor s \<and> spool s = None
         \<and> TCPServer_delete (env_self e) s = Inr ())"
proof -
  have inv: "phase_inv (env_self e) (st s) s" "pend s Accept \<le> 1"
    using server_run_inv [OF assms] by (auto simp: server_inv_def conns_inv_def)
  have "stopped_calls s \<le> 1 \<and> (stopped_calls s = 1 \<longrightarrow> st s = kStopped)"
    using inv(1) phase_inv_cases [OF inv(1)] by auto
  moreover have "connections s = (\<lambda>_. None) \<and> \<not> acceptor s \<and> spool s = None" if "st s = kStopped"
    using inv(1) that by simp
  ultimately show ?thesis using inv(2) by (auto simp: TCPServer_delete_def)
qed

theorem server_stops_clean_witness:
  "server_run test_env (\<lambda>_::nat. True) listening \<and> pend listening Accept \<le> 1 \<and> stopped_calls listening \<le> 1"
  using server_stops_clean [OF listening_run(1)] listening_run(1) by blast

text \<open>
  C11. A stop completes by the tasks it queues itself. When \<open>stopInLoop\<close> runs on a running server with
  any connections, none of which still waits for \<open>connectEstablished\<close>, no second stop is queued and no
  close task is left of a connection that an error has ended, then \<open>stopInLoop\<close> succeeds, and every way
  of running the pending tasks from there (the close tasks, the removals, the aborted accept and
  \<open>stopInloopSafe\<close>, with no other event in between) ends after at most three times as many steps as there
  are tasks, without a failure, with no task left, the status \<open>kStopped\<close>, the stopped callback called once
  if there is one, and a server that can be destroyed.
\<close>

theorem server_stop_completes:
  assumes "server_run e verify s" and "st s = kRunning" and "StopInLoop cb \<in> set (tasks s)"
    and "\<forall>t \<in> set (remove1 (StopInLoop cb) (tasks s)). quiet_task s t"
    and "set ids = dom (connections s)"
  shows "\<exists>s1. stopInLoop cb ids (run_task (StopInLoop cb) s) = Inr s1
    \<and> ends_well (task_step e verify) (3 * length (tasks s1))
        (\<lambda>s2. tasks s2 = [] \<and> st s2 = kStopped \<and> stopped_calls s2 = (if cb then 1 else 0) \<and> TCPServer_delete (env_self e) s2 = Inr ()) s1"
proof -
  let ?r = "run_task (StopInLoop cb) s"
  have inv: "server_inv (env_self e) s" "closes_inv s" using server_closes.reach_inv [OF assms(1)] by simp_all
  then have r: "server_inv (env_self e) ?r" "closes_inv ?r" using run_plain_inv [OF _ assms(3)] by (auto simp: closes_inv_tasks)
  have "quiet_task ?r t = quiet_task s t" for t by (cases t) simp_all
  then obtain s1 where s1: "stopInLoop cb ids ?r = Inr s1" "drain_inv (env_self e) cb s1"
    using stopInLoop_drains [OF r, of ids cb] assms(2,4,5) by auto
  have "ends_well (task_step e verify) (3 * length (tasks s1)) (stopped_well (env_self e) cb) s1"
    by (rule ends_well_weaken [OF drain.runs_end_well [OF s1(2)] work_left_bound])
  then show ?thesis using s1(1) unfolding stopped_well_def by blast
qed

definition accepting :: "(nat, unit) handler list tcp_server" where
  "accepting = projr (TCPServer_newConnection (\<lambda>_::nat. True) (Inr 9) Success (run_task Accept listening))"

lemma accepting_run:
  "TCPServer_newConnection (\<lambda>_::nat. True) (Inr 9) Success (run_task Accept listening) = Inr accepting" "tasks accepting = [Establish 1, Accept]"
  "connections accepting = [1 \<mapsto> kDisconnected]" "next_conn_id listening = 0" "st accepting = kRunning"
proof -
  show n: "next_conn_id listening = 0"
    by (simp add: test_server_def listening_def TCPServer_start_def TCPServer_listen_def TCPServer_new_def doAccept_def
      EventLoopThreadPool_new_def EventLoopThreadPool_start_def getNextLoop_def isRunning_def add_task_def run_task_def)
  obtain p where p: "spool listening = Some p" "pool_up (env_self test_env) p"
    using server_run_inv [OF listening_run(1)] listening_run(5) by (auto simp: server_inv_def)
  then obtain l p1 where "getNextLoop p = Inr (l, p1)" using getNextLoop_up by blast
  then show "TCPServer_newConnection (\<lambda>_::nat. True) (Inr 9) Success (run_task Accept listening) = Inr accepting" "tasks accepting = [Establish 1, Accept]"
    "connections accepting = [1 \<mapsto> kDisconnected]" "st accepting = kRunning"
    using p listening_run n by (simp_all add: accepting_def TCPServer_newConnection_def doAccept_def)
qed

text \<open>The server has one open connection, and a stop is queued.\<close>

definition one_open :: "(nat, unit) handler list tcp_server" where
  "one_open = add_task (StopInLoop True) (conn_established 1 (run_task (Establish 1) accepting))"

lemma one_open_run: "server_run test_env (\<lambda>_::nat. True) one_open" "tasks one_open = [Accept, StopInLoop True]"
  "connections one_open = [1 \<mapsto> kConnected]" "st one_open = kRunning"
proof -
  let ?V = "\<lambda>_::nat. True" and ?s = "conn_established 1 (run_task (Establish 1) accepting)"
  have "server_step test_env ?V listening (Inr accepting)"
    using server_step.accepted [of listening test_env ?V "Inr 9" Success] accepting_run listening_run(3) by simp
  then have "server_run test_env ?V accepting" by (rule reach.step [OF listening_run(1)])
  then have "server_run test_env ?V ?s" by (rule reach.step) (rule server_step.established, simp add: accepting_run)
  moreover have "TCPServer_stop True ?s = Inr one_open"
    by (simp add: TCPServer_stop_def one_open_def conn_established_def accepting_run)
  ultimately show "server_run test_env ?V one_open" using server_step.stop [of test_env ?V ?s True] by (simp add: reach.step)
  show "tasks one_open = [Accept, StopInLoop True]" "connections one_open = [1 \<mapsto> kConnected]" "st one_open = kRunning"
    by (simp_all add: one_open_def conn_established_def accepting_run)
qed

theorem server_stop_completes_witness:
  "server_run test_env (\<lambda>_::nat. True) one_open \<and> connections one_open 1 = Some kConnected
    \<and> (\<exists>s1. stopInLoop True [1] (run_task (StopInLoop True) one_open) = Inr s1
        \<and> ends_well (task_step test_env (\<lambda>_::nat. True)) (3 * length (tasks s1))
            (\<lambda>s2. tasks s2 = [] \<and> st s2 = kStopped \<and> stopped_calls s2 = 1 \<and> TCPServer_delete (env_self test_env) s2 = Inr ()) s1)"
  using server_stop_completes [OF one_open_run(1), of True "[1]"] one_open_run by simp

definition stopping_server :: "(nat, unit) handler list tcp_server" where
  "stopping_server = projr (stopInLoop True [] (run_task (StopInLoop True) (add_task (StopInLoop True) listening)))"

lemma stopping_server_run: "server_run test_env verify stopping_server" "st stopping_server = kStopping"
proof -
  let ?s = "add_task (StopInLoop True) listening"
  have "server_step test_env verify listening (Inr ?s)"
    using server_step.stop [of test_env verify listening True] listening_run(5) by (simp add: TCPServer_stop_def)
  then have run: "server_run test_env verify ?s" by (rule reach.step [OF listening_run(1)])
  have s: "stopInLoop True [] (run_task (StopInLoop True) ?s) = Inr stopping_server"
    using listening_run by (simp add: stopping_server_def stopInLoop_def)
  then have "server_step test_env verify ?s (Inr stopping_server)"
    using server_step.stopping [of True ?s "[]" test_env verify] listening_run(4) by simp
  then show "server_run test_env verify stopping_server" by (rule reach.step [OF run])
  show "st stopping_server = kStopping" using listening_run by (simp add: stopping_server_def stopInLoop_def)
qed

text \<open>
  C39. An accept that completes after \<open>stopInLoop\<close> with anything but \<open>operation_aborted\<close> (a connection
  that was accepted before the cancellation, or another error) makes the server call
  \<open>acceptor_->async_accept\<close> on the released acceptor.
\<close>

theorem accept_after_stop_crashes:
  assumes "server_run e verify s" and "Accept \<in> set (tasks s)" and "st s = kStopping" and "next_conn_id s + 1 \<noteq> 0"
    and "ec \<noteq> operation_aborted"
  shows "TCPServer_newConnection verify (Inr remote) ec (run_task Accept s) = Inl NullDeref \<and> server_step e verify s (Inl NullDeref)"
proof -
  obtain p where p: "spool s = Some p" "pool_up (env_self e) p" "\<not> acceptor s"
    using server_run_inv [OF assms(1)] assms(3) by (auto simp: server_inv_def)
  then obtain l p' where "getNextLoop p = Inr (l, p')" using getNextLoop_up by blast
  then have c: "TCPServer_newConnection verify (Inr remote) ec (run_task Accept s) = Inl NullDeref"
    using p assms(5) by (simp add: TCPServer_newConnection_def Let_def doAccept_def)
  then show ?thesis using server_step.accepted [OF assms(2,4)] by metis
qed

theorem accept_after_stop_crashes_witness:
  "server_run test_env (\<lambda>_::nat. True) stopping_server \<and> server_step test_env (\<lambda>_::nat. True) stopping_server (Inl NullDeref)"
proof -
  have "Accept \<in> set (tasks stopping_server)" "next_conn_id stopping_server = 0"
    using listening_run by (simp_all add: stopping_server_def stopInLoop_def)
      (simp add: test_server_def listening_def TCPServer_start_def TCPServer_listen_def TCPServer_new_def doAccept_def
      EventLoopThreadPool_new_def EventLoopThreadPool_start_def getNextLoop_def isRunning_def add_task_def run_task_def)
  then show ?thesis using accept_after_stop_crashes [OF stopping_server_run(1) _ stopping_server_run(2), where ec = Success and verify = "\<lambda>_::nat. True"]
      stopping_server_run(1) [of "\<lambda>_::nat. True"] by simp
qed

end
