(* ===== verification/Tcp_Client.thy ===== *)
theory Tcp_Client
  imports Conn_Control
begin

text \<open>
  The connector side, \<^verbatim>\<open>src/netpp/net/tcp_client.h\<close> and \<^verbatim>\<open>src/netpp/net/tcp_client.cpp\<close>. The
  lambdas the client gives to \<open>runInLoop\<close> are the operations here: they run in the loop thread, one
  at a time. Pending network and timer events are the list \<open>events\<close>. Connections are known by their
  id; \<open>statuses\<close> has the status of every \<open>TCPConn\<close> object that was created.
\<close>

section \<open>Data\<close>

datatype event = AsyncConnect | ReconnectTimer | CloseConnTask uint64

record tcp_client =
  client_name :: string
  client_context :: "nat option"
  auto_reconnect :: bool
  reconnect_interval_seconds :: int
  local_port :: nat
  conn_ptr :: "uint64 option"
  is_connecting :: bool
  id_counter :: uint64
  statuses :: "uint64 \<Rightarrow> StateE"
  events :: "event list"

definition TCPClient_new :: "string \<Rightarrow> uint64 \<Rightarrow> (uint64 \<Rightarrow> StateE) \<Rightarrow> tcp_client" where
  "TCPClient_new name i sts = \<lparr>client_name = name, client_context = None, auto_reconnect = True, reconnect_interval_seconds = 3, local_port = 0, conn_ptr = None,
     is_connecting = False, id_counter = i, statuses = sts, events = []\<rparr>"

text \<open>
  The callbacks of the client. The constructor leaves both empty, so a connection of a client whose
  user has not set them calls an empty function.
\<close>

record 'u client_callbacks =
  client_connection_cb :: "'u callback option"
  client_message_cb :: "'u callback option"

definition client_callbacks_new :: "'u client_callbacks" where
  "client_callbacks_new = \<lparr>client_connection_cb = None, client_message_cb = None\<rparr>"

definition TCPClient_setConnectionCallback :: "'u callback \<Rightarrow> 'u client_callbacks \<Rightarrow> 'u client_callbacks" where
  "TCPClient_setConnectionCallback cb c = c\<lparr>client_connection_cb := Some cb\<rparr>"

definition TCPClient_setMessageCallback :: "'u callback \<Rightarrow> 'u client_callbacks \<Rightarrow> 'u client_callbacks" where
  "TCPClient_setMessageCallback cb c = c\<lparr>client_message_cb := Some cb\<rparr>"

definition call_function :: "'u callback option \<Rightarrow> 'u callback" where
  "call_function f s = (case f of None \<Rightarrow> Inl BadFunctionCall | Some g \<Rightarrow> g s)"

text \<open>The callbacks \<open>newConnection\<close> gives to a connection; \<open>remove\<close> is \<open>removeConnection\<close> for it.\<close>

definition TCPClient_conn_callbacks :: "'u client_callbacks \<Rightarrow> 'u callback \<Rightarrow> 'u conn_callbacks" where
  "TCPClient_conn_callbacks c remove = \<lparr>connection_cb = call_function (client_connection_cb c),
     message_cb = call_function (client_message_cb c), close_cb = remove\<rparr>"

section \<open>Operations\<close>

definition TCPClient_getName :: "tcp_client \<Rightarrow> string" where
  "TCPClient_getName c = client_name c"

definition getAutoReconnect :: "tcp_client \<Rightarrow> bool" where
  "getAutoReconnect c = auto_reconnect c"

definition getReconnectInterval :: "tcp_client \<Rightarrow> int" where
  "getReconnectInterval c = reconnect_interval_seconds c"

definition TCPClient_setContext :: "nat option \<Rightarrow> tcp_client \<Rightarrow> tcp_client" where
  "TCPClient_setContext x c = c\<lparr>client_context := x\<rparr>"

definition TCPClient_getContext :: "tcp_client \<Rightarrow> nat option" where
  "TCPClient_getContext c = client_context c"

text \<open>\<open>conn()\<close>: the current connection, by its id.\<close>

definition TCPClient_conn :: "tcp_client \<Rightarrow> uint64 option" where
  "TCPClient_conn c = conn_ptr c"

definition setAutoReconnect :: "bool \<Rightarrow> tcp_client \<Rightarrow> tcp_client" where
  "setAutoReconnect v c = c\<lparr>auto_reconnect := v\<rparr>"

definition setReconnectInterval :: "int \<Rightarrow> tcp_client \<Rightarrow> tcp_client" where
  "setReconnectInterval seconds c = c\<lparr>reconnect_interval_seconds := seconds\<rparr>"

definition TCPClient_bind :: "nat \<Rightarrow> tcp_client \<Rightarrow> tcp_client" where
  "TCPClient_bind port c = c\<lparr>local_port := port\<rparr>"

definition ptr_status :: "tcp_client \<Rightarrow> StateE option" where
  "ptr_status c = map_option (statuses c) (conn_ptr c)"

definition connect :: "tcp_client \<Rightarrow> tcp_client" where
  "connect c = (if is_connecting c \<or> ptr_status c = Some kConnected then c
     else c\<lparr>is_connecting := True, events := events c @ [AsyncConnect]\<rparr>)"

text \<open>\<open>TCPConn::close\<close> on the connection with id \<open>i\<close>.\<close>

definition close_connection :: "uint64 \<Rightarrow> tcp_client \<Rightarrow> tcp_client" where
  "close_connection i c = (if statuses c i = kConnected
     then c\<lparr>statuses := (statuses c)(i := kDisconnecting), events := events c @ [CloseConnTask i]\<rparr> else c)"

definition disconnect :: "tcp_client \<Rightarrow> error + tcp_client" where
  "disconnect c =
     (let c1 = c\<lparr>auto_reconnect := False\<rparr> in
      case conn_ptr c1 of
        None \<Rightarrow> Inr c1
      | Some i \<Rightarrow> rbind (cassert (statuses c1 i \<noteq> kDisconnected \<and> statuses c1 i \<noteq> kDisconnecting)) (\<lambda>_.
          Inr (close_connection i c1)))"

definition reconnect :: "tcp_client \<Rightarrow> tcp_client" where
  "reconnect c = connect c"

text \<open>
  The completion of \<open>async_connect\<close>. In the success branch \<open>runInLoop\<close> runs \<open>connectEstablished\<close> at
  once, since this is the loop thread, and the pointer is stored after it. \<open>user_cb\<close> is what the
  connection callback does to the client and its connections.
\<close>

definition TCPClient_newConnection :: "(tcp_client \<Rightarrow> error + tcp_client) \<Rightarrow> error_code \<Rightarrow> tcp_client \<Rightarrow> error + tcp_client" where
  "TCPClient_newConnection user_cb ec c =
     (let c1 = c\<lparr>is_connecting := False\<rparr> in
      if ec = Success
      then let i = id_counter c1 in
           rbind (user_cb (c1\<lparr>id_counter := i + 1, statuses := (statuses c1)(i := kConnected)\<rparr>)) (\<lambda>c2.
           Inr (c2\<lparr>conn_ptr := Some i\<rparr>))
      else rbind (user_cb c1) (\<lambda>c2.
           Inr (if auto_reconnect c2 then c2\<lparr>events := events c2 @ [ReconnectTimer]\<rparr> else c2)))"

definition TCPClient_removeConnection :: "uint64 \<Rightarrow> tcp_client \<Rightarrow> error + tcp_client" where
  "TCPClient_removeConnection i c =
     rbind (cassert (conn_ptr c = Some i)) (\<lambda>_.
     let c1 = c\<lparr>conn_ptr := None\<rparr> in
     Inr (if auto_reconnect c1 then reconnect c1 else c1))"

text \<open>\<open>TCPConn::handleClose\<close> of connection \<open>i\<close>: the callbacks of the user and of the client, then the final status.\<close>

definition connection_closed :: "(tcp_client \<Rightarrow> error + tcp_client) \<Rightarrow> uint64 \<Rightarrow> tcp_client \<Rightarrow> error + tcp_client" where
  "connection_closed user_cb i c =
     rbind (user_cb (c\<lparr>statuses := (statuses c)(i := kDisconnecting)\<rparr>)) (\<lambda>c1.
     rbind (TCPClient_removeConnection i c1) (\<lambda>c2.
     Inr (c2\<lparr>statuses := (statuses c2)(i := kDisconnected)\<rparr>)))"

definition taken_event :: "event \<Rightarrow> tcp_client \<Rightarrow> tcp_client" where
  "taken_event e c = c\<lparr>events := remove1 e (events c)\<rparr>"

inductive client_step :: "(tcp_client \<Rightarrow> error + tcp_client) \<Rightarrow> tcp_client \<Rightarrow> error + tcp_client \<Rightarrow> bool" for user_cb where
  connected: "AsyncConnect \<in> set (events c) \<Longrightarrow>
    client_step user_cb c (TCPClient_newConnection user_cb ec (taken_event AsyncConnect c))"
| timer: "ReconnectTimer \<in> set (events c) \<Longrightarrow> client_step user_cb c (Inr (reconnect (taken_event ReconnectTimer c)))"
| conn_error: "statuses c i \<noteq> kDisconnected \<Longrightarrow> client_step user_cb c (connection_closed user_cb i c)"
| close_run: "CloseConnTask i \<in> set (events c) \<Longrightarrow>
    client_step user_cb c (if statuses c i = kDisconnecting then connection_closed user_cb i (taken_event (CloseConnTask i) c)
      else Inl AssertFailed)"
| api_connect: "client_step user_cb c (Inr (connect c))"
| api_disconnect: "client_step user_cb c (disconnect c)"
| api_auto: "client_step user_cb c (Inr (setAutoReconnect v c))"

section \<open>The invariant\<close>

definition connects :: "tcp_client \<Rightarrow> nat" where
  "connects c = length (filter ((=) AsyncConnect) (events c))"

definition client_inv :: "tcp_client \<Rightarrow> bool" where
  "client_inv c \<longleftrightarrow> connects c = (if is_connecting c then 1 else 0)"

text \<open>What the connection callback may do to the client: use its public interface.\<close>

inductive client_calls :: "tcp_client \<Rightarrow> tcp_client \<Rightarrow> bool" where
  nothing: "client_calls c c"
| call_connect: "client_calls c d \<Longrightarrow> client_calls c (connect d)"
| call_disconnect: "client_calls c d \<Longrightarrow> disconnect d = Inr e \<Longrightarrow> client_calls c e"
| call_auto: "client_calls c d \<Longrightarrow> client_calls c (setAutoReconnect v d)"
| call_close: "client_calls c d \<Longrightarrow> client_calls c (close_connection i d)"

lemma connect_inv: "client_inv c \<Longrightarrow> client_inv (connect c)"
  by (auto simp: client_inv_def connect_def connects_def)

lemma close_connection_inv: "client_inv (close_connection i c) = client_inv c"
  by (simp add: client_inv_def close_connection_def connects_def)

lemma disconnect_inv: "client_inv c \<Longrightarrow> disconnect c = Inr d \<Longrightarrow> client_inv d"
  by (auto simp: disconnect_def Let_def rbind_eq_Inr_iff close_connection_inv split: option.splits)
    (simp_all add: client_inv_def connects_def)

lemma setAutoReconnect_inv: "client_inv (setAutoReconnect v c) = client_inv c"
  by (simp add: client_inv_def setAutoReconnect_def connects_def)

lemma client_calls_inv: "client_calls c d \<Longrightarrow> client_inv c \<Longrightarrow> client_inv d"
  by (induction rule: client_calls.induct)
    (auto simp: connect_inv close_connection_inv setAutoReconnect_inv dest: disconnect_inv)

lemma client_inv_fields [simp]:
  "client_inv (c\<lparr>statuses := f\<rparr>) = client_inv c" "client_inv (c\<lparr>conn_ptr := p\<rparr>) = client_inv c"
  "client_inv (c\<lparr>id_counter := i\<rparr>) = client_inv c"
  by (simp_all add: client_inv_def connects_def)

lemma taken_event_inv:
  assumes "client_inv c" and "e \<in> set (events c)" and "e \<noteq> AsyncConnect"
  shows "client_inv (taken_event e c)"
  using assms count_remove1 [OF assms(2), of "(=) AsyncConnect"] by (simp add: client_inv_def connects_def taken_event_def)

lemma removeConnection_inv:
  assumes "client_inv c" and "TCPClient_removeConnection i c = Inr d"
  shows "client_inv d"
  using assms connect_inv [of "c\<lparr>conn_ptr := None\<rparr>"]
  by (auto simp: TCPClient_removeConnection_def reconnect_def rbind_eq_Inr_iff Let_def split: if_splits)

lemma connection_closed_inv:
  assumes cb: "\<And>c d. user_cb c = Inr d \<Longrightarrow> client_calls c d" and "client_inv c" and "connection_closed user_cb i c = Inr d"
  shows "client_inv d"
proof -
  obtain c1 c2 where r: "user_cb (c\<lparr>statuses := (statuses c)(i := kDisconnecting)\<rparr>) = Inr c1"
    "TCPClient_removeConnection i c1 = Inr c2" "d = c2\<lparr>statuses := (statuses c2)(i := kDisconnected)\<rparr>"
    using assms(3) by (auto simp: connection_closed_def rbind_eq_Inr_iff)
  have "client_inv c1" using client_calls_inv [OF cb [OF r(1)]] assms(2) by simp
  then show ?thesis using removeConnection_inv r(2,3) by auto
qed

lemma newConnection_client_inv:
  assumes cb: "\<And>c d. user_cb c = Inr d \<Longrightarrow> client_calls c d" and c: "connects c = 0"
    and run: "TCPClient_newConnection user_cb ec c = Inr d"
  shows "client_inv d"
proof -
  have c1: "client_inv (c\<lparr>is_connecting := False\<rparr>)" using c by (simp add: client_inv_def connects_def)
  show ?thesis
  proof (cases "ec = Success")
    case True
    then obtain c2 where r: "user_cb (c\<lparr>is_connecting := False, id_counter := id_counter c + 1,
        statuses := (statuses c)(id_counter c := kConnected)\<rparr>) = Inr c2" "d = c2\<lparr>conn_ptr := Some (id_counter c)\<rparr>"
      using run by (auto simp: TCPClient_newConnection_def Let_def rbind_eq_Inr_iff)
    then show ?thesis using client_calls_inv [OF cb [OF r(1)]] c1 by simp
  next
    case False
    then obtain c2 where r: "user_cb (c\<lparr>is_connecting := False\<rparr>) = Inr c2"
      "d = (if auto_reconnect c2 then c2\<lparr>events := events c2 @ [ReconnectTimer]\<rparr> else c2)"
      using run by (auto simp: TCPClient_newConnection_def Let_def rbind_eq_Inr_iff)
    then show ?thesis using client_calls_inv [OF cb [OF r(1)] c1] by (auto simp: client_inv_def connects_def)
  qed
qed

lemma client_step_inv:
  assumes "client_step user_cb c r" and "\<And>c d. user_cb c = Inr d \<Longrightarrow> client_calls c d" and "client_inv c" and "r = Inr d"
  shows "client_inv d"
  using assms
proof (induction rule: client_step.induct)
  case (connected c ec)
  have "connects (taken_event AsyncConnect c) = 0"
    using count_remove1 [OF connected(1), of "(=) AsyncConnect"] connected(3)
    by (simp add: client_inv_def connects_def taken_event_def split: if_splits)
  then show ?case using newConnection_client_inv [of user_cb] connected(2,4) by blast
next
  case (timer c)
  have "client_inv (taken_event ReconnectTimer c)" using taken_event_inv timer(1,3) by blast
  then show ?case using connect_inv timer(4) by (auto simp: reconnect_def)
next
  case (conn_error c i)
  then show ?case using connection_closed_inv [of user_cb] by blast
next
  case (close_run i c)
  have "client_inv (taken_event (CloseConnTask i) c)" using taken_event_inv close_run(1,3) by blast
  then show ?case using connection_closed_inv [of user_cb] close_run(2,4) by (auto split: if_splits)
next
  case (api_connect c)
  then show ?case using connect_inv by auto
next
  case (api_disconnect c)
  then show ?case using disconnect_inv by auto
next
  case (api_auto c v)
  then show ?case using setAutoReconnect_inv by auto
qed

definition client_start :: "tcp_client \<Rightarrow> bool" where
  "client_start c \<longleftrightarrow> (\<exists>name i sts. c = TCPClient_new name i sts)"

abbreviation client_run :: "(tcp_client \<Rightarrow> error + tcp_client) \<Rightarrow> tcp_client \<Rightarrow> bool" where
  "client_run user_cb \<equiv> reach client_start (client_step user_cb)"

lemma client_start_inv: "client_start c \<Longrightarrow> client_inv c"
  by (auto simp: client_start_def client_inv_def TCPClient_new_def connects_def)

text \<open>The contract between a client and its user: the connection callback only uses the public interface.\<close>

locale client_user =
  fixes user_cb :: "tcp_client \<Rightarrow> error + tcp_client"
  assumes calls_ok: "user_cb c = Inr d \<Longrightarrow> client_calls c d"
begin

lemma step_inv: "client_inv c \<Longrightarrow> client_step user_cb c (Inr d) \<Longrightarrow> client_inv d"
  using client_step_inv [OF _ calls_ok] by blast

end

sublocale client_user < client: inductive_invariant client_start "client_step user_cb" client_inv
  by unfold_locales (auto intro: client_start_inv step_inv)

context client_user
begin

lemma run_inv: "client_run user_cb c \<Longrightarrow> client_inv c"
  by (rule client.reach_inv)

end

interpretation quiet_user: client_user Inr
  by unfold_locales (auto intro: client_calls.nothing)

section \<open>Staying connected\<close>

text \<open>
  Something is under way that leads to a connection: an attempt, the timer of the next one, or a live connection,
  which is either connected or has the task pending that closes it (and then reconnects).
\<close>

definition live :: "tcp_client \<Rightarrow> uint64 \<Rightarrow> bool" where
  "live c i \<longleftrightarrow> statuses c i = kConnected \<or> statuses c i = kDisconnecting \<and> CloseConnTask i \<in> set (events c)"

definition pursuing :: "tcp_client \<Rightarrow> bool" where
  "pursuing c \<longleftrightarrow> AsyncConnect \<in> set (events c) \<or> ReconnectTimer \<in> set (events c) \<or> (\<exists>i. conn_ptr c = Some i \<and> live c i)"

lemma connecting_pending: "client_inv c \<Longrightarrow> is_connecting c \<Longrightarrow> AsyncConnect \<in> set (events c)"
  by (auto simp: client_inv_def connects_def filter_empty_conv dest!: arg_cong [where f = "\<lambda>n. n = 0"])

lemma connect_pursues: "client_inv c \<Longrightarrow> pursuing (connect c)"
  using connecting_pending [of c] by (auto simp: connect_def pursuing_def ptr_status_def live_def)

lemma client_calls_live: "client_calls c d \<Longrightarrow> live c i \<Longrightarrow> live d i"
  by (induction rule: client_calls.induct)
    (auto simp: live_def connect_def disconnect_def setAutoReconnect_def close_connection_def Let_def rbind_eq_Inr_iff
      split: option.splits if_splits)

lemma newConnection_pursues:
  assumes cb: "\<And>c d. user_cb c = Inr d \<Longrightarrow> client_calls c d"
    and run: "TCPClient_newConnection user_cb ec c = Inr d" and auto: "auto_reconnect d"
  shows "pursuing d"
proof (cases "ec = Success")
  case True
  let ?c = "c\<lparr>is_connecting := False, id_counter := id_counter c + 1, statuses := (statuses c)(id_counter c := kConnected)\<rparr>"
  obtain c2 where r: "user_cb ?c = Inr c2" "d = c2\<lparr>conn_ptr := Some (id_counter c)\<rparr>"
    using run True by (auto simp: TCPClient_newConnection_def Let_def rbind_eq_Inr_iff)
  have "live c2 (id_counter c)" using client_calls_live [OF cb [OF r(1)]] by (simp add: live_def)
  then show ?thesis using r(2) by (simp add: pursuing_def live_def)
next
  case False
  then obtain c2 where d: "d = (if auto_reconnect c2 then c2\<lparr>events := events c2 @ [ReconnectTimer]\<rparr> else c2)"
    using run by (auto simp: TCPClient_newConnection_def Let_def rbind_eq_Inr_iff)
  then have "ReconnectTimer \<in> set (events d)" using auto by (cases "auto_reconnect c2") simp_all
  then show ?thesis by (simp add: pursuing_def)
qed

lemma connection_closed_pursues:
  assumes cb: "\<And>c d. user_cb c = Inr d \<Longrightarrow> client_calls c d" and inv: "client_inv c"
    and run: "connection_closed user_cb i c = Inr d" and auto: "auto_reconnect d"
  shows "pursuing d"
proof -
  obtain c1 where r: "user_cb (c\<lparr>statuses := (statuses c)(i := kDisconnecting)\<rparr>) = Inr c1"
    "rbind (TCPClient_removeConnection i c1) (\<lambda>c2. Inr (c2\<lparr>statuses := (statuses c2)(i := kDisconnected)\<rparr>)) = Inr d"
    using run by (auto simp: connection_closed_def rbind_eq_Inr_iff)
  have "client_inv c1" using client_calls_inv [OF cb [OF r(1)]] inv by simp
  then have "is_connecting c1 \<Longrightarrow> AsyncConnect \<in> set (events c1)" using connecting_pending by blast
  then show ?thesis using r(2) auto
    by (auto simp: TCPClient_removeConnection_def rbind_eq_Inr_iff Let_def reconnect_def connect_def ptr_status_def
        pursuing_def split: if_splits)
qed

lemma client_step_pursues:
  assumes "client_step user_cb c r" and "\<And>c d. user_cb c = Inr d \<Longrightarrow> client_calls c d" and "client_inv c" and "pursuing c"
    and "r = Inr d" and "auto_reconnect d"
  shows "pursuing d"
  using assms
proof (induction rule: client_step.induct)
  case (connected c ec)
  then show ?case using newConnection_pursues [of user_cb] by blast
next
  case (timer c)
  have "client_inv (taken_event ReconnectTimer c)" using taken_event_inv timer(1,3) by blast
  then show ?case using connect_pursues timer(5) by (auto simp: reconnect_def)
next
  case (conn_error c i)
  then show ?case using connection_closed_pursues [of user_cb] by blast
next
  case (close_run i c)
  have "client_inv (taken_event (CloseConnTask i) c)" using taken_event_inv close_run(1,3) by blast
  then show ?case using connection_closed_pursues [of user_cb] close_run(2,5,6) by (auto split: if_splits)
next
  case (api_connect c)
  then show ?case using connect_pursues by auto
next
  case (api_disconnect c)
  then show ?case by (auto simp: disconnect_def Let_def rbind_eq_Inr_iff close_connection_def split: option.splits if_splits)
next
  case (api_auto c v)
  then show ?case by (auto simp: setAutoReconnect_def pursuing_def live_def)
qed

context client_user
begin

lemma keeps_pursuing:
  assumes "(\<lambda>c d. client_step user_cb c (Inr d) \<and> auto_reconnect d)\<^sup>*\<^sup>* c d" and "client_inv c" and "pursuing c"
  shows "client_inv d \<and> pursuing d"
  using assms client_step_pursues [OF _ calls_ok] step_inv by (induction rule: rtranclp_induct) blast+

end

section \<open>Any user\<close>

text \<open>
  The client among users of its interface: an event is handled with any connection callback that keeps to the
  interface, and between events the interface is used in any way.
\<close>

definition polite :: "(tcp_client \<Rightarrow> error + tcp_client) \<Rightarrow> bool" where
  "polite cb \<longleftrightarrow> (\<forall>c d. cb c = Inr d \<longrightarrow> client_calls c d)"

inductive user_step :: "tcp_client \<Rightarrow> error + tcp_client \<Rightarrow> bool" where
  event: "polite cb \<Longrightarrow> client_step cb c r \<Longrightarrow> user_step c r"
| calls: "client_calls c d \<Longrightarrow> user_step c (Inr d)"

inductive_cases user_stepE: "user_step c (Inr d)"

lemma client_calls_pursues: "client_calls c d \<Longrightarrow> client_inv c \<Longrightarrow> pursuing c \<Longrightarrow> pursuing d"
proof (induction rule: client_calls.induct)
  case (call_connect c d)
  then show ?case using connect_pursues client_calls_inv by blast
qed (auto simp: pursuing_def live_def disconnect_def setAutoReconnect_def close_connection_def Let_def rbind_eq_Inr_iff
      split: option.splits if_splits)

lemma user_step_inv: "client_inv c \<Longrightarrow> user_step c (Inr d) \<Longrightarrow> client_inv d"
  by (auto simp: polite_def elim!: user_stepE intro: client_step_inv client_calls_inv)

lemma user_step_pursues: "client_inv c \<Longrightarrow> pursuing c \<Longrightarrow> user_step c (Inr d) \<Longrightarrow> auto_reconnect d \<Longrightarrow> pursuing d"
  by (auto simp: polite_def elim!: user_stepE intro: client_step_pursues client_calls_pursues)

interpretation any_user: inductive_invariant client_start user_step client_inv
  by unfold_locales (auto intro: client_start_inv user_step_inv)

text \<open>A second \<open>disconnect\<close> before the connection has closed fails the assertion on its status.\<close>

lemma disconnect_twice_asserts:
  assumes "conn_ptr c = Some i" and "statuses c i = kConnected"
  shows "\<exists>d. disconnect c = Inr d \<and> disconnect d = Inl AssertFailed"
  using assms by (simp add: disconnect_def close_connection_def)

text \<open>
  \<open>connect\<close> while the old connection is still closing: when the new connection is there first, the close
  callback of the old one fails the assertion that it is the client's connection.
\<close>

lemma connect_while_closing_asserts:
  assumes "conn_ptr c = Some i" and "statuses c i = kDisconnecting" and "\<not> is_connecting c" and "id_counter c \<noteq> i"
  shows "\<exists>d. TCPClient_newConnection Inr Success (taken_event AsyncConnect (connect c)) = Inr d
    \<and> connection_closed Inr i d = Inl AssertFailed"
  using assms by (simp add: connect_def ptr_status_def TCPClient_newConnection_def taken_event_def
      connection_closed_def TCPClient_removeConnection_def Let_def)

section \<open>Recovery\<close>

text \<open>
  The events that wait in the client's loop, and nothing else: the attempt, which succeeds, the timer of the next
  attempt, and the task that closes a connection. The user makes no call, in its callback neither.
\<close>

inductive pending_step :: "tcp_client \<Rightarrow> error + tcp_client \<Rightarrow> bool" where
  attempt: "AsyncConnect \<in> set (events c) \<Longrightarrow> pending_step c (TCPClient_newConnection Inr Success (taken_event AsyncConnect c))"
| timer: "ReconnectTimer \<in> set (events c) \<Longrightarrow> pending_step c (Inr (reconnect (taken_event ReconnectTimer c)))"
| close_run: "CloseConnTask i \<in> set (events c) \<Longrightarrow>
    pending_step c (if statuses c i = kDisconnecting then connection_closed Inr i (taken_event (CloseConnTask i) c)
      else Inl AssertFailed)"

text \<open>The client is connected after at most \<open>n\<close> of them, in a suitable order.\<close>

definition recovers :: "nat \<Rightarrow> tcp_client \<Rightarrow> bool" where
  "recovers n c \<longleftrightarrow> (\<exists>k \<le> n. \<exists>d i. ((\<lambda>a b. pending_step a (Inr b)) ^^ k) c d \<and> conn_ptr d = Some i \<and> statuses d i = kConnected)"

lemma polite_Inr: "polite Inr"
  by (auto simp: polite_def intro: client_calls.nothing)

lemma recovers_now: "ptr_status c = Some kConnected \<Longrightarrow> recovers n c"
  unfolding recovers_def by (intro exI [of _ 0]) (auto simp: ptr_status_def)

lemma recovers_step: "pending_step c (Inr d) \<Longrightarrow> recovers n d \<Longrightarrow> recovers (Suc n) c"
  unfolding recovers_def by (metis Suc_le_mono relpowp_Suc_I2)

lemma attempt_succeeds:
  assumes "AsyncConnect \<in> set (events c)"
  shows "recovers (Suc n) c"
proof -
  obtain d where d: "TCPClient_newConnection Inr Success (taken_event AsyncConnect c) = Inr d" "ptr_status d = Some kConnected"
    by (auto simp: TCPClient_newConnection_def ptr_status_def Let_def)
  then show ?thesis using recovers_step [OF _ recovers_now [OF d(2)]] pending_step.attempt [OF assms] by simp
qed

lemma connect_succeeds: "client_inv c \<Longrightarrow> recovers (Suc n) (connect c)"
  using connecting_pending [of c] attempt_succeeds [of "connect c" n] recovers_now [of "connect c" "Suc n"]
  by (auto simp: connect_def split: if_splits)

lemma closing_reconnects:
  assumes inv: "client_inv c" and auto: "auto_reconnect c" and i: "conn_ptr c = Some i" "statuses c i = kDisconnecting" "CloseConnTask i \<in> set (events c)"
  shows "\<exists>d. pending_step c (Inr d) \<and> AsyncConnect \<in> set (events d)"
proof -
  let ?c = "taken_event (CloseConnTask i) c"
  let ?k = "?c\<lparr>statuses := (statuses ?c)(i := kDisconnecting), conn_ptr := None\<rparr>"
  let ?d = "(connect ?k)\<lparr>statuses := (statuses (connect ?k))(i := kDisconnected)\<rparr>"
  have "connection_closed Inr i ?c = Inr ?d"
    using auto i(1) by (simp add: connection_closed_def TCPClient_removeConnection_def reconnect_def taken_event_def)
  then have "pending_step c (Inr ?d)" using pending_step.close_run [OF i(3)] i(2) by simp
  moreover have "client_inv ?c" using taken_event_inv [OF inv i(3)] by simp
  then have "AsyncConnect \<in> set (events ?d)" using connecting_pending [of ?c] by (simp add: connect_def ptr_status_def)
  ultimately show ?thesis by blast
qed

lemma pursuing_recovers:
  assumes inv: "client_inv c" and "pursuing c" and "auto_reconnect c"
  shows "recovers 2 c"
  using assms(2) unfolding pursuing_def
proof (elim disjE exE conjE)
  assume "AsyncConnect \<in> set (events c)"
  then show ?thesis using attempt_succeeds [of c 1] by (simp add: numeral_2_eq_2)
next
  assume t: "ReconnectTimer \<in> set (events c)"
  have "client_inv (taken_event ReconnectTimer c)" using taken_event_inv [OF inv t] by simp
  then show ?thesis using recovers_step [OF pending_step.timer [OF t] connect_succeeds [of _ 0, folded reconnect_def]] by (simp add: numeral_2_eq_2)
next
  fix i assume i: "conn_ptr c = Some i" "Tcp_Client.live c i"
  show ?thesis
  proof (cases "statuses c i = kConnected")
    case True
    then show ?thesis using i(1) recovers_now by (simp add: ptr_status_def)
  next
    case False
    then obtain d where d: "pending_step c (Inr d)" "AsyncConnect \<in> set (events d)"
      using closing_reconnects [OF inv assms(3) i(1)] i(2) by (auto simp: Tcp_Client.live_def)
    show ?thesis using recovers_step [OF d(1) attempt_succeeds [OF d(2), of 0]] by (simp add: numeral_2_eq_2)
  qed
qed

section \<open>Properties\<close>

text \<open>
  The client never has two connection attempts in flight: in every reachable state an
  \<open>async_connect\<close> is pending exactly when \<open>is_connecting_\<close> is set, and then there is only one, however
  \<open>connect\<close>, \<open>disconnect\<close>, the reconnect timer, lost connections and the user's callback interleave.
\<close>

theorem client_single_connect:
  assumes "client_run user_cb c" and "\<And>c d. user_cb c = Inr d \<Longrightarrow> client_calls c d"
  shows "connects c = (if is_connecting c then 1 else 0)"
  using client_user.run_inv [OF client_user.intro [OF assms(2)] assms(1)] by (simp add: client_inv_def)

theorem client_single_connect_witness:
  "let c = connect (TCPClient_new ''c'' 1 (\<lambda>_. kDisconnected)) in connects c = 1 \<and> is_connecting c"
proof -
  let ?c = "connect (TCPClient_new ''c'' 1 (\<lambda>_. kDisconnected))"
  have "client_run Inr ?c" 
  proof (rule reach.step)
    show "client_run Inr (TCPClient_new ''c'' 1 (\<lambda>_. kDisconnected))" by (rule reach.init) (auto simp: client_start_def)
  qed (rule client_step.api_connect)
  moreover have "client_calls x y" if "(Inr x :: error + tcp_client) = Inr y" for x y
    using that client_calls.nothing by auto
  ultimately have "connects ?c = (if is_connecting ?c then 1 else 0)"
    by (rule client_single_connect)
  moreover have "is_connecting ?c" by (simp add: connect_def TCPClient_new_def ptr_status_def)
  ultimately show ?thesis by simp
qed

text \<open>
  A client that has been told to connect never gives up while \<open>auto_reconnect_\<close> is set: from \<open>connect\<close> on, in every
  interleaving of failed attempts, timers, lost and closed connections and calls of the user, an attempt or the timer of the next one is
  pending, or the client has a connection that is up or about to be closed by a pending task.
\<close>

theorem client_keeps_connecting:
  assumes "client_run user_cb c" and "\<And>c d. user_cb c = Inr d \<Longrightarrow> client_calls c d"
    and "(\<lambda>c d. client_step user_cb c (Inr d) \<and> auto_reconnect d)\<^sup>*\<^sup>* (connect c) d"
  shows "AsyncConnect \<in> set (events d) \<or> ReconnectTimer \<in> set (events d) \<or> (\<exists>i. conn_ptr d = Some i \<and> live d i)"
proof -
  have u: "client_user user_cb" using assms(2) by (rule client_user.intro)
  have "client_inv c" using client_user.run_inv [OF u assms(1)] .
  then show ?thesis
    using client_user.keeps_pursuing [OF u assms(3) connect_inv connect_pursues] by (simp add: pursuing_def)
qed

text \<open>An attempt that fails and is repeated by the timer.\<close>

theorem client_keeps_connecting_witness:
  "let d = reconnect (taken_event ReconnectTimer
       ((TCPClient_new ''c'' 1 (\<lambda>_. kDisconnected))\<lparr>events := [ReconnectTimer]\<rparr>))
   in AsyncConnect \<in> set (events d) \<or> ReconnectTimer \<in> set (events d) \<or> (\<exists>i. conn_ptr d = Some i \<and> live d i)"
proof -
  let ?c = "TCPClient_new ''c'' 1 (\<lambda>_. kDisconnected)"
  let ?c1 = "?c\<lparr>events := [ReconnectTimer]\<rparr>" and ?R = "\<lambda>c d. client_step Inr c (Inr d) \<and> auto_reconnect d"
  have "client_step Inr (connect ?c) (TCPClient_newConnection Inr Failure (taken_event AsyncConnect (connect ?c)))"
    by (rule client_step.connected) (simp add: connect_def TCPClient_new_def ptr_status_def)
  then have s1: "?R (connect ?c) ?c1"
    by (simp add: connect_def TCPClient_new_def ptr_status_def taken_event_def TCPClient_newConnection_def)
  have "client_step Inr ?c1 (Inr (reconnect (taken_event ReconnectTimer ?c1)))" by (rule client_step.timer) simp
  then have s2: "?R ?c1 (reconnect (taken_event ReconnectTimer ?c1))"
    by (simp add: reconnect_def connect_def TCPClient_new_def ptr_status_def taken_event_def)
  have run: "client_run Inr ?c" by (rule reach.init) (auto simp: client_start_def)
  have calls: "client_calls x y" if "(Inr x :: error + tcp_client) = Inr y" for x y
    using that client_calls.nothing by auto
  have path: "?R\<^sup>*\<^sup>* (connect ?c) (reconnect (taken_event ReconnectTimer ?c1))"
    using s1 s2 by (rule converse_rtranclp_into_rtranclp [OF _ r_into_rtranclp])
  show ?thesis unfolding Let_def by (rule client_keeps_connecting [OF run calls path])
qed

text \<open>
  C16. A client recovers by itself: from every state reachable after \<open>connect\<close> while \<open>auto_reconnect_\<close> is set, whatever has
  happened to its attempts and connections, at most two of the events that are pending in its loop by then (the timer, the close task,
  the \<open>async_connect\<close>), taken in a suitable order, with the attempt succeeding and no call of the user, end with the client's pointer
  at a connected connection.
\<close>

theorem client_recovers:
  assumes "reach client_start user_step c" and "(\<lambda>c d. user_step c (Inr d) \<and> auto_reconnect d)\<^sup>*\<^sup>* (connect c) d" and "auto_reconnect d"
  shows "\<exists>k \<le> 2. \<exists>e i. ((\<lambda>a b. pending_step a (Inr b)) ^^ k) d e \<and> conn_ptr e = Some i \<and> statuses e i = kConnected"
proof -
  have inv: "client_inv c" by (rule any_user.reach_inv [OF assms(1)])
  have "client_inv d \<and> pursuing d"
    using assms(2) by (induction rule: rtranclp_induct) (use connect_inv [OF inv] connect_pursues [OF inv] user_step_inv user_step_pursues in blast)+
  then show ?thesis using pursuing_recovers [of d] assms(3) by (simp add: recovers_def)
qed

text \<open>After an attempt that has failed.\<close>

theorem client_recovers_witness:
  "let d = (TCPClient_new ''c'' 1 (\<lambda>_. kDisconnected))\<lparr>events := [ReconnectTimer]\<rparr> in
   \<exists>k \<le> 2. \<exists>e i. ((\<lambda>a b. pending_step a (Inr b)) ^^ k) d e \<and> conn_ptr e = Some i \<and> statuses e i = kConnected"
proof -
  let ?c = "TCPClient_new ''c'' 1 (\<lambda>_. kDisconnected)"
  let ?d = "?c\<lparr>events := [ReconnectTimer]\<rparr>"
  have "client_step Inr (connect ?c) (TCPClient_newConnection Inr Failure (taken_event AsyncConnect (connect ?c)))"
    by (rule client_step.connected) (simp add: connect_def TCPClient_new_def ptr_status_def)
  then have "user_step (connect ?c) (Inr ?d)"
    using user_step.event [OF polite_Inr] by (simp add: connect_def TCPClient_new_def ptr_status_def taken_event_def TCPClient_newConnection_def)
  then have path: "(\<lambda>c d. user_step c (Inr d) \<and> auto_reconnect d)\<^sup>*\<^sup>* (connect ?c) ?d"
    by (intro r_into_rtranclp) (simp add: TCPClient_new_def)
  have start: "reach client_start user_step ?c" by (rule reach.init) (auto simp: client_start_def)
  show ?thesis unfolding Let_def by (rule client_recovers [OF start path]) (simp add: TCPClient_new_def)
qed

text \<open>
  A client whose user has set no connection callback fails with its first connection, and the
  message callback likewise: \<open>TCPClient\<close>, unlike \<open>TCPServer\<close>, does not initialise its callbacks, so
  \<open>connectEstablished\<close> of a connection with a socket calls an empty \<open>std::function\<close>.
\<close>

theorem client_without_callback_fails:
  assumes "socket (conn s) \<noteq> None"
  shows "connectEstablished (TCPClient_conn_callbacks client_callbacks_new remove) s = Inl BadFunctionCall
    \<and> connectEstablished (TCPClient_conn_callbacks (TCPClient_setMessageCallback f client_callbacks_new) remove) s = Inl BadFunctionCall"
  using assms by (auto simp: connectEstablished_def TCPClient_conn_callbacks_def client_callbacks_new_def
      TCPClient_setMessageCallback_def call_def call_function_def)

theorem client_without_callback_fails_witness:
  "connectEstablished (TCPClient_conn_callbacks client_callbacks_new Inr) idle_world = Inl BadFunctionCall"
  using client_without_callback_fails [of idle_world Inr Inr] by (simp add: idle_world_def TCPConn_new_def)

end
