(* ===== verification/Echo_App.thy ===== *)
theory Echo_App
  imports Codec_Conn Tcp_Server Tcp_Client Logging
begin

text \<open>
  The programs \<^verbatim>\<open>src/examples/echo/echo_server/echo_server/echo_server.cpp\<close> and
  \<^verbatim>\<open>src/examples/echo/echo_client/echo_client/echo_client.cpp\<close>: the composition of server or client,
  connection, codec and dispatcher. The code that protoc generates for the two messages, with the
  descriptors, is a parameter, a record of theory \<open>Codec\<close> and the functions that give descriptors.
\<close>

section \<open>Messages\<close>

text \<open>The two messages of \<^verbatim>\<open>echo.proto\<close>, and messages of other types that the program knows, by their type name.\<close>

datatype echo_message = Request uint64 "byte list" | Response uint64 "byte list" | Other "byte list"

record 'd echo_pb =
  pb_api :: "('d, echo_message) protobuf_api"
  pb_descriptor :: "echo_message \<Rightarrow> 'd"
  request_descriptor :: 'd
  response_descriptor :: 'd

definition text_of :: "byte list \<Rightarrow> string" where
  "text_of bs = map (\<lambda>b. char_of (unat b)) bs"

section \<open>The server\<close>

record 'io echo_server =
  echo_tcp_server :: "'io tcp_server"
  connection_cnt :: uint32
  last_second_recv_cnt :: uint64
  total_recv_cnt :: uint64
  log_lines :: "(LogLevel \<times> string) list"

definition EchoServer_new :: "'io event_loop \<Rightarrow> 'io echo_server" where
  "EchoServer_new loop = \<lparr>echo_tcp_server = TCPServer_new loop ''EchoServer'' 0, connection_cnt = 0, last_second_recv_cnt = 0,
     total_recv_cnt = 0, log_lines = []\<rparr>"

definition upd_user :: "('u \<Rightarrow> 'u) \<Rightarrow> 'u world \<Rightarrow> 'u world" where
  "upd_user f s = s\<lparr>user := f (user s)\<rparr>"

definition EchoServer_onConnectionCallback :: "'io echo_server callback" where
  "EchoServer_onConnectionCallback s =
     Inr (if isConnected (conn s) then upd_user (connection_cnt_update (\<lambda>n. n + 1)) s
          else if isDisconnecting (conn s) then upd_user (connection_cnt_update (\<lambda>n. n - 1)) s
          else s)"

definition EchoServer_onUnknownMessage :: "'d echo_pb \<Rightarrow> echo_message \<Rightarrow> 'io echo_server callback" where
  "EchoServer_onUnknownMessage pb msg s =
     Inr (TCPConn_close (upd_user (log_lines_update (\<lambda>l. l @ [(info, ''onUnknownMessage: '' @ text_of (GetTypeName (pb_api pb) msg))])) s))"

text \<open>
  \<open>onRequest\<close> runs in the loop of the connection. The dispatcher has cast the message to its type;
  reading the fields of a message of another type is an access outside the object.
\<close>

definition EchoServer_onRequest :: "'d echo_pb \<Rightarrow> echo_message \<Rightarrow> 'io echo_server callback" where
  "EchoServer_onRequest pb msg s =
     (let s1 = upd_user (\<lambda>u. u\<lparr>last_second_recv_cnt := last_second_recv_cnt u + 1, total_recv_cnt := total_recv_cnt u + 1\<rparr>) s in
      case msg of Request i ask \<Rightarrow> ProtobufCodec_send True (pb_api pb) (Response i ask) s1 | _ \<Rightarrow> Inl OutOfBounds)"

definition EchoServer_showInfo :: "'io echo_server \<Rightarrow> string \<times> 'io echo_server" where
  "EchoServer_showInfo u =
     (''connection_cnt:'' @ show_int (sint (connection_cnt u)) @ '' last_second_recv_cnt: '' @ show_int (sint (last_second_recv_cnt u))
        @ '' total_recv_cnt: '' @ show_int (sint (total_recv_cnt u)),
      u\<lparr>last_second_recv_cnt := 0\<rparr>)"

text \<open>The dispatcher, the codec and the callbacks the constructor sets up.\<close>

definition EchoServer_dispatcher :: "'d echo_pb \<Rightarrow> ('d, echo_message, 'io echo_server world) dispatcher" where
  "EchoServer_dispatcher pb = registerMessageCallback (request_descriptor pb) (EchoServer_onRequest pb)
     (ProtobufDispatcher_new (EchoServer_onUnknownMessage pb))"

definition EchoServer_codec :: "'d echo_pb \<Rightarrow> (echo_message, 'io echo_server) protobuf_codec" where
  "EchoServer_codec pb = ProtobufCodec_new (\<lambda>msg. onProtobufMessage (pb_descriptor pb) (EchoServer_dispatcher pb) (Some msg))"

definition EchoServer_callbacks :: "'d echo_pb \<Rightarrow> ('io echo_server, 'addr) server_callbacks" where
  "EchoServer_callbacks pb = TCPServer_setMessageCallback (codec_onMessage (pb_api pb) (EchoServer_codec pb))
     (TCPServer_setConnectionCallback EchoServer_onConnectionCallback server_callbacks_new)"

text \<open>The callbacks of a connection of the server.\<close>

definition EchoServer_conn_callbacks :: "'d echo_pb \<Rightarrow> 'io echo_server conn_callbacks" where
  "EchoServer_conn_callbacks pb = TCPServer_conn_callbacks (EchoServer_callbacks pb :: ('io echo_server, nat) server_callbacks)
     (\<lambda>s. Inr (upd_user (echo_tcp_server_update (TCPServer_removeConnection (conn_id (conn s)))) s))"

text \<open>\<open>start\<close>: the timer that shows the counters is \<open>runEvery\<close> on the base loop; \<open>show_info\<close> is its functor.\<close>

definition EchoServer_start :: "('f, 'io, 't) pool_env \<Rightarrow> 'f \<Rightarrow> 'io echo_server \<Rightarrow> 'io event_loop \<Rightarrow> error + ('io echo_server \<times> 'io event_loop)" where
  "EchoServer_start e show_info u l =
     rbind (TCPServer_start e (echo_tcp_server u)) (\<lambda>t.
     let (timer, l1) = runEvery (env_api e) 1000000 show_info l in Inr (u\<lparr>echo_tcp_server := t\<rparr>, l1))"

text \<open>\<open>_tmain\<close> until the loop blocks, with what it prints; then \<open>server stoped!\<close> and the result 0.\<close>

definition EchoServer_main :: "('f, 'io, 't) pool_env \<Rightarrow> 'f \<Rightarrow> error + (string list \<times> 'io echo_server \<times> 'io event_loop)" where
  "EchoServer_main e show_info =
     (let l = EventLoop_new (env_api e); u = EchoServer_new l;
          out = [''server running:'', ''listen: ip: 0.0.0.0 port: 8765'']
      in rbind (EchoServer_start e show_info u l) (\<lambda>(u1, l1).
         Inr (out, u1, EventLoop_start_enter (env_api e) (env_self e) l1)))"

definition EchoServer_main_leave :: "'io event_loop \<Rightarrow> string \<times> int \<times> 'io event_loop" where
  "EchoServer_main_leave l = (''server stoped!'', 0, EventLoop_start_leave l)"

section \<open>The client\<close>

record echo_client =
  tcpClients :: "uint64 \<Rightarrow> tcp_client option"
  request_id :: uint64
  client_connection_cnt :: uint32
  client_last_second_recv_cnt :: uint64
  client_total_recv_cnt :: uint64
  fix_data :: "byte list"

definition EchoClient_new :: echo_client where
  "EchoClient_new = \<lparr>tcpClients = (\<lambda>_. None), request_id = 0, client_connection_cnt = 0, client_last_second_recv_cnt = 0,
     client_total_recv_cnt = 0, fix_data = replicate 1024 97\<rparr>"

text \<open>\<open>request.set_id(request_id_++)\<close>\<close>

definition next_request :: "echo_client world \<Rightarrow> uint64 \<times> echo_client world" where
  "next_request s = (request_id (user s), upd_user (request_id_update (\<lambda>n. n + 1)) s)"

definition EchoClient_onConnectionCallback :: "'d echo_pb \<Rightarrow> echo_client callback" where
  "EchoClient_onConnectionCallback pb s =
     (if isConnected (conn s)
      then let (i, s1) = next_request (upd_user (client_connection_cnt_update (\<lambda>n. n + 1)) s)
           in ProtobufCodec_send True (pb_api pb) (Request i (fix_data (user s1))) s1
      else if isDisconnecting (conn s) then Inr (upd_user (client_connection_cnt_update (\<lambda>n. n - 1)) s)
      else Inr s)"

definition EchoClient_onUnknownMessage :: "echo_message \<Rightarrow> echo_client callback" where
  "EchoClient_onUnknownMessage msg s = Inr (TCPConn_close s)"

definition EchoClient_onResponse :: "'d echo_pb \<Rightarrow> echo_message \<Rightarrow> echo_client callback" where
  "EchoClient_onResponse pb msg s =
     (let s1 = upd_user (\<lambda>u. u\<lparr>client_last_second_recv_cnt := client_last_second_recv_cnt u + 1,
            client_total_recv_cnt := client_total_recv_cnt u + 1\<rparr>) s;
          (i, s2) = next_request s1
      in case msg of Response _ answer \<Rightarrow> ProtobufCodec_send True (pb_api pb) (Request i answer) s2 | _ \<Rightarrow> Inl OutOfBounds)"

definition EchoClient_showInfo :: "echo_client \<Rightarrow> string \<times> echo_client" where
  "EchoClient_showInfo u =
     (''connection_cnt:'' @ show_int (sint (client_connection_cnt u)) @ '' last_second_recv_cnt: ''
        @ show_int (sint (client_last_second_recv_cnt u)) @ '' total_recv_cnt: '' @ show_int (sint (client_total_recv_cnt u)),
      u\<lparr>client_last_second_recv_cnt := 0\<rparr>)"

text \<open>The dispatcher after the \<open>n\<close> registrations of \<open>start\<close>, which are all the same.\<close>

definition EchoClient_dispatcher :: "nat \<Rightarrow> 'd echo_pb \<Rightarrow> ('d, echo_message, echo_client world) dispatcher" where
  "EchoClient_dispatcher n pb = register_all (replicate n (response_descriptor pb, EchoClient_onResponse pb))
     (ProtobufDispatcher_new EchoClient_onUnknownMessage)"

definition EchoClient_codec :: "nat \<Rightarrow> 'd echo_pb \<Rightarrow> (echo_message, echo_client) protobuf_codec" where
  "EchoClient_codec n pb = ProtobufCodec_new (\<lambda>msg. onProtobufMessage (pb_descriptor pb) (EchoClient_dispatcher n pb) (Some msg))"

definition EchoClient_callbacks :: "nat \<Rightarrow> 'd echo_pb \<Rightarrow> echo_client client_callbacks" where
  "EchoClient_callbacks n pb = TCPClient_setMessageCallback (codec_onMessage (pb_api pb) (EchoClient_codec n pb))
     (TCPClient_setConnectionCallback (EchoClient_onConnectionCallback pb) client_callbacks_new)"

text \<open>The callbacks of a connection of the client with number \<open>k\<close>.\<close>

definition EchoClient_conn_callbacks :: "nat \<Rightarrow> 'd echo_pb \<Rightarrow> uint64 \<Rightarrow> echo_client conn_callbacks" where
  "EchoClient_conn_callbacks n pb k = TCPClient_conn_callbacks (EchoClient_callbacks n pb)
     (\<lambda>s. case tcpClients (user s) k of
        None \<Rightarrow> Inl UseAfterFree
      | Some c \<Rightarrow> rbind (TCPClient_removeConnection (conn_id (conn s)) c) (\<lambda>c1.
          Inr (upd_user (tcpClients_update (\<lambda>m. m(k \<mapsto> c1))) s)))"

text \<open>The loop of \<open>start\<close> over \<open>i\<close>: \<open>counter\<close> is the global counter of connection ids.\<close>

primrec start_clients :: "nat \<Rightarrow> uint64 \<Rightarrow> (uint64 \<Rightarrow> tcp_client option) \<Rightarrow> (uint64 \<Rightarrow> tcp_client option)" where
  "start_clients 0 counter m = m"
| "start_clients (Suc n) counter m =
     (start_clients n counter m)(word_of_nat n \<mapsto> connect (TCPClient_new ''TcpClientTest'' counter (\<lambda>_. kDisconnected)))"

definition EchoClient_start :: "('f, 'io, 't) io_api \<Rightarrow> 'f \<Rightarrow> nat \<Rightarrow> uint64 \<Rightarrow> echo_client \<Rightarrow> 'io event_loop \<Rightarrow> echo_client \<times> 'io event_loop" where
  "EchoClient_start api show_info connection_count counter u l =
     (let u1 = u\<lparr>tcpClients := start_clients connection_count counter (tcpClients u)\<rparr>;
          (timer, l1) = runEvery api 1000000 show_info l
      in (u1, l1))"

definition EchoClient_main :: "('f, 'io, 't) io_api \<Rightarrow> 'f \<Rightarrow> nat \<Rightarrow> string list \<times> echo_client \<times> 'io event_loop" where
  "EchoClient_main api show_info self =
     (let l = EventLoop_new api; u = EchoClient_new;
          out = [''client running:'', ''remote: ip: 127.0.0.1 port: 8765 connection cnt: 10000''];
          (u1, l1) = EchoClient_start api show_info 10000 1 u l
      in (out, u1, EventLoop_start_enter api self l1))"

section \<open>The contract of the generated code\<close>

definition bytes_of :: "string \<Rightarrow> byte list" where
  "bytes_of t = map (\<lambda>c. word_of_nat (of_char c)) t"

text \<open>
  What the programs rely on in \<^verbatim>\<open>echo.pb.cc\<close> and the protobuf library: the descriptors tell the two
  types apart, the pool finds a type by its name (also with the terminating zero the codec leaves at
  the end of it, since the lookup goes through a C string), and parsing what was serialised gives the
  message back, for messages whose frame fits in one piece. The parser's verdict may be false: the generated
  parser rejects a text that is not UTF-8 after it has read all fields, and the codec does not look at the verdict.
\<close>

locale echo_messages =
  fixes pb :: "'d echo_pb"
  assumes descr_request: "pb_descriptor pb (Request i ask) = request_descriptor pb"
    and descr_response: "pb_descriptor pb (Response i answer) = response_descriptor pb"
    and descr_distinct: "request_descriptor pb \<noteq> response_descriptor pb"
    and name_request: "GetTypeName (pb_api pb) (Request i ask) = bytes_of ''Echo.Request''"
    and name_response: "GetTypeName (pb_api pb) (Response i answer) = bytes_of ''Echo.Response''"
    and find_request: "createMessage (pb_api pb) (bytes_of ''Echo.Request'' @ [0]) = Some (Request 0 [])"
    and find_response: "createMessage (pb_api pb) (bytes_of ''Echo.Response'' @ [0]) = Some (Response 0 [])"
    and parse_request: "length (frame_bytes (pb_api pb) (Request i ask)) \<le> kPieceCapacity \<Longrightarrow>
      \<exists>ok. reads_all (parser (pb_api pb) (Request 0 [])) (concat (raw_writes (pb_api pb) (Request i ask))) (ok, Request i ask)"
    and parse_response: "length (frame_bytes (pb_api pb) (Response i answer)) \<le> kPieceCapacity \<Longrightarrow>
      \<exists>ok. reads_all (parser (pb_api pb) (Response 0 [])) (concat (raw_writes (pb_api pb) (Response i answer))) (ok, Response i answer)"

section \<open>A connection that serves\<close>

text \<open>
  Both sides of an open connection: it waits for data with an empty input buffer, its read in the
  piece \<open>a\<close>; \<open>fl\<close> and \<open>oas\<close> are the pieces of the output side, \<open>L\<close> the pieces \<open>readPiece\<close> has leaked.
\<close>

definition serving :: "'u world \<Rightarrow> addr \<Rightarrow> addr option \<Rightarrow> addr list \<Rightarrow> addr set \<Rightarrow> bool" where
  "serving s a fl oas L \<longleftrightarrow> awaits s a [] (set oas \<union> set_option fl \<union> L) \<and> sender s fl oas (insert a L)
     \<and> status (conn s) = kConnected"

lemma filter_read_others: "filter is_read (pending s) = filter is_read (others s)"
proof -
  have "filter is_read (filter (\<lambda>r. \<not> is_send r) xs) = filter is_read xs" for xs
    by (rule trans [OF filter_filter], rule filter_cong) (auto elim: is_readE)
  then show ?thesis by (simp add: others_def)
qed

lemma others_delivered: "filter is_read (others (delivered n m b s)) = []"
  by (auto simp: others_def delivered_def filter_empty_conv)

lemma sender_delivered:
  assumes "sender (s\<lparr>cmem := m\<rparr>) fl oas F"
  shows "sender (delivered n m b s) fl oas F"
    and "outgoing (delivered n m b s) fl oas = outgoing (s\<lparr>cmem := m\<rparr>) fl oas"
proof -
  have "filter is_send (filter (\<lambda>r. \<not> is_read r) xs) = filter is_send xs" for xs
    by (rule trans [OF filter_filter], rule filter_cong) (auto elim: is_sendE)
  then show "sender (delivered n m b s) fl oas F" using assms by (simp add: sender_def delivered_def)
  show "outgoing (delivered n m b s) fl oas = outgoing (s\<lparr>cmem := m\<rparr>) fl oas"
    by (cases fl) (simp_all add: outgoing_def delivered_def)
qed

lemma sender_cong:
  assumes "sender s fl oas F" and "cmem t = cmem s" "output_buffer (conn t) = output_buffer (conn s)"
    "is_sending (conn t) = is_sending (conn s)" "socket (conn t) = socket (conn s)" "filter is_send (pending t) = filter is_send (pending s)"
  shows "sender t fl oas F" and "outgoing t fl oas = outgoing s fl oas"
  using assms by (auto simp: sender_def outgoing_def)

text \<open>The end of a handled read: the input buffer is empty and the next read starts.\<close>

lemma resume_reading:
  assumes snd: "sender s fl oas L" and st: "status (conn s) = kConnected" and rd: "filter is_read (pending s) = []"
  shows "\<exists>s' a. launchRead (upd_conn (input_buffer_update (\<lambda>_. Buffer_new)) s) = Inr s' \<and> serving s' a fl oas L
    \<and> outgoing s' fl oas = outgoing s fl oas \<and> user s' = user s \<and> frame (cmem s) (cmem s') L"
proof -
  let ?G = "set oas \<union> (set_option fl \<union> L)" and ?t = "upd_conn (input_buffer_update (\<lambda>_. Buffer_new)) s"
  have inv: "mem_inv (cmem ?t) ?G" and sock: "socket (conn ?t) \<noteq> None" using snd by (auto simp: sender_def bchain_def)
  obtain a m c where l: "launchRead ?t = Inr (request (AsyncRead a) (?t\<lparr>cmem := m\<rparr>))" "a \<notin> ?G" "mem_inv m (insert a ?G)"
    "cells m a = Some c" "off c = 0" "frame (cmem ?t) m ?G"
    using launchRead_ok [OF inv sock] by blast
  let ?s = "request (AsyncRead a) (?t\<lparr>cmem := m\<rparr>)"
  have "frame (cmem s) m (set oas \<union> set_option fl)"
    using frame_mono [OF l(6), of "set oas \<union> set_option fl"] by auto
  moreover have "mem_inv m (set oas \<union> (set_option fl \<union> insert a L))" using l(3) by (simp add: Un_assoc)
  moreover have "(set oas \<union> set_option fl) \<inter> insert a L = {}" using l(2) snd by (auto simp: sender_def bchain_def)
  ultimately have f: "sender (s\<lparr>cmem := m\<rparr>) fl oas (insert a L)" "outgoing (s\<lparr>cmem := m\<rparr>) fl oas = outgoing s fl oas"
    using sender_frame [OF snd] by blast+
  have "sender ?s fl oas (insert a L)" by (rule sender_cong(1) [OF f(1)]) simp_all
  moreover have "outgoing ?s fl oas = outgoing s fl oas" unfolding f(2) [symmetric] by (rule sender_cong(2) [OF f(1)]) simp_all
  moreover have "in_one m Buffer_new [] (insert a (set oas \<union> set_option fl \<union> L))"
    using l(3) by (simp add: in_one_def bchain_def Buffer_new_def queue_rep_def Un_assoc)
  then have "awaits ?s a [] (set oas \<union> set_option fl \<union> L)" using l(2,4,5) rd sock by (auto simp: awaits_def)
  moreover have "frame (cmem s) m L" using frame_mono [OF l(6), of L] by auto
  ultimately show ?thesis using l(1) st by (intro exI [of _ ?s] exI [of _ a]) (simp add: serving_def)
qed

text \<open>A completed write does not touch the input side.\<close>

lemma serve_written:
  assumes sv: "serving s a (Some f) oas L"
  shows "\<exists>s' fl' oas' L'. handleWrite cbs f Success (taken (AsyncSend f) s) = Inr s' \<and> serving s' a fl' oas' L'
    \<and> outgoing s (Some f) oas = cell_bytes (cells (cmem s)) f @ outgoing s' fl' oas' \<and> user s' = user s
    \<and> L \<subseteq> L' \<and> frame (cmem s) (cmem s') L \<and> (fl' = None \<longrightarrow> outgoing s' fl' oas' = []) \<and> length oas' \<le> length oas
    \<and> (fl' = None \<or> length oas' < length oas)"
proof -
  have snd: "sender s (Some f) oas (insert a L)" and aw: "awaits s a [] (set oas \<union> set_option (Some f) \<union> L)"
    using sv by (simp_all add: serving_def)
  obtain s' fl' oas' L1 where r: "handleWrite cbs f Success (taken (AsyncSend f) s) = Inr s'" "sender s' fl' oas' (L1 \<union> insert a L)"
    "outgoing s' fl' oas' = chain_bytes (cells (cmem s)) oas" "frame (cmem s) (cmem s') (insert a L)"
    "status (conn s') = status (conn s)" "input_buffer (conn s') = input_buffer (conn s)" "L1 \<inter> insert a L = {}"
    "fl' = None \<longrightarrow> outgoing s' fl' oas' = []" "length oas' \<le> length oas" "fl' = None \<or> length oas' < length oas"
    using handleWrite_ok [OF snd, of cbs] by blast
  obtain c where c: "cells (cmem s) a = Some c" "off c = 0" using aw by (auto simp: awaits_def)
  have inv: "mem_inv (cmem s') (insert a (set oas' \<union> set_option fl' \<union> (L1 \<union> L)))"
    using r(2) by (auto simp: sender_def bchain_def ac_simps)
  obtain as where as: "bchain (cmem s) (input_buffer (conn s)) as (insert a (set oas \<union> set_option (Some f) \<union> L))" "as = []"
    "blength (input_buffer (conn s)) = 0" using aw by (auto simp: awaits_def in_one_def)
  then have "in_one (cmem s') (input_buffer (conn s')) [] (insert a (set oas' \<union> set_option fl' \<union> (L1 \<union> L)))"
    using inv r(6) by (auto simp: in_one_def bchain_def queue_rep_def)
  moreover have "a \<notin> set oas' \<union> set_option fl' \<union> (L1 \<union> L)" using r(2,7) aw by (auto simp: sender_def bchain_def awaits_def)
  moreover have "cells (cmem s') a = Some c" using r(4) c(1) by (simp add: frame_def)
  moreover have "filter is_read (pending s') = [AsyncRead a]"
    using handleWrite_keeps [OF r(1)] aw filter_read_others [of s] filter_read_others [of s'] by (simp add: awaits_def)
  ultimately have "awaits s' a [] (set oas' \<union> set_option fl' \<union> (L1 \<union> L))" using c(2) r(2) by (auto simp: awaits_def sender_def)
  then have "serving s' a fl' oas' (L1 \<union> L)" using r(2,5) sv by (simp add: serving_def)
  then show ?thesis using r(1,3,8-10) handleWrite_keeps [OF r(1)] frame_mono [OF r(4), of L]
    by (intro exI [of _ s'] exI [of _ fl'] exI [of _ oas'] exI [of _ "L1 \<union> L"]) (auto simp: outgoing_def)
qed

text \<open>A message whose callback answers with one message: the answer is appended to what goes out.\<close>

lemma serve_message:
  assumes sv: "serving s a fl oas L" and cb: "message_cb cbs = ProtobufCodec_onMessage api mcb ecb"
    and size: "10 \<le> length (payload api msg)" "length (frame_bytes api msg) \<le> kPieceCapacity"
    and p: "createMessage api (GetTypeName api msg @ [0]) = Some p"
      "reads_all (parser api p) (concat (raw_writes api msg)) (ok, msg)"
    and mcb: "\<And>w. mcb msg w = ProtobufCodec_send True api (reply (user w)) (upd_user f w)"
    and fits: "length (frame_bytes api (reply (user s))) < kPieceCapacity"
    and ds: "concat ds = frame_bytes api msg" "\<forall>d \<in> set ds. d \<noteq> []"
    and room: "length ds = 1 \<or> pool_room (cmem s) \<and> unat (using_count (pool (cmem s))) + 8 < 2 ^ 32"
  shows "\<exists>s' a' fl' oas' L'. receive cbs ds s = Inr s' \<and> serving s' a' fl' oas' L'
    \<and> outgoing s' fl' oas' = outgoing s fl oas @ frame_bytes api (reply (user s)) \<and> user s' = f (user s)
    \<and> L \<subseteq> L' \<and> frame (cmem s) (cmem s') L \<and> fl' \<noteq> None \<and> length oas' \<le> Suc (length oas)"
proof -
  let ?F = "set oas \<union> set_option fl \<union> L"
  have aw: "awaits s a [] ?F" and snd: "sender s fl oas (insert a L)" and st: "status (conn s) = kConnected"
    using sv by (auto simp: serving_def)
  have "ds \<noteq> []" using ds(1) by (auto simp: frame_bytes_def le_bytes_ne)
  then obtain m b where r: "mem_inv m ?F" "frame (cmem s) m ?F" "receive cbs ds s =
     rbind (rbind (mcb msg (delivered (length ds) m b s)) (\<lambda>s2. Inr (upd_conn (input_buffer_update (\<lambda>_. Buffer_new)) s2))) launchRead"
    using receive_frame [OF cb size p aw, of ds] ds room by auto
  let ?w = "upd_user f (delivered (length ds) m b s)"
  have "frame (cmem s) m (set oas \<union> set_option fl)" using frame_mono [OF r(2), of "set oas \<union> set_option fl"] by auto
  moreover have "mem_inv m (set oas \<union> (set_option fl \<union> L))" using r(1) by (simp add: Un_assoc)
  moreover have "(set oas \<union> set_option fl) \<inter> L = {}" using snd by (auto simp: sender_def bchain_def)
  ultimately have s1: "sender (s\<lparr>cmem := m\<rparr>) fl oas L" "outgoing (s\<lparr>cmem := m\<rparr>) fl oas = outgoing s fl oas"
    using sender_frame [OF snd] by blast+
  note d = sender_delivered [OF s1(1), of "length ds" b]
  have w: "sender ?w fl oas L" by (rule sender_cong(1) [OF d(1)]) (simp_all add: upd_user_def)
  have out: "outgoing ?w fl oas = outgoing s fl oas"
    unfolding s1(2) [symmetric] d(2) [symmetric] by (rule sender_cong(2) [OF d(1)]) (simp_all add: upd_user_def)
  have stw: "status (conn ?w) = kConnected" using st by (simp add: upd_user_def)
  obtain s2 fl' oas' L' where g: "ProtobufCodec_send True api (reply (user s)) ?w = Inr s2" "sender s2 fl' oas' (L' \<union> L)"
    "outgoing s2 fl' oas' = outgoing ?w fl oas @ frame_bytes api (reply (user s))" "status (conn s2) = kConnected"
    "others s2 = others ?w" "user s2 = user ?w" "frame (cmem ?w) (cmem s2) L" "fl' \<noteq> None" "length oas' \<le> Suc (length oas)"
    using ProtobufCodec_send_ok [OF w stw less_imp_le [OF fits]] fits by blast
  have "filter is_read (pending s2) = []"
    unfolding filter_read_others g(5) using others_delivered [of "length ds" m b s] by (simp add: upd_user_def)
  then obtain s' a' where e: "launchRead (upd_conn (input_buffer_update (\<lambda>_. Buffer_new)) s2) = Inr s'" "serving s' a' fl' oas' (L' \<union> L)"
    "outgoing s' fl' oas' = outgoing s2 fl' oas'" "user s' = user s2" "frame (cmem s2) (cmem s') (L' \<union> L)"
    using resume_reading [OF g(2,4)] by blast
  have "receive cbs ds s = Inr s'" using r(3) g(1) e(1) by (simp add: mcb)
  moreover have "frame (cmem s) m L" "frame m (cmem s2) L" "frame (cmem s2) (cmem s') L"
    using frame_mono [OF r(2), of L] g(7) frame_mono [OF e(5), of L] by (auto simp: upd_user_def)
  then have "frame (cmem s) (cmem s') L" by (blast intro: frame_trans)
  ultimately show ?thesis using e(2-4) g(3,6,8,9) out
    by (intro exI [of _ s'] exI [of _ a'] exI [of _ fl'] exI [of _ oas'] exI [of _ "L' \<union> L"]) (simp add: upd_user_def)
qed

context echo_messages
begin

lemma big_enough: "10 \<le> length (payload (pb_api pb) (Request i ask))" "10 \<le> length (payload (pb_api pb) (Response i ask))"
  by (simp_all add: name_request name_response bytes_of_def)

lemma server_dispatch:
  "onProtobufMessage (pb_descriptor pb) (EchoServer_dispatcher pb) (Some (Request i ask)) w
     = ProtobufCodec_send True (pb_api pb) (Response i ask)
         (upd_user (\<lambda>u. u\<lparr>last_second_recv_cnt := last_second_recv_cnt u + 1, total_recv_cnt := total_recv_cnt u + 1\<rparr>) w)"
  by (simp add: onProtobufMessage_def EchoServer_dispatcher_def registerMessageCallback_def CallbackT_onMessage_def
      EchoServer_onRequest_def descr_request)

lemma server_message_cb:
  "message_cb (EchoServer_conn_callbacks pb) = ProtobufCodec_onMessage (pb_api pb)
     (\<lambda>msg. onProtobufMessage (pb_descriptor pb) (EchoServer_dispatcher pb) (Some msg)) (errorCallback (EchoServer_codec pb))"
  by (simp add: EchoServer_conn_callbacks_def TCPServer_conn_callbacks_def EchoServer_callbacks_def TCPServer_setMessageCallback_def
      codec_onMessage_def EchoServer_codec_def ProtobufCodec_new_def)

lemma serve_request:
  assumes "serving s a fl oas L" and "length (frame_bytes (pb_api pb) (Request i ask)) \<le> kPieceCapacity"
    and "length (frame_bytes (pb_api pb) (Response i ask)) < kPieceCapacity"
    and "concat ds = frame_bytes (pb_api pb) (Request i ask)" "\<forall>d \<in> set ds. d \<noteq> []"
    and "length ds = 1 \<or> pool_room (cmem s) \<and> unat (using_count (pool (cmem s))) + 8 < 2 ^ 32"
  shows "\<exists>s' a' fl' oas' L'. receive (EchoServer_conn_callbacks pb) ds s = Inr s' \<and> serving s' a' fl' oas' L'
    \<and> outgoing s' fl' oas' = outgoing s fl oas @ frame_bytes (pb_api pb) (Response i ask)
    \<and> user s' = (user s)\<lparr>last_second_recv_cnt := last_second_recv_cnt (user s) + 1, total_recv_cnt := total_recv_cnt (user s) + 1\<rparr>
    \<and> L \<subseteq> L' \<and> frame (cmem s) (cmem s') L \<and> fl' \<noteq> None \<and> length oas' \<le> Suc (length oas)"
proof -
  have f: "createMessage (pb_api pb) (GetTypeName (pb_api pb) (Request i ask) @ [0]) = Some (Request 0 [])"
    by (simp add: name_request find_request)
  obtain ok where ok: "reads_all (parser (pb_api pb) (Request 0 [])) (concat (raw_writes (pb_api pb) (Request i ask))) (ok, Request i ask)"
    using parse_request [OF assms(2)] by blast
  show ?thesis
    by (rule serve_message [OF assms(1) server_message_cb big_enough(1) assms(2) f ok server_dispatch assms(3-6)])
qed

lemma client_dispatch:
  assumes "0 < n"
  shows "onProtobufMessage (pb_descriptor pb) (EchoClient_dispatcher n pb) (Some (Response j answer)) w
     = ProtobufCodec_send True (pb_api pb) (Request (request_id (user w)) answer)
         (upd_user (\<lambda>u. u\<lparr>client_last_second_recv_cnt := client_last_second_recv_cnt u + 1, client_total_recv_cnt := client_total_recv_cnt u + 1,
           request_id := request_id u + 1\<rparr>) w)"
proof -
  have "map_of (rev (replicate n (response_descriptor pb, EchoClient_onResponse pb))) (response_descriptor pb) = Some (EchoClient_onResponse pb)"
    unfolding rev_replicate using assms by (cases n) simp_all
  then show ?thesis
    by (cases "user w") (simp add: onProtobufMessage_def EchoClient_dispatcher_def register_all_callbacks ProtobufDispatcher_new_def CallbackT_onMessage_def
      map_add_def EchoClient_onResponse_def descr_response next_request_def Let_def upd_user_def)
qed

lemma client_message_cb:
  "message_cb (EchoClient_conn_callbacks n pb k) = ProtobufCodec_onMessage (pb_api pb)
     (\<lambda>msg. onProtobufMessage (pb_descriptor pb) (EchoClient_dispatcher n pb) (Some msg)) (errorCallback (EchoClient_codec n pb))"
  by (simp add: EchoClient_conn_callbacks_def TCPClient_conn_callbacks_def EchoClient_callbacks_def TCPClient_setMessageCallback_def
      codec_onMessage_def EchoClient_codec_def ProtobufCodec_new_def call_function_def fun_eq_iff)

lemma serve_response:
  assumes "serving s a fl oas L" and "0 < n" and "length (frame_bytes (pb_api pb) (Response j answer)) \<le> kPieceCapacity"
    and "length (frame_bytes (pb_api pb) (Request (request_id (user s)) answer)) < kPieceCapacity"
    and "concat ds = frame_bytes (pb_api pb) (Response j answer)" "\<forall>d \<in> set ds. d \<noteq> []"
    and "length ds = 1 \<or> pool_room (cmem s) \<and> unat (using_count (pool (cmem s))) + 8 < 2 ^ 32"
  shows "\<exists>s' a' fl' oas' L'. receive (EchoClient_conn_callbacks n pb k) ds s = Inr s' \<and> serving s' a' fl' oas' L'
    \<and> outgoing s' fl' oas' = outgoing s fl oas @ frame_bytes (pb_api pb) (Request (request_id (user s)) answer)
    \<and> user s' = (user s)\<lparr>client_last_second_recv_cnt := client_last_second_recv_cnt (user s) + 1,
         client_total_recv_cnt := client_total_recv_cnt (user s) + 1, request_id := request_id (user s) + 1\<rparr>
    \<and> L \<subseteq> L' \<and> frame (cmem s) (cmem s') L \<and> fl' \<noteq> None \<and> length oas' \<le> Suc (length oas)"
proof -
  have f: "createMessage (pb_api pb) (GetTypeName (pb_api pb) (Response j answer) @ [0]) = Some (Response 0 [])"
    by (simp add: name_response find_response)
  obtain ok where ok: "reads_all (parser (pb_api pb) (Response 0 [])) (concat (raw_writes (pb_api pb) (Response j answer))) (ok, Response j answer)"
    using parse_response [OF assms(3)] by blast
  show ?thesis
    by (rule serve_message [OF assms(1) client_message_cb big_enough(2) assms(3) f ok client_dispatch [OF assms(2)] assms(4-7)])
qed

end

section \<open>What the callbacks do to a connection\<close>

text \<open>
  A relation between worlds that the callbacks of a codec keep, and changes of memory and input buffer
  too, is kept by the codec's \<open>onMessage\<close>.
\<close>

lemma onMessage_loop_cases:
  "onMessage_loop (Suc n) api M E b m w = Inr (b', m', w') \<Longrightarrow> w' = w
     \<or> (\<exists>code b2 m2. E code b2 m2 w = Inr (b', m', w'))
     \<or> (\<exists>msg b2 m2 m3 w1. M msg m2 w = Inr (m3, w1) \<and> onMessage_loop n api M E b2 m3 w1 = Inr (b', m', w'))"
  by (auto simp: rbind_eq_Inr_iff Let_def split: if_splits)

locale codec_relation =
  fixes R :: "'u world \<Rightarrow> 'u world \<Rightarrow> bool" and mcb :: "'msg \<Rightarrow> 'u callback" and ecb :: "ErrorCode \<Rightarrow> 'u callback"
  assumes refl: "R s s" and trans: "R s t \<Longrightarrow> R t u \<Longrightarrow> R s u"
    and cmem: "R s (s\<lparr>cmem := m\<rparr>)" and input: "R s (upd_conn (input_buffer_update (\<lambda>_. b)) s)"
    and mcb: "mcb msg s = Inr s' \<Longrightarrow> R s s'" and ecb: "ecb code s = Inr s' \<Longrightarrow> R s s'"
begin

lemma loop:
  "onMessage_loop n api (\<lambda>msg m s. rbind (mcb msg (s\<lparr>cmem := m\<rparr>)) (\<lambda>s1. Inr (cmem s1, s1)))
     (\<lambda>code b m s. rbind (ecb code (upd_conn (input_buffer_update (\<lambda>_. b)) (s\<lparr>cmem := m\<rparr>)))
        (\<lambda>s1. Inr (input_buffer (conn s1), cmem s1, s1))) b m s = Inr (b', m', s') \<Longrightarrow> R s s'"
proof (induction n arbitrary: b m s)
  case 0
  then show ?case by simp
next
  case (Suc n)
  from onMessage_loop_cases [OF Suc.prems] consider (idle) "s' = s"
    | (err) code b2 m2 t where "ecb code (upd_conn (input_buffer_update (\<lambda>_. b2)) (s\<lparr>cmem := m2\<rparr>)) = Inr t" "s' = t"
    | (got) msg m2 t where "mcb msg (s\<lparr>cmem := m2\<rparr>) = Inr t" "R t s'"
    using Suc.IH by (auto simp: rbind_eq_Inr_iff simp del: onMessage_loop.simps)
  then show ?case
  proof cases
    case idle
    then show ?thesis by (simp add: refl)
  next
    case err
    then show ?thesis using trans [OF trans [OF cmem input] ecb [OF err(1)]] by simp
  next
    case got
    then show ?thesis using trans [OF trans [OF cmem mcb [OF got(1)]]] by blast
  qed
qed

lemma onMessage:
  assumes "ProtobufCodec_onMessage api mcb ecb s = Inr s'"
  shows "R s s'"
proof -
  obtain b m t where t: "onMessage api (\<lambda>msg m s. rbind (mcb msg (s\<lparr>cmem := m\<rparr>)) (\<lambda>s1. Inr (cmem s1, s1)))
     (\<lambda>code b m s. rbind (ecb code (upd_conn (input_buffer_update (\<lambda>_. b)) (s\<lparr>cmem := m\<rparr>)))
        (\<lambda>s1. Inr (input_buffer (conn s1), cmem s1, s1))) (input_buffer (conn s)) (cmem s) s = Inr (b, m, t)"
    "s' = upd_conn (input_buffer_update (\<lambda>_. b)) (t\<lparr>cmem := m\<rparr>)"
    using assms unfolding ProtobufCodec_onMessage_def by (auto simp: rbind_eq_Inr_iff)
  have "R s t" using loop t(1) unfolding onMessage_def .
  then show ?thesis using trans [OF trans [OF _ cmem] input] t(2) by blast
qed

end

lemma api_calls_trans: "api_calls t u \<Longrightarrow> api_calls s t \<Longrightarrow> api_calls s u"
  by (induction rule: api_calls.induct) (auto intro: api_calls.intros)

lemma api_calls_own: "api_calls s (s\<lparr>cmem := m\<rparr>)" "api_calls s (upd_conn (input_buffer_update (\<lambda>_. b)) s)" "api_calls s (upd_user f s)"
  using api_calls.own_state [OF api_calls.nothing, of s "input_buffer (conn s)" m "user s"]
    api_calls.own_state [OF api_calls.nothing, of s b "cmem s" "user s"]
    api_calls.own_state [OF api_calls.nothing, of s "input_buffer (conn s)" "cmem s" "f (user s)"]
  by (simp_all add: upd_conn_def upd_user_def)

lemma ProtobufCodec_send_parts:
  assumes "ProtobufCodec_send in_loop api msg s = Inr s'"
  obtains b m b1 s1 m1 where "TCPConn_send_buffer in_loop b (s\<lparr>cmem := m\<rparr>) = Inr (b1, s1)" "s' = s1\<lparr>cmem := m1\<rparr>"
  using assms by (auto simp: ProtobufCodec_send_def codec_send_def rbind_eq_Inr_iff)

lemma ProtobufCodec_send_api: "ProtobufCodec_send in_loop api msg s = Inr s' \<Longrightarrow> api_calls s s'"
  by (erule ProtobufCodec_send_parts) (metis api_calls.send_buffer api_calls_own(1) api_calls_trans)

lemma TCPConn_send_buffer_user: "TCPConn_send_buffer in_loop b s = Inr (b', s') \<Longrightarrow> user s' = user s"
  by (auto simp: TCPConn_send_buffer_def rbind_eq_Inr_iff split: if_splits prod.splits dest!: sendInLoop_keeps)

lemma ProtobufCodec_send_user: "ProtobufCodec_send in_loop api msg s = Inr s' \<Longrightarrow> user s' = user s"
  by (erule ProtobufCodec_send_parts) (auto dest: TCPConn_send_buffer_user)

lemma close_user [simp]: "user (TCPConn_close s) = user s" "user (closeWithDelay s) = user s"
  by (simp_all add: TCPConn_close_def closeWithDelay_def)

lemma default_error_api: "errorCallback (ProtobufCodec_new mcb) code s = Inr s' \<Longrightarrow> api_calls s s' \<and> user s' = user s"
  using api_calls.close [OF api_calls.nothing, of s] api_calls.nothing [of s]
  by (auto simp: ProtobufCodec_new_def defaultErrorCallback_def split: if_splits)

lemma server_message_api:
  assumes "onProtobufMessage (pb_descriptor pb) (EchoServer_dispatcher pb) (Some msg) s = Inr s'"
  shows "api_calls s s'" and "connection_cnt (user s') = connection_cnt (user s)"
proof -
  consider "EchoServer_onRequest pb msg s = Inr s'" | "EchoServer_onUnknownMessage pb msg s = Inr s'"
    using assms by (auto simp: onProtobufMessage_def EchoServer_dispatcher_def registerMessageCallback_def ProtobufDispatcher_new_def
        CallbackT_onMessage_def split: if_splits)
  then have "api_calls s s' \<and> connection_cnt (user s') = connection_cnt (user s)"
  proof cases
    case 1
    let ?f = "\<lambda>u. u\<lparr>last_second_recv_cnt := last_second_recv_cnt u + 1, total_recv_cnt := total_recv_cnt u + 1\<rparr>"
    obtain reply where r: "ProtobufCodec_send True (pb_api pb) reply (upd_user ?f s) = Inr s'"
      using 1 by (auto simp: EchoServer_onRequest_def Let_def split: echo_message.splits)
    then show ?thesis using ProtobufCodec_send_user [OF r] api_calls_trans [OF ProtobufCodec_send_api [OF r] api_calls_own(3)]
      by (simp add: upd_user_def)
  next
    case 2
    then show ?thesis by (auto simp: EchoServer_onUnknownMessage_def upd_user_def [of _ s] intro!: api_calls.close
        api_calls_own(3) [of s, unfolded upd_user_def])
  qed
  then show "api_calls s s'" "connection_cnt (user s') = connection_cnt (user s)" by auto
qed

text \<open>The counters and the interface of the connection, as two relations of the server's codec.\<close>

interpretation echo_api_relation: codec_relation api_calls
  "\<lambda>msg. onProtobufMessage (pb_descriptor pb) (EchoServer_dispatcher pb) (Some msg)" "errorCallback (EchoServer_codec pb)" for pb
  by unfold_locales (auto intro: api_calls.nothing api_calls_trans api_calls_own server_message_api
      simp: EchoServer_codec_def dest: default_error_api)

interpretation echo_cnt_relation: codec_relation "\<lambda>s s'. connection_cnt (user s') = connection_cnt (user s)"
  "\<lambda>msg. onProtobufMessage (pb_descriptor pb) (EchoServer_dispatcher pb) (Some msg)" "errorCallback (EchoServer_codec pb)" for pb
  by unfold_locales (auto dest: server_message_api default_error_api simp: EchoServer_codec_def)

end
