(* ===== verification/Echo_Wire.thy ===== *)
theory Echo_Wire
  imports Echo_App
begin

text \<open>
  An instance of the contract of the generated code, \<open>echo_messages\<close>: the proto3 wire format of the two messages.
\<close>

section \<open>The wire format\<close>

text \<open>
  An instance of the contract: the proto3 encoding of the two messages. An integer field is a varint
  after the byte 8, left out when it is zero; a string field is its length as a varint and its bytes
  after the byte 18, left out when it is empty. The parser reads all chunks and then decodes.
\<close>

fun varint :: "nat \<Rightarrow> byte list" where
  "varint n = (if n < 128 then [word_of_nat n] else word_of_nat (128 + n mod 128) # varint (n div 128))"

declare varint.simps [simp del]

fun unvarint :: "byte list \<Rightarrow> (nat \<times> byte list) option" where
  "unvarint [] = None"
| "unvarint (b # bs) = (if unat b < 128 then Some (unat b, bs)
     else case unvarint bs of None \<Rightarrow> None | Some (v, r) \<Rightarrow> Some (unat b - 128 + 128 * v, r))"

lemma unvarint_varint: "unvarint (varint n @ r) = Some (n, r)"
proof (induction n rule: varint.induct)
  case (1 n)
  show ?case
  proof (cases "n < 128")
    case True
    then show ?thesis by (simp add: varint.simps [of n] unat_of_nat)
  next
    case False
    have u: "unat (word_of_nat (128 + n mod 128) :: byte) = 128 + n mod 128" unfolding unat_of_nat by simp
    show ?thesis using 1 False u by (simp add: varint.simps [of n])
  qed
qed

definition wire_fields :: "uint64 \<Rightarrow> byte list \<Rightarrow> byte list" where
  "wire_fields i t = (if i = 0 then [] else 8 # varint (unat i)) @ (if t = [] then [] else 18 # varint (length t) @ t)"

definition unwire_id :: "byte list \<Rightarrow> (nat \<times> byte list) option" where
  "unwire_id bs = (case bs of b # r \<Rightarrow> if b = 8 then unvarint r else Some (0, bs) | [] \<Rightarrow> Some (0, []))"

definition unwire_text :: "byte list \<Rightarrow> (byte list \<times> byte list) option" where
  "unwire_text bs = (case bs of
     b # r \<Rightarrow> if b = 18 then (case unvarint r of None \<Rightarrow> None | Some (n, q) \<Rightarrow> if n \<le> length q then Some (take n q, drop n q) else None)
       else Some ([], bs)
   | [] \<Rightarrow> Some ([], []))"

definition unwire_fields :: "byte list \<Rightarrow> (uint64 \<times> byte list) option" where
  "unwire_fields bs = (case unwire_id bs of None \<Rightarrow> None | Some (i, r) \<Rightarrow>
     (case unwire_text r of None \<Rightarrow> None | Some (t, q) \<Rightarrow> if q = [] then Some (word_of_nat i, t) else None))"

lemma unwire_wire: "unwire_fields (wire_fields i t) = Some (i, t)"
proof -
  let ?t = "if t = [] then [] else (18::byte) # varint (length t) @ t"
  have "unwire_id (wire_fields i t) = Some (unat i, ?t)"
    by (cases "i = 0") (auto simp: wire_fields_def unwire_id_def unvarint_varint)
  moreover have "unwire_text ?t = Some (t, [])" by (simp add: unwire_text_def unvarint_varint)
  ultimately show ?thesis by (simp add: unwire_fields_def)
qed

definition wire_message :: "echo_message \<Rightarrow> byte list" where
  "wire_message msg = (case msg of Request i t \<Rightarrow> wire_fields i t | Response i t \<Rightarrow> wire_fields i t | Other t \<Rightarrow> t)"

definition unwire_message :: "echo_message \<Rightarrow> byte list \<Rightarrow> bool \<times> echo_message" where
  "unwire_message p bs = (case p of
     Request _ _ \<Rightarrow> (case unwire_fields bs of None \<Rightarrow> (False, p) | Some (i, t) \<Rightarrow> (True, Request i t))
   | Response _ _ \<Rightarrow> (case unwire_fields bs of None \<Rightarrow> (False, p) | Some (i, t) \<Rightarrow> (True, Response i t))
   | Other _ \<Rightarrow> (True, Other bs))"

primrec map_reader :: "('r \<Rightarrow> 's) \<Rightarrow> 'r reader \<Rightarrow> 's reader" where
  "map_reader f (Done n r) = Done n (f r)"
| "map_reader f (More k) = More (\<lambda>c. map_reader f (k c))"

fun wire_type :: "echo_message \<Rightarrow> string" where
  "wire_type (Request _ _) = ''Echo.Request''"
| "wire_type (Response _ _) = ''Echo.Response''"
| "wire_type (Other _) = ''Other''"

text \<open>The pool looks a type up by the C string of its name.\<close>

definition wire_find :: "byte list \<Rightarrow> echo_message option" where
  "wire_find name = (let t = text_of (takeWhile (\<lambda>b. b \<noteq> 0) name) in
     if t = ''Echo.Request'' then Some (Request 0 []) else if t = ''Echo.Response'' then Some (Response 0 [])
     else if t = ''Other'' then Some (Other []) else None)"

definition wire_pb :: "echo_message echo_pb" where
  "wire_pb = \<lparr>pb_api = \<lparr>FindMessageTypeByName = wire_find, GetPrototype = Some, New = (\<lambda>p. p),
       GetTypeName = (\<lambda>msg. bytes_of (wire_type msg)), raw_writes = (\<lambda>msg. [wire_message msg]),
       parser = (\<lambda>p. map_reader (\<lambda>(_, bs). unwire_message p bs) (collect_all kPieceCapacity []))\<rparr>,
     pb_descriptor = (\<lambda>msg. case msg of Request _ _ \<Rightarrow> Request 0 [] | Response _ _ \<Rightarrow> Response 0 [] | Other _ \<Rightarrow> Other []),
     request_descriptor = Request 0 [], response_descriptor = Response 0 []\<rparr>"

lemma map_reader_feed:
  "tame (map_reader f rd) cur css = tame rd cur css" "feed (map_reader f rd) cur css = (case feed rd cur css of (r, x) \<Rightarrow> (f r, x))"
  by (induction rd arbitrary: cur css) (auto split: list.splits)

lemma map_reader_reads_all: "reads_all rd bs r \<Longrightarrow> reads_all (map_reader f rd) bs (f r)"
  by (auto simp: reads_all_def map_reader_feed)

lemma unat_byte_of_char: "unat (word_of_nat (of_char c) :: byte) = of_char c"
  unfolding unat_of_nat by simp

lemma text_of_bytes_of: "text_of (bytes_of t) = t"
  by (induction t) (simp_all add: text_of_def bytes_of_def unat_byte_of_char)

lemma wire_find_type:
  assumes "\<forall>c \<in> set t. of_char c \<noteq> (0 :: nat)"
  shows "wire_find (bytes_of t @ [0]) = (if t = ''Echo.Request'' then Some (Request 0 [])
    else if t = ''Echo.Response'' then Some (Response 0 []) else if t = ''Other'' then Some (Other []) else None)"
proof -
  have "(word_of_nat (of_char c) :: byte) \<noteq> 0" if "c \<in> set t" for c
  proof
    assume "(word_of_nat (of_char c) :: byte) = 0"
    then have "of_char c = (0 :: nat)" using unat_byte_of_char [of c] by simp
    then show False using assms that by simp
  qed
  then have "\<forall>b \<in> set (bytes_of t). b \<noteq> 0" by (auto simp: bytes_of_def)
  then have "takeWhile (\<lambda>b. b \<noteq> 0) (bytes_of t @ [0]) = bytes_of t" by (simp add: takeWhile_append)
  then show ?thesis unfolding wire_find_def by (simp only: text_of_bytes_of Let_def)
qed

interpretation wire: echo_messages wire_pb
proof unfold_locales
  have fit: "length (wire_message msg) \<le> kPieceCapacity" if "length (frame_bytes (pb_api wire_pb) msg) \<le> kPieceCapacity" for msg
    using that by (simp add: length_frame_bytes wire_pb_def)
  have reads: "reads_all (parser (pb_api wire_pb) p) (concat (raw_writes (pb_api wire_pb) msg)) (unwire_message p (wire_message msg))"
    if "length (frame_bytes (pb_api wire_pb) msg) \<le> kPieceCapacity" for p msg
    using map_reader_reads_all [OF collect_reads_all [OF fit [OF that]], of "\<lambda>(_, bs). unwire_message p bs"]
    by (simp add: wire_pb_def)
  show "\<exists>ok. reads_all (parser (pb_api wire_pb) (Request 0 [])) (concat (raw_writes (pb_api wire_pb) (Request i ask))) (ok, Request i ask)"
    if "length (frame_bytes (pb_api wire_pb) (Request i ask)) \<le> kPieceCapacity" for i ask
    using reads [OF that, of "Request 0 []"] by (intro exI [of _ True]) (simp add: unwire_message_def wire_message_def unwire_wire)
  show "\<exists>ok. reads_all (parser (pb_api wire_pb) (Response 0 [])) (concat (raw_writes (pb_api wire_pb) (Response i ask))) (ok, Response i ask)"
    if "length (frame_bytes (pb_api wire_pb) (Response i ask)) \<le> kPieceCapacity" for i ask
    using reads [OF that, of "Response 0 []"] by (intro exI [of _ True]) (simp add: unwire_message_def wire_message_def unwire_wire)
qed (simp_all add: wire_pb_def createMessage_def wire_find_type)

section \<open>Sizes\<close>

lemma wire_frame_length:
  "length (frame_bytes (pb_api wire_pb) (Request i t)) = 21 + length (wire_fields i t)"
  "length (frame_bytes (pb_api wire_pb) (Response i t)) = 22 + length (wire_fields i t)"
  by (simp_all add: length_frame_bytes wire_pb_def wire_message_def bytes_of_def)

lemma wire_fields_length: "i < 128 \<Longrightarrow> length t < 128 \<Longrightarrow> length (wire_fields i t) \<le> 4 + length t"
  by (simp add: wire_fields_def varint.simps word_less_nat_alt)

lemma varint_length_log: "n < 128 ^ k \<Longrightarrow> 0 < k \<Longrightarrow> length (varint n) \<le> k"
proof (induction k arbitrary: n)
  case 0
  then show ?case by simp
next
  case (Suc k)
  show ?case
  proof (cases "n < 128")
    case True
    then show ?thesis by (simp add: varint.simps [of n])
  next
    case False
    then have "0 < k" using Suc.prems by (cases k) simp_all
    moreover have "n div 128 < 128 ^ k" using Suc.prems by (simp add: less_mult_imp_div_less mult.commute)
    ultimately show ?thesis using Suc.IH [of "n div 128"] False by (simp add: varint.simps [of n])
  qed
qed

lemma wire_fields_bound:
  assumes "length t < 16384"
  shows "length (wire_fields i t) \<le> 14 + length t"
proof -
  have "unat i < 2 ^ 64" using unsigned_less [of i] by simp
  then show ?thesis using varint_length_log [of "unat i" 10] varint_length_log [of "length t" 2] assms by (simp add: wire_fields_def)
qed

end
