(* ===== verification/Conn_Status.thy ===== *)
theory Conn_Status
  imports Conn_Control
begin

text \<open>
  The status of a connection as a value that only grows: \<open>kConnected\<close>, \<open>kDisconnecting\<close>,
  \<open>kDisconnected\<close>. Every operation of the interface and every completion keeps it or moves it on.
\<close>

section \<open>The order of the states\<close>

fun state_rank :: "StateE \<Rightarrow> nat" where
  "state_rank kConnected = 0"
| "state_rank kDisconnecting = 1"
| "state_rank kDisconnected = 2"

instantiation StateE :: linorder
begin

definition less_eq_StateE :: "StateE \<Rightarrow> StateE \<Rightarrow> bool" where
  "less_eq_StateE x y = (state_rank x \<le> state_rank y)"

definition less_StateE :: "StateE \<Rightarrow> StateE \<Rightarrow> bool" where
  "less_StateE x y = (state_rank x < state_rank y)"

instance
proof
  fix x y :: StateE
  show "x \<le> y \<Longrightarrow> y \<le> x \<Longrightarrow> x = y" by (cases x; cases y) (simp_all add: less_eq_StateE_def)
qed (auto simp: less_eq_StateE_def less_StateE_def)

end

lemma kConnected_least [simp]: "kConnected \<le> x"
  by (simp add: less_eq_StateE_def)

lemma kDisconnected_greatest [simp]: "x \<le> kDisconnected"
  by (cases x) (simp_all add: less_eq_StateE_def)

lemma kDisconnected_le_iff [simp]: "kDisconnected \<le> x \<longleftrightarrow> x = kDisconnected"
  by (cases x) (simp_all add: less_eq_StateE_def)

lemma le_kDisconnecting_iff: "x \<le> kDisconnecting \<longleftrightarrow> x \<noteq> kDisconnected"
  by (cases x) (simp_all add: less_eq_StateE_def)

section \<open>Operations\<close>

lemma async_send_status: "async_send p s = Inr s' \<Longrightarrow> status (conn s') = status (conn s)"
  by (auto simp: async_send_def rbind_eq_Inr_iff split: option.splits)

lemma sendInLoop_status: "sendInLoop p s = Inr s' \<Longrightarrow> status (conn s') = status (conn s)"
  by (auto simp: sendInLoop_def rbind_eq_Inr_iff Let_def split: if_splits dest!: async_send_status)

lemma launchWrite_status: "launchWrite s = Inr s' \<Longrightarrow> status (conn s') = status (conn s)"
  by (auto simp: launchWrite_def rbind_eq_Inr_iff split: if_splits dest!: async_send_status)

lemma launchRead_status: "launchRead s = Inr s' \<Longrightarrow> status (conn s') = status (conn s)"
  by (auto simp: launchRead_def rbind_eq_Inr_iff split: option.splits)

lemma send_status: "TCPConn_send in_loop d s = Inr s' \<Longrightarrow> status (conn s') = status (conn s)"
  by (auto simp: TCPConn_send_def Buffer_moveToQueueHead_def rbind_eq_Inr_iff Let_def split: if_splits dest: sendInLoop_status)

lemma send_buffer_status: "TCPConn_send_buffer in_loop b s = Inr (b', s') \<Longrightarrow> status (conn s') = status (conn s)"
  by (auto simp: TCPConn_send_buffer_def rbind_eq_Inr_iff split: if_splits prod.splits dest!: sendInLoop_status)

lemma close_status:
  "(status (conn (TCPConn_close s)) = kDisconnected) = (status (conn s) = kDisconnected)"
  "(status (conn (closeWithDelay s)) = kDisconnected) = (status (conn s) = kDisconnected)"
  by (simp_all add: TCPConn_close_def closeWithDelay_def)

lemma close_grows: "status (conn s) \<le> status (conn (TCPConn_close s))" "status (conn s) \<le> status (conn (closeWithDelay s))"
  by (simp_all add: TCPConn_close_def closeWithDelay_def)

text \<open>What a callback does through the interface moves the status on, but never to the end.\<close>

lemma api_calls_status: "api_calls s t \<Longrightarrow> (status (conn t) = kDisconnected) = (status (conn s) = kDisconnected)"
  by (induction rule: api_calls.induct) (auto simp: close_status dest: send_status send_buffer_status)

lemma api_calls_grows: "api_calls s t \<Longrightarrow> status (conn s) \<le> status (conn t)"
proof (induction rule: api_calls.induct)
  case (send s t in_loop d t')
  then show ?case by (simp add: send_status)
next
  case (send_buffer s t in_loop b b' t')
  then show ?case by (simp add: send_buffer_status)
qed (auto intro: order_trans close_grows)

lemma handleClose_status: "handleClose cbs s = Inr s' \<Longrightarrow> status (conn s) \<noteq> kDisconnected \<and> status (conn s') = kDisconnected"
  by (auto simp: handleClose_def rbind_eq_Inr_iff cassert_def Let_def split: if_splits option.splits)

lemma handleError_status: "handleError cbs s = Inr s' \<Longrightarrow> status (conn s') = kDisconnected"
  by (auto simp: handleError_def split: if_splits dest!: handleClose_status)

lemma handleWrite_grows: "handleWrite cbs a ec s = Inr s' \<Longrightarrow> status (conn s) \<le> status (conn s')"
  by (auto simp: handleWrite_def rbind_eq_Inr_iff Let_def split: if_splits dest!: handleError_status launchWrite_status)

lemma handleRead_grows:
  assumes "callbacks_ok cbs" and "handleRead cbs a ec n s = Inr s'"
  shows "status (conn s) \<le> status (conn s')"
proof (cases "ec = Success")
  case True
  then obtain b m t where t: "call MessageCb (message_cb cbs) (upd_conn (input_buffer_update (\<lambda>_. b)) (s\<lparr>cmem := m\<rparr>)) = Inr t" "launchRead t = Inr s'"
    using assms(2) by (auto simp: handleRead_def rbind_eq_Inr_iff)
  then have "api_calls (upd_conn (input_buffer_update (\<lambda>_. b)) (s\<lparr>cmem := m\<rparr>)\<lparr>calls := calls s @ [MessageCb]\<rparr>) t"
    using assms(1) by (auto simp: callbacks_ok_def call_def)
  from api_calls_grows [OF this] show ?thesis using launchRead_status [OF t(2)] by simp
next
  case False
  then show ?thesis using assms(2) by (auto simp: handleRead_def rbind_eq_Inr_iff Let_def split: if_splits dest!: handleError_status)
qed

section \<open>Properties\<close>

text \<open>
  C25. The status of a connection only moves forward, from \<open>kConnected\<close> through \<open>kDisconnecting\<close> to
  \<open>kDisconnected\<close>: no completion, task, timer or call of the interface takes it back, whatever the user's
  callbacks do with the connection, from any state and in any order.
\<close>

theorem status_moves_forward:
  assumes "callbacks_ok cbs" and "(\<lambda>s s'. conn_step cbs s (Inr s'))\<^sup>*\<^sup>* s s'"
  shows "status (conn s) \<le> status (conn s')"
proof -
  have one: "status (conn s) \<le> status (conn s')" if "conn_step cbs s (Inr s')" for s s'
    using that
  proof (cases rule: conn_step.cases)
    case (write_done a ec)
    then show ?thesis using handleWrite_grows [of cbs a ec "taken (AsyncSend a) s" s'] by simp
  next
    case (read_done a d)
    then show ?thesis by (auto simp: rbind_eq_Inr_iff dest!: sym [of "Inr s'"] handleRead_grows [OF assms(1)])
  next
    case (read_failed a ec)
    then show ?thesis using handleRead_grows [OF assms(1), of a ec 0 "taken (AsyncRead a) s" s'] by simp
  next
    case (send_task p)
    then show ?thesis using sendInLoop_status [of p "taken (SendTask p) s" s'] by simp
  next
    case close_task
    then show ?thesis using handleClose_status [of cbs "taken CloseTask s" s'] by simp
  next
    case delay_timer
    then show ?thesis using handleClose_status [of cbs "taken DelayTimer s" s'] by simp
  next
    case (api_send in_loop d)
    then show ?thesis using send_status [of in_loop d s s'] by simp
  qed (auto simp: close_grows)
  show ?thesis using assms(2) by (induction rule: rtranclp_induct) (auto intro: order_trans one)
qed

theorem status_moves_forward_witness:
  "conn_step idle_cbs open_world (Inr (TCPConn_close open_world)) \<and> status (conn open_world) \<le> status (conn (TCPConn_close open_world))"
  using status_moves_forward [OF idle_ok(1) r_into_rtranclp [of "\<lambda>s s'. conn_step idle_cbs s (Inr s')", OF conn_step.api_close]]
    conn_step.api_close [of idle_cbs open_world]
  by blast

end
