(* ===== verification/Echo_Run.thy ===== *)
theory Echo_Run
  imports Echo_Wire Conn_Status
begin

text \<open>
  Runs of the echo programs: the connections of the server keep their contract and its counter is
  right; requests and completed writes in any order; the client's next request.
\<close>

section \<open>The counter of connections\<close>

lemma echo_callbacks_ok: "callbacks_ok (EchoServer_conn_callbacks pb :: 'io echo_server conn_callbacks)"
proof -
  let ?cbs = "EchoServer_conn_callbacks pb :: 'io echo_server conn_callbacks"
  have "api_calls s s'" if "message_cb ?cbs s = Inr s'" for s s'
    using that echo_api_relation.onMessage [of "pb_api pb" pb s s']
    by (simp add: EchoServer_conn_callbacks_def TCPServer_conn_callbacks_def EchoServer_callbacks_def TCPServer_setMessageCallback_def
        codec_onMessage_def EchoServer_codec_def ProtobufCodec_new_def)
  moreover have "api_calls s s'" if "connection_cb ?cbs s = Inr s'" for s s'
    using that api_calls_own(3) api_calls.nothing
    by (auto simp: EchoServer_conn_callbacks_def TCPServer_conn_callbacks_def EchoServer_callbacks_def TCPServer_setMessageCallback_def
        TCPServer_setConnectionCallback_def EchoServer_onConnectionCallback_def split: if_splits)
  moreover have "api_calls s s'" if "close_cb ?cbs s = Inr s'" for s s'
    using that api_calls_own(3) by (auto simp: EchoServer_conn_callbacks_def TCPServer_conn_callbacks_def)
  ultimately show ?thesis by (simp add: callbacks_ok_def)
qed

interpretation echo_user: connection_user "EchoServer_conn_callbacks pb" for pb
  by unfold_locales (rule echo_callbacks_ok)

text \<open>The counter without this connection.\<close>

definition counted :: "'io echo_server world \<Rightarrow> uint32" where
  "counted s = connection_cnt (user s) - (if status (conn s) = kDisconnected then 0 else 1)"

lemma counted_upd [simp]:
  "counted (request r s) = counted s" "counted (taken r s) = counted s" "counted (s\<lparr>cmem := m\<rparr>) = counted s"
  "counted (upd_conn (input_buffer_update (\<lambda>_. b)) s) = counted s" "counted (upd_conn (is_sending_update (\<lambda>_. x)) s) = counted s"
  "counted (s\<lparr>calls := cs\<rparr>) = counted s"
  by (simp_all add: counted_def)

lemma counted_cong: "user s' = user s \<Longrightarrow> (status (conn s') = kDisconnected) = (status (conn s) = kDisconnected) \<Longrightarrow> counted s' = counted s"
  by (simp add: counted_def)

lemma send_user: "TCPConn_send in_loop d s = Inr s' \<Longrightarrow> user s' = user s"
  by (auto simp: TCPConn_send_def Buffer_moveToQueueHead_def rbind_eq_Inr_iff Let_def split: if_splits dest: sendInLoop_keeps)

lemma handleClose_counted:
  assumes "handleClose (EchoServer_conn_callbacks pb) s = Inr s'"
  shows "counted s' = counted s"
proof -
  have st: "status (conn s) = kDisconnecting"
    using assms by (auto simp: handleClose_def rbind_eq_Inr_iff cassert_def split: if_splits)
  then have "user s' = (user s)\<lparr>connection_cnt := connection_cnt (user s) - 1,
      echo_tcp_server := TCPServer_removeConnection (conn_id (conn s)) (echo_tcp_server (user s))\<rparr>" "status (conn s') = kDisconnected"
    using assms
    by (auto simp: handleClose_def rbind_eq_Inr_iff call_def EchoServer_conn_callbacks_def TCPServer_conn_callbacks_def
        EchoServer_callbacks_def TCPServer_setMessageCallback_def TCPServer_setConnectionCallback_def EchoServer_onConnectionCallback_def
        isConnected_def isDisconnecting_def upd_user_def Let_def split: option.splits)
  then show ?thesis using st by (simp add: counted_def)
qed

lemma handleError_counted: "handleError (EchoServer_conn_callbacks pb) s = Inr s' \<Longrightarrow> counted s' = counted s"
  by (auto simp: handleError_def counted_def split: if_splits dest!: handleClose_counted)

lemma message_counted:
  assumes "call MessageCb (message_cb (EchoServer_conn_callbacks pb)) s = Inr s'"
  shows "counted s' = counted s"
proof -
  let ?s = "s\<lparr>calls := calls s @ [MessageCb]\<rparr>"
  have run: "message_cb (EchoServer_conn_callbacks pb) ?s = Inr s'" using assms by (simp add: call_def)
  then have "connection_cnt (user s') = connection_cnt (user ?s)"
    using echo_cnt_relation.onMessage [of "pb_api pb" pb ?s s']
    by (simp add: EchoServer_conn_callbacks_def TCPServer_conn_callbacks_def EchoServer_callbacks_def TCPServer_setMessageCallback_def
        codec_onMessage_def EchoServer_codec_def ProtobufCodec_new_def)
  moreover have "api_calls ?s s'" using run echo_callbacks_ok [of pb] by (auto simp: callbacks_ok_def)
  ultimately show ?thesis using api_calls_status [of ?s s'] by (simp add: counted_def)
qed

lemma launchRead_counted: "launchRead s = Inr s' \<Longrightarrow> counted s' = counted s"
  by (auto simp: launchRead_def rbind_eq_Inr_iff split: option.splits)

lemma launchWrite_counted: "launchWrite s = Inr s' \<Longrightarrow> counted s' = counted s"
  using launchWrite_status [of s s'] launchWrite_keeps [of s s'] by (intro counted_cong) auto

lemma handleWrite_counted: "handleWrite (EchoServer_conn_callbacks pb) a ec s = Inr s' \<Longrightarrow> counted s' = counted s"
  by (auto simp: handleWrite_def rbind_eq_Inr_iff Let_def split: if_splits dest!: handleError_counted launchWrite_counted)

lemma handleRead_counted: "handleRead (EchoServer_conn_callbacks pb) a ec n s = Inr s' \<Longrightarrow> counted s' = counted s"
  by (auto simp: handleRead_def rbind_eq_Inr_iff Let_def split: if_splits dest!: handleError_counted launchRead_counted message_counted)

lemma conn_step_counted:
  assumes "conn_step (EchoServer_conn_callbacks pb) s (Inr s')"
  shows "counted s' = counted s"
  using assms
proof (cases rule: conn_step.cases)
  case (write_done a ec)
  then show ?thesis using handleWrite_counted [of pb a ec] by (metis counted_upd(2))
next
  case (read_done a d)
  then show ?thesis by (auto simp: rbind_eq_Inr_iff dest!: sym [of "Inr s'"] handleRead_counted)
next
  case (read_failed a ec)
  then show ?thesis using handleRead_counted [of pb a ec 0] by (metis counted_upd(2))
next
  case (send_task p)
  then show ?thesis by (intro counted_cong) (auto dest!: sym [of "Inr s'"] dest: sendInLoop_status sendInLoop_keeps)
next
  case close_task
  then show ?thesis using handleClose_counted [of pb] by (metis counted_upd(2))
next
  case delay_timer
  then show ?thesis using handleClose_counted [of pb] by (metis counted_upd(2))
next
  case (api_send in_loop d)
  then show ?thesis by (intro counted_cong) (auto dest!: sym [of "Inr s'"] dest: send_status send_user)
qed (auto intro!: counted_cong simp: close_status)

section \<open>Conversations\<close>

text \<open>
  What happens on an open connection: a read completes with some bytes, as many as asio gives it, or the write in flight
  completes with a number of bytes transferred. The result has the completed writes; a completion when nothing is in
  flight does nothing.
\<close>

datatype peer_event = Reads "byte list" | Written nat

definition peer_step :: "'u conn_callbacks \<Rightarrow> peer_event \<Rightarrow> 'u world \<Rightarrow> error + (writes \<times> 'u world)" where
  "peer_step cbs e s = (case e of
     Reads d \<Rightarrow> rbind (receive cbs [d] s) (\<lambda>s1. Inr ([], s1))
   | Written n \<Rightarrow> (case filter is_send (pending s) of
       AsyncSend a # _ \<Rightarrow>
         rbind (mderef (Some a) (cmem s)) (\<lambda>c.
         rbind (handleWrite cbs a Success (taken (AsyncSend a) s)) (\<lambda>s1. Inr ([(n, piece_bytes c)], s1)))
     | _ \<Rightarrow> Inr ([], s)))"

primrec peer_run :: "'u conn_callbacks \<Rightarrow> peer_event list \<Rightarrow> 'u world \<Rightarrow> error + (writes \<times> 'u world)" where
  "peer_run cbs [] s = Inr ([], s)"
| "peer_run cbs (e # es) s =
     rbind (peer_step cbs e s) (\<lambda>(v, s1). rbind (peer_run cbs es s1) (\<lambda>(w, s2). Inr (v @ w, s2)))"

text \<open>What the reads of a run have brought, each on its own.\<close>

fun reads :: "peer_event list \<Rightarrow> byte list list" where
  "reads [] = []"
| "reads (Reads d # es) = d # reads es"
| "reads (Written n # es) = reads es"

lemma reads_Cons: "reads (e # es) = reads [e] @ reads es"
  by (cases e) simp_all

text \<open>The answers to a list of messages, when the state of the user gives the answer and moves on with each.\<close>

primrec answers :: "('u \<Rightarrow> 'msg \<Rightarrow> 'msg) \<Rightarrow> ('u \<Rightarrow> 'u) \<Rightarrow> 'msg list \<Rightarrow> 'u \<Rightarrow> 'msg list" where
  "answers reply adv [] u = []"
| "answers reply adv (msg # msgs) u = reply u msg # answers reply adv msgs (adv u)"

text \<open>Completing the writes, as many times as there are pieces, writes everything and leaves the connection idle.\<close>

lemma drain_peer:
  "serving s a fl oas L \<Longrightarrow> fl = None \<longrightarrow> outgoing s fl oas = [] \<Longrightarrow> fl = None \<or> length oas < length ns \<Longrightarrow>
   \<exists>w s' oas' L'. peer_run cbs (map Written ns) s = Inr (w, s') \<and> handed w = outgoing s fl oas \<and> fst ` set w \<subseteq> set ns
     \<and> serving s' a None oas' L' \<and> outgoing s' None oas' = [] \<and> user s' = user s \<and> length oas' \<le> length oas"
proof (induction ns arbitrary: s fl oas L)
  case Nil
  then show ?case by auto
next
  case (Cons n ns)
  have p: "filter is_send (pending s) = in_flight fl" using Cons.prems(1) by (simp add: serving_def sender_def)
  show ?case
  proof (cases fl)
    case None
    then have "peer_step cbs (Written n) s = Inr ([], s)" using p by (simp add: peer_step_def in_flight_def)
    then have "peer_run cbs (map Written (n # ns)) s = peer_run cbs (map Written ns) s"
      by (cases "peer_run cbs (map Written ns) s") auto
    then show ?thesis using Cons.IH [OF Cons.prems(1,2)] None by fastforce
  next
    case (Some f)
    obtain s1 fl1 oas1 L1 where s1: "handleWrite cbs f Success (taken (AsyncSend f) s) = Inr s1" "serving s1 a fl1 oas1 L1"
      "outgoing s (Some f) oas = cell_bytes (cells (cmem s)) f @ outgoing s1 fl1 oas1" "user s1 = user s"
      "fl1 = None \<longrightarrow> outgoing s1 fl1 oas1 = []" "length oas1 \<le> length oas" "fl1 = None \<or> length oas1 < length oas"
      using serve_written [of s a f oas L cbs] Cons.prems(1) Some by blast
    have "mem_inv (cmem s) (set oas \<union> (set_option fl \<union> insert a L))" using Cons.prems(1) by (simp add: serving_def sender_def bchain_def)
    then obtain c where c: "cells (cmem s) f = Some c" using Some mem_inv_alive by fastforce
    then have step: "peer_step cbs (Written n) s = Inr ([(n, piece_bytes c)], s1)"
      using p Some s1(1) by (simp add: peer_step_def in_flight_def mderef_def deref_def)
    have "fl1 = None \<or> length oas1 < length ns" using s1(7) Cons.prems(3) Some by auto
    then obtain w s' oas' L' where r: "peer_run cbs (map Written ns) s1 = Inr (w, s')" "handed w = outgoing s1 fl1 oas1" "fst ` set w \<subseteq> set ns"
      "serving s' a None oas' L'" "outgoing s' None oas' = []" "user s' = user s1" "length oas' \<le> length oas1"
      using Cons.IH [OF s1(2,5)] by blast
    have "handed ([(n, piece_bytes c)] @ w) = outgoing s fl oas" unfolding handed_simps r(2) using s1(3) Some c by (simp add: cell_bytes_def)
    then show ?thesis using step s1(4,6) r
      by (intro exI [of _ "[(n, piece_bytes c)] @ w"] exI [of _ s'] exI [of _ oas'] exI [of _ L']) auto
  qed
qed

text \<open>The contract of a program that answers each message of a kind with one message.\<close>

locale answering =
  fixes cbs :: "'u conn_callbacks" and api :: "('d, 'msg) protobuf_api" and good :: "'msg \<Rightarrow> bool"
    and reply :: "'u \<Rightarrow> 'msg \<Rightarrow> 'msg" and adv :: "'u \<Rightarrow> 'u"
  assumes answer: "serving s a fl oas L \<Longrightarrow> good msg \<Longrightarrow>
    \<exists>s' a' fl' oas' L'. receive cbs [frame_bytes api msg] s = Inr s' \<and> serving s' a' fl' oas' L'
      \<and> outgoing s' fl' oas' = outgoing s fl oas @ frame_bytes api (reply (user s) msg) \<and> user s' = adv (user s)
      \<and> L \<subseteq> L' \<and> frame (cmem s) (cmem s') L \<and> fl' \<noteq> None \<and> length oas' \<le> Suc (length oas)"
begin

text \<open>One event: what it writes and what it leaves to be written, and the pieces of others are as they were.\<close>

lemma step_ok:
  assumes sv: "serving s a fl oas L" and ms: "reads [e] = map (frame_bytes api) ms" and good: "\<forall>msg \<in> set ms. good msg"
  shows "\<exists>v s' a' fl' oas' L'. peer_step cbs e s = Inr (v, s') \<and> serving s' a' fl' oas' L'
    \<and> handed v @ outgoing s' fl' oas' = outgoing s fl oas @ concat (map (frame_bytes api) (answers reply adv ms (user s)))
    \<and> user s' = (adv ^^ length ms) (user s) \<and> L \<subseteq> L' \<and> frame (cmem s) (cmem s') L"
proof (cases e)
  case (Reads d)
  then obtain msg where msg: "ms = [msg]" "d = frame_bytes api msg" using ms by (auto simp: Cons_eq_map_conv)
  obtain s1 a1 fl1 oas1 L1 where s1: "receive cbs [frame_bytes api msg] s = Inr s1" "serving s1 a1 fl1 oas1 L1"
    "outgoing s1 fl1 oas1 = outgoing s fl oas @ frame_bytes api (reply (user s) msg)" "user s1 = adv (user s)"
    "L \<subseteq> L1" "frame (cmem s) (cmem s1) L"
    using answer [OF sv, of msg] good msg(1) by auto
  then show ?thesis using Reads msg
    by (intro exI [of _ "[]"] exI [of _ s1] exI [of _ a1] exI [of _ fl1] exI [of _ oas1] exI [of _ L1])
      (simp add: peer_step_def del: receive.simps)
next
  case (Written n)
  then have none: "ms = []" using ms by simp
  have p: "filter is_send (pending s) = in_flight fl" using sv by (simp add: serving_def sender_def)
  show ?thesis
  proof (cases fl)
    case None
    then show ?thesis using Written none p sv
      by (intro exI [of _ "[]"] exI [of _ s] exI [of _ a] exI [of _ fl] exI [of _ oas] exI [of _ L])
        (simp add: peer_step_def in_flight_def)
  next
    case (Some f)
    obtain s1 fl1 oas1 L1 where s1: "handleWrite cbs f Success (taken (AsyncSend f) s) = Inr s1" "serving s1 a fl1 oas1 L1"
      "outgoing s (Some f) oas = cell_bytes (cells (cmem s)) f @ outgoing s1 fl1 oas1" "user s1 = user s"
      "L \<subseteq> L1" "frame (cmem s) (cmem s1) L"
      using serve_written [of s a f oas L cbs] sv Some by auto
    have "mem_inv (cmem s) (set oas \<union> (set_option fl \<union> insert a L))" using sv by (simp add: serving_def sender_def bchain_def)
    then obtain c where c: "cells (cmem s) f = Some c" using Some mem_inv_alive by fastforce
    then have "peer_step cbs e s = Inr ([(n, piece_bytes c)], s1)"
      using Written p Some s1(1) by (simp add: peer_step_def in_flight_def mderef_def deref_def)
    then show ?thesis using none Some s1 c
      by (intro exI [of _ "[(n, piece_bytes c)]"] exI [of _ s1] exI [of _ a] exI [of _ fl1] exI [of _ oas1] exI [of _ L1])
        (simp add: cell_bytes_def)
  qed
qed

lemma answers_append: "answers reply adv (xs @ ys) u = answers reply adv xs u @ answers reply adv ys ((adv ^^ length xs) u)"
  by (induction xs arbitrary: u) (simp_all add: funpow_swap1)

lemma run_ok:
  "serving s a fl oas L \<Longrightarrow> reads es = map (frame_bytes api) msgs \<Longrightarrow> \<forall>msg \<in> set msgs. good msg \<Longrightarrow>
   \<exists>w s' a' fl' oas' L'. peer_run cbs es s = Inr (w, s') \<and> serving s' a' fl' oas' L'
     \<and> handed w @ outgoing s' fl' oas' = outgoing s fl oas @ concat (map (frame_bytes api) (answers reply adv msgs (user s)))
     \<and> user s' = (adv ^^ length msgs) (user s)"
proof (induction es arbitrary: s a fl oas L msgs)
  case Nil
  then show ?case by (intro exI [of _ "[]"] exI [of _ s] exI [of _ a] exI [of _ fl] exI [of _ oas] exI [of _ L]) simp
next
  case (Cons e es)
  obtain ms rest where ms: "msgs = ms @ rest" "reads [e] = map (frame_bytes api) ms" "reads es = map (frame_bytes api) rest"
    using Cons.prems(2) unfolding reads_Cons [of e es] by (auto simp: append_eq_map_conv)
  have good: "\<forall>msg \<in> set ms. good msg" "\<forall>msg \<in> set rest. good msg" using Cons.prems(3) ms(1) by auto
  obtain v s1 a1 fl1 oas1 L1 where s1: "peer_step cbs e s = Inr (v, s1)" "serving s1 a1 fl1 oas1 L1"
    "handed v @ outgoing s1 fl1 oas1 = outgoing s fl oas @ concat (map (frame_bytes api) (answers reply adv ms (user s)))"
    "user s1 = (adv ^^ length ms) (user s)"
    using step_ok [OF Cons.prems(1) ms(2) good(1)] by blast
  obtain w s' a' fl' oas' L' where r: "peer_run cbs es s1 = Inr (w, s')" "serving s' a' fl' oas' L'"
    "handed w @ outgoing s' fl' oas' = outgoing s1 fl1 oas1 @ concat (map (frame_bytes api) (answers reply adv rest (user s1)))"
    "user s' = (adv ^^ length rest) (user s1)"
    using Cons.IH [OF s1(2) ms(3) good(2)] by blast
  have "handed (v @ w) @ outgoing s' fl' oas' = (handed v @ outgoing s1 fl1 oas1) @ concat (map (frame_bytes api) (answers reply adv rest (user s1)))"
    using r(3) by simp
  then have "handed (v @ w) @ outgoing s' fl' oas' = outgoing s fl oas @ concat (map (frame_bytes api) (answers reply adv msgs (user s)))"
    unfolding s1(3,4) ms(1) answers_append by simp
  moreover have "user s' = (adv ^^ length msgs) (user s)"
    unfolding r(4) s1(4) ms(1) by (simp add: add.commute [of "length ms"] funpow_add)
  ultimately show ?case using s1(1) r(1,2)
    by (intro exI [of _ "v @ w"] exI [of _ s'] exI [of _ a'] exI [of _ fl'] exI [of _ oas'] exI [of _ L']) simp
qed

end

text \<open>The two programs keep the contract: the server answers a request with its response, the client a response with the next request.\<close>

definition server_counts :: "'io echo_server \<Rightarrow> 'io echo_server" where
  "server_counts u = u\<lparr>last_second_recv_cnt := last_second_recv_cnt u + 1, total_recv_cnt := total_recv_cnt u + 1\<rparr>"

fun echo_reply :: "echo_message \<Rightarrow> echo_message" where
  "echo_reply (Request i ask) = Response i ask"
| "echo_reply msg = msg"

definition client_counts :: "echo_client \<Rightarrow> echo_client" where
  "client_counts u = u\<lparr>client_last_second_recv_cnt := client_last_second_recv_cnt u + 1,
     client_total_recv_cnt := client_total_recv_cnt u + 1, request_id := request_id u + 1\<rparr>"

fun next_ask :: "echo_client \<Rightarrow> echo_message \<Rightarrow> echo_message" where
  "next_ask u (Response i answer) = Request (request_id u) answer"
| "next_ask u msg = msg"

text \<open>The messages of the conversation: of the right type, and with frames that fit in one piece, the answer's with room to spare.\<close>

fun good_request :: "'d echo_pb \<Rightarrow> echo_message \<Rightarrow> bool" where
  "good_request pb (Request i ask) \<longleftrightarrow> length (frame_bytes (pb_api pb) (Request i ask)) \<le> kPieceCapacity
     \<and> length (frame_bytes (pb_api pb) (Response i ask)) < kPieceCapacity"
| "good_request pb _ \<longleftrightarrow> False"

fun good_response :: "'d echo_pb \<Rightarrow> echo_message \<Rightarrow> bool" where
  "good_response pb (Response i answer) \<longleftrightarrow> length (frame_bytes (pb_api pb) (Response i answer)) \<le> kPieceCapacity
     \<and> (\<forall>j. length (frame_bytes (pb_api pb) (Request j answer)) < kPieceCapacity)"
| "good_response pb _ \<longleftrightarrow> False"

sublocale echo_messages < server: answering "EchoServer_conn_callbacks pb" "pb_api pb" "good_request pb" "\<lambda>_. echo_reply" server_counts
proof unfold_locales
  fix s :: "'a echo_server world" and a fl oas L msg
  assume sv: "serving s a fl oas L" and g: "good_request pb msg"
  then obtain i ask where msg: "msg = Request i ask" by (cases msg) auto
  show "\<exists>s' a' fl' oas' L'. receive (EchoServer_conn_callbacks pb) [frame_bytes (pb_api pb) msg] s = Inr s' \<and> serving s' a' fl' oas' L'
    \<and> outgoing s' fl' oas' = outgoing s fl oas @ frame_bytes (pb_api pb) (echo_reply msg) \<and> user s' = server_counts (user s)
    \<and> L \<subseteq> L' \<and> frame (cmem s) (cmem s') L \<and> fl' \<noteq> None \<and> length oas' \<le> Suc (length oas)"
    using serve_request [OF sv, of i ask "[frame_bytes (pb_api pb) msg]"] g
    by (simp add: msg server_counts_def frame_bytes_def le_bytes_ne del: receive.simps)
qed

sublocale echo_messages < client: answering "EchoClient_conn_callbacks (Suc n) pb k" "pb_api pb" "good_response pb" next_ask client_counts for n k
proof unfold_locales
  fix s :: "echo_client world" and a fl oas L msg
  assume sv: "serving s a fl oas L" and g: "good_response pb msg"
  then obtain i answer where msg: "msg = Response i answer" by (cases msg) auto
  show "\<exists>s' a' fl' oas' L'. receive (EchoClient_conn_callbacks (Suc n) pb k) [frame_bytes (pb_api pb) msg] s = Inr s' \<and> serving s' a' fl' oas' L'
    \<and> outgoing s' fl' oas' = outgoing s fl oas @ frame_bytes (pb_api pb) (next_ask (user s) msg) \<and> user s' = client_counts (user s)
    \<and> L \<subseteq> L' \<and> frame (cmem s) (cmem s') L \<and> fl' \<noteq> None \<and> length oas' \<le> Suc (length oas)"
    using serve_response [OF sv, of "Suc n" i answer "[frame_bytes (pb_api pb) msg]" k] g
    by (simp add: msg client_counts_def frame_bytes_def le_bytes_ne del: receive.simps)
qed

section \<open>A new connection\<close>

text \<open>The world in which \<open>connectEstablished\<close> calls the connection callback.\<close>

definition connected_world :: "'u world \<Rightarrow> 'u world" where
  "connected_world s = (upd_conn (\<lambda>c. c\<lparr>status := kConnected, local_addr := fst (endpoints c), remote_addr := snd (endpoints c)\<rparr>) s)
     \<lparr>calls := calls s @ [ConnectionCb kConnected]\<rparr>"

lemma connectEstablished_fresh:
  "fresh_world s \<Longrightarrow> connectEstablished cbs s = rbind (connection_cb cbs (connected_world s)) launchRead"
  by (auto simp: fresh_world_def connectEstablished_def call_def connected_world_def TCPConn_new_def)

lemma connected_sender:
  assumes "fresh_world s" and "mem_inv (cmem s) L"
  shows "sender (upd_user f (connected_world s)) None [] L" "outgoing (upd_user f (connected_world s)) None [] = []"
    "status (conn (connected_world s)) = kConnected" "input_buffer (conn (connected_world s)) = Buffer_new"
    "pending (connected_world s) = []" "user (connected_world s) = user s" "cmem (connected_world s) = cmem s"
  using assms by (auto simp: fresh_world_def sender_def outgoing_def connected_world_def upd_user_def TCPConn_new_def Buffer_new_def
      bchain_def queue_rep_def in_flight_def)

lemma start_reading:
  assumes "sender s fl oas L" and "status (conn s) = kConnected" and "filter is_read (pending s) = []" and "input_buffer (conn s) = Buffer_new"
  shows "\<exists>s' a. launchRead s = Inr s' \<and> serving s' a fl oas L \<and> outgoing s' fl oas = outgoing s fl oas \<and> user s' = user s
    \<and> frame (cmem s) (cmem s') L"
proof -
  have "upd_conn (input_buffer_update (\<lambda>_. Buffer_new)) s = s" using assms(4) by (simp add: upd_conn_def)
  then show ?thesis using resume_reading [OF assms(1-3)] by simp
qed

lemma count_up:
  "connection_cnt_update (\<lambda>n. n + 1) u = u\<lparr>connection_cnt := connection_cnt u + 1\<rparr>"
  "request_id_update (\<lambda>n. n + 1) v = v\<lparr>request_id := request_id v + 1\<rparr>"
  "client_connection_cnt_update (\<lambda>n. n + 1) v = v\<lparr>client_connection_cnt := client_connection_cnt v + 1\<rparr>"
  by (cases u; cases v; simp)+

lemma server_connected:
  assumes "fresh_world s" and "mem_inv (cmem s) L"
  shows "\<exists>s' a. connectEstablished (EchoServer_conn_callbacks pb) s = Inr s' \<and> serving s' a None [] L \<and> outgoing s' None [] = []
    \<and> user s' = (user s)\<lparr>connection_cnt := connection_cnt (user s) + 1\<rparr> \<and> frame (cmem s) (cmem s') L"
proof -
  let ?w = "upd_user (connection_cnt_update (\<lambda>n. n + 1)) (connected_world s)"
  have "connection_cb (EchoServer_conn_callbacks pb) (connected_world s) = Inr ?w"
    using connected_sender(3) [OF assms]
    by (simp add: EchoServer_conn_callbacks_def TCPServer_conn_callbacks_def EchoServer_callbacks_def TCPServer_setMessageCallback_def
        TCPServer_setConnectionCallback_def EchoServer_onConnectionCallback_def isConnected_def)
  then show ?thesis
    using start_reading [OF connected_sender(1) [OF assms, of "connection_cnt_update (\<lambda>n. n + 1)"]] connected_sender [OF assms]
    by (simp add: connectEstablished_fresh [OF assms(1)] upd_user_def count_up)
qed

text \<open>The client's first request, with its own data.\<close>

lemma client_connected:
  assumes fresh: "fresh_world s" and inv: "mem_inv (cmem s) L"
    and fits: "length (frame_bytes (pb_api pb) (Request (request_id (user s)) (fix_data (user s)))) < kPieceCapacity"
  shows "\<exists>s' a fl oas L'. connectEstablished (EchoClient_conn_callbacks n pb k) s = Inr s' \<and> serving s' a fl oas L'
    \<and> outgoing s' fl oas = frame_bytes (pb_api pb) (Request (request_id (user s)) (fix_data (user s)))
    \<and> user s' = (user s)\<lparr>client_connection_cnt := client_connection_cnt (user s) + 1, request_id := request_id (user s) + 1\<rparr>
    \<and> fl \<noteq> None \<and> length oas \<le> 1"
proof -
  let ?f = "\<lambda>u. u\<lparr>client_connection_cnt := client_connection_cnt u + 1, request_id := request_id u + 1\<rparr>"
  let ?w = "upd_user ?f (connected_world s)" and ?msg = "Request (request_id (user s)) (fix_data (user s))"
  note c = connected_sender [OF fresh inv]
  have cb: "connection_cb (EchoClient_conn_callbacks n pb k) (connected_world s) = ProtobufCodec_send True (pb_api pb) ?msg ?w"
    using c(3,6)
    by (simp add: EchoClient_conn_callbacks_def TCPClient_conn_callbacks_def EchoClient_callbacks_def TCPClient_setMessageCallback_def
        TCPClient_setConnectionCallback_def EchoClient_onConnectionCallback_def isConnected_def call_function_def next_request_def upd_user_def count_up)
  have st: "status (conn ?w) = kConnected" using c(3) by (simp add: upd_user_def)
  obtain s2 fl oas L2 where g: "ProtobufCodec_send True (pb_api pb) ?msg ?w = Inr s2" "sender s2 fl oas (L2 \<union> L)"
    "outgoing s2 fl oas = outgoing ?w None [] @ frame_bytes (pb_api pb) ?msg" "status (conn s2) = kConnected"
    "input_buffer (conn s2) = input_buffer (conn ?w)" "others s2 = others ?w" "user s2 = user ?w" "fl \<noteq> None" "length oas \<le> Suc (length ([] :: addr list))"
    using ProtobufCodec_send_ok [OF c(1) [of ?f] st less_imp_le [OF fits]] fits by blast
  have "filter is_read (pending s2) = []" unfolding filter_read_others g(6) using c(5) by (simp add: upd_user_def others_def)
  then obtain s' a where e: "launchRead s2 = Inr s'" "serving s' a fl oas (L2 \<union> L)" "outgoing s' fl oas = outgoing s2 fl oas" "user s' = user s2"
    using start_reading [OF g(2,4)] g(5) c(4) by (auto simp: upd_user_def)
  then show ?thesis using cb g(1,3,7-9) c(2) [of ?f] c(6)
    by (intro exI [of _ s'] exI [of _ a] exI [of _ fl] exI [of _ oas] exI [of _ "L2 \<union> L"])
      (simp add: connectEstablished_fresh [OF fresh] upd_user_def)
qed

lemma server_counts_many:
  "(server_counts ^^ n) u = u\<lparr>last_second_recv_cnt := last_second_recv_cnt u + word_of_nat n, total_recv_cnt := total_recv_cnt u + word_of_nat n\<rparr>"
  by (induction n) (simp_all add: server_counts_def ac_simps)

lemma client_counts_many:
  "(client_counts ^^ n) u = u\<lparr>client_last_second_recv_cnt := client_last_second_recv_cnt u + word_of_nat n,
     client_total_recv_cnt := client_total_recv_cnt u + word_of_nat n, request_id := request_id u + word_of_nat n\<rparr>"
  by (induction n) (simp_all add: client_counts_def ac_simps)

lemma server_answers: "answers (\<lambda>_. echo_reply) server_counts msgs u = map echo_reply msgs"
  by (induction msgs arbitrary: u) simp_all

text \<open>The ids of the client's requests count up from the one it is at.\<close>

lemma client_answers:
  "answers next_ask client_counts (map (\<lambda>(i, t). Response i t) rs) u
     = map2 (\<lambda>j (i, t). Request (request_id u + word_of_nat j) t) [0..<length rs] rs"
proof (induction rs arbitrary: u)
  case Nil
  then show ?case by simp
next
  case (Cons r rs)
  have "[0..<length (r # rs)] = 0 # map Suc [0..<length rs]" by (simp add: upt_conv_Cons map_Suc_upt del: upt_Suc)
  then show ?case using Cons.IH [of "client_counts u"]
    by (cases r) (simp add: client_counts_def zip_map1 map_zip_map case_prod_unfold ac_simps)
qed

context echo_messages
begin

lemma server_stream:
  assumes "fresh_world s" and "mem_inv (cmem s) L" and "reads es = map (frame_bytes (pb_api pb)) msgs"
    and "\<forall>msg \<in> set msgs. good_request pb msg"
  shows "\<exists>w s' fl oas. rbind (connectEstablished (EchoServer_conn_callbacks pb) s) (peer_run (EchoServer_conn_callbacks pb) es) = Inr (w, s')
    \<and> handed w @ outgoing s' fl oas = concat (map (\<lambda>msg. frame_bytes (pb_api pb) (echo_reply msg)) msgs)
    \<and> connection_cnt (user s') = connection_cnt (user s) + 1
    \<and> total_recv_cnt (user s') = total_recv_cnt (user s) + word_of_nat (length msgs)"
proof -
  obtain s1 a where s1: "connectEstablished (EchoServer_conn_callbacks pb) s = Inr s1" "serving s1 a None [] L" "outgoing s1 None [] = []"
    "user s1 = (user s)\<lparr>connection_cnt := connection_cnt (user s) + 1\<rparr>"
    using server_connected [OF assms(1,2)] by blast
  then show ?thesis using server.run_ok [OF s1(2) assms(3,4)] by (fastforce simp: server_answers server_counts_many comp_def)
qed

lemma client_stream:
  assumes "fresh_world s" and "mem_inv (cmem s) L" and "reads es = map (\<lambda>(i, t). frame_bytes (pb_api pb) (Response i t)) rs"
    and "\<forall>(i, t) \<in> set rs. good_response pb (Response i t)"
    and "length (frame_bytes (pb_api pb) (Request (request_id (user s)) (fix_data (user s)))) < kPieceCapacity"
  shows "\<exists>w s' fl oas. rbind (connectEstablished (EchoClient_conn_callbacks (Suc n) pb k) s)
      (peer_run (EchoClient_conn_callbacks (Suc n) pb k) es) = Inr (w, s')
    \<and> handed w @ outgoing s' fl oas = concat (map (frame_bytes (pb_api pb))
        (map2 (\<lambda>j text. Request (request_id (user s) + word_of_nat j) text) [0..<Suc (length rs)] (fix_data (user s) # map snd rs)))
    \<and> request_id (user s') = request_id (user s) + word_of_nat (Suc (length rs))
    \<and> client_total_recv_cnt (user s') = client_total_recv_cnt (user s) + word_of_nat (length rs)"
proof -
  let ?u = "(user s)\<lparr>client_connection_cnt := client_connection_cnt (user s) + 1, request_id := request_id (user s) + 1\<rparr>"
  obtain s1 a fl oas L1 where s1: "connectEstablished (EchoClient_conn_callbacks (Suc n) pb k) s = Inr s1" "serving s1 a fl oas L1"
    "outgoing s1 fl oas = frame_bytes (pb_api pb) (Request (request_id (user s)) (fix_data (user s)))" "user s1 = ?u"
    using client_connected [OF assms(1,2,5)] by blast
  let ?msgs = "map (\<lambda>(i, t). Response i t) rs"
  have msgs: "reads es = map (frame_bytes (pb_api pb)) ?msgs" "\<forall>msg \<in> set ?msgs. good_response pb msg"
    using assms(3,4) by (auto simp: case_prod_unfold comp_def)
  obtain w s' fl' oas' where r: "peer_run (EchoClient_conn_callbacks (Suc n) pb k) es s1 = Inr (w, s')"
    "handed w @ outgoing s' fl' oas' = outgoing s1 fl oas @ concat (map (frame_bytes (pb_api pb)) (answers next_ask client_counts ?msgs ?u))"
    "user s' = (client_counts ^^ length ?msgs) ?u"
    using client.run_ok [OF s1(2) msgs] s1(4) by fastforce
  have "[0..<Suc (length rs)] = 0 # map Suc [0..<length rs]" by (simp add: upt_conv_Cons map_Suc_upt del: upt_Suc)
  moreover have "answers next_ask client_counts ?msgs ?u = map2 (\<lambda>j (i, t). Request (request_id ?u + word_of_nat j) t) [0..<length rs] rs"
    by (rule client_answers)
  ultimately have "map2 (\<lambda>j text. Request (request_id (user s) + word_of_nat j) text) [0..<Suc (length rs)] (fix_data (user s) # map snd rs)
      = Request (request_id (user s)) (fix_data (user s)) # answers next_ask client_counts ?msgs ?u"
    by (simp add: zip_map1 zip_map2 map_zip_map map_zip_map2 case_prod_unfold comp_def ac_simps del: upt_Suc)
  then show ?thesis using s1(1,3) r
    by (intro exI [of _ w] exI [of _ s'] exI [of _ fl'] exI [of _ oas']) (simp add: client_counts_many ac_simps del: upt_Suc)
qed

end

section \<open>Properties\<close>

text \<open>
  The echo server answers every request on a connection, in order and byte by byte: after
  \<open>connectEstablished\<close> on a new connection, whatever the order of arriving requests and completed
  writes, no step fails, and the bytes handed to the socket followed by the bytes still in the
  output buffer are the frames of the responses to the requests, with their ids and texts; the server
  has counted the connection and each request. Every read brings exactly one frame, the frames fit in
  a piece, and the generated code keeps its contract.
\<close>

theorem echo_server_stream:
  assumes "echo_messages pb" and "fresh_world s" and "mem_inv (cmem s) L" and "reads es = map (frame_bytes (pb_api pb)) msgs"
    and "\<forall>msg \<in> set msgs. good_request pb msg"
  shows "\<exists>w s' fl oas. rbind (connectEstablished (EchoServer_conn_callbacks pb) s) (peer_run (EchoServer_conn_callbacks pb) es) = Inr (w, s')
    \<and> handed w @ outgoing s' fl oas = concat (map (\<lambda>msg. frame_bytes (pb_api pb) (echo_reply msg)) msgs)
    \<and> connection_cnt (user s') = connection_cnt (user s) + 1
    \<and> total_recv_cnt (user s') = total_recv_cnt (user s) + word_of_nat (length msgs)"
  using echo_messages.server_stream [OF assms] .

definition echo_fresh :: "'u \<Rightarrow> 'u world" where
  "echo_fresh u = \<lparr>conn = TCPConn_new 1 (7, 8), cmem = mem_start, pending = [], calls = [], user = u\<rparr>"

lemma echo_fresh_ok: "fresh_world (echo_fresh u)" "mem_inv (cmem (echo_fresh u)) {}" "user (echo_fresh u) = u"
  using start_empty by (auto simp: echo_fresh_def fresh_world_def holds_def bchain_def queue_rep_def Buffer_new_def)



text \<open>The start states of a connection of the server when the counter is \<open>c\<close>.\<close>

definition echo_start :: "'d echo_pb \<Rightarrow> uint32 \<Rightarrow> 'io echo_server world \<Rightarrow> bool" where
  "echo_start pb c s' \<longleftrightarrow> (\<exists>s. fresh_world s \<and> connection_cnt (user s) = c \<and> connectEstablished (EchoServer_conn_callbacks pb) s = Inr s')"

lemma echo_start_counted: "echo_start pb c s \<Longrightarrow> counted s = c"
  by (auto simp: echo_start_def connectEstablished_fresh rbind_eq_Inr_iff EchoServer_conn_callbacks_def TCPServer_conn_callbacks_def
      EchoServer_callbacks_def TCPServer_setMessageCallback_def TCPServer_setConnectionCallback_def EchoServer_onConnectionCallback_def
      isConnected_def connected_world_def dest!: launchRead_counted) (simp add: counted_def upd_user_def)

interpretation echo_counter: inductive_invariant "echo_start pb c" "conn_step (EchoServer_conn_callbacks pb)" "\<lambda>s. counted s = c" for pb c
  by unfold_locales (simp_all add: echo_start_counted conn_step_counted)

text \<open>
  The server's counter of connections counts a connection exactly while it is not closed: in
  every state that the steps of a connection reach, the counter is the value before it was
  established, plus one unless the status is \<open>kDisconnected\<close>. So a connection is never counted twice and never
  left counted, whichever way it ends.
\<close>

theorem echo_connection_counted:
  assumes "reach (echo_start pb c) (conn_step (EchoServer_conn_callbacks pb)) s"
  shows "connection_cnt (user s) = c + (if status (conn s) = kDisconnected then 0 else 1)"
  using echo_counter.reach_inv [OF assms] by (auto simp: counted_def)

theorem echo_connection_counted_witness:
  "\<exists>s :: (nat, unit) handler list echo_server world. reach (echo_start wire_pb 0) (conn_step (EchoServer_conn_callbacks wire_pb)) s \<and> status (conn s) = kConnected \<and> connection_cnt (user s) = 1"
proof -
  let ?s = "echo_fresh (EchoServer_new (EventLoop_new test_io))"
  obtain s a where s: "connectEstablished (EchoServer_conn_callbacks wire_pb) ?s = Inr s" "serving s a None [] {}"
    using server_connected [OF echo_fresh_ok(1,2)] by blast
  have "echo_start wire_pb 0 s" unfolding echo_start_def
    using s(1) echo_fresh_ok(1) by (intro exI [of _ ?s]) (simp add: echo_fresh_ok(3) EchoServer_new_def)
  then have r: "reach (echo_start wire_pb 0) (conn_step (EchoServer_conn_callbacks wire_pb)) s" by (rule reach.init)
  have "status (conn s) = kConnected" using s(2) by (simp add: serving_def)
  then show ?thesis using echo_connection_counted [OF r] r by (intro exI [of _ s]) simp
qed

end
