(* ===== verification/Conn_Effect.thy ===== *)
theory Conn_Effect
  imports Conn_Status
begin

text \<open>
  What one step of a connection means to whoever owns it: nothing, the start of its closing, with a task queued for the
  end of it, or the end, by an error or by that task, with the one call of the close callback.
\<close>

section \<open>Effects\<close>

fun is_close :: "request \<Rightarrow> bool" where
  "is_close CloseTask = True"
| "is_close DelayTimer = True"
| "is_close _ = False"

definition close_tasks :: "'u world \<Rightarrow> nat" where
  "close_tasks s = length (filter is_close (pending s))"

datatype conn_effect = Quiet | StartsClosing | Fails | ClosedByTask

fun has_effect :: "conn_effect \<Rightarrow> 'u world \<Rightarrow> 'u world \<Rightarrow> bool" where
  "has_effect Quiet s t \<longleftrightarrow> status (conn t) = status (conn s) \<and> close_tasks t = close_tasks s \<and> closes t = closes s"
| "has_effect StartsClosing s t \<longleftrightarrow> status (conn s) = kConnected \<and> status (conn t) = kDisconnecting
     \<and> close_tasks t = Suc (close_tasks s) \<and> closes t = closes s"
| "has_effect Fails s t \<longleftrightarrow> status (conn s) \<noteq> kDisconnected \<and> status (conn t) = kDisconnected
     \<and> close_tasks t = close_tasks s \<and> closes t = Suc (closes s)"
| "has_effect ClosedByTask s t \<longleftrightarrow> status (conn s) = kDisconnecting \<and> status (conn t) = kDisconnected
     \<and> close_tasks s = Suc (close_tasks t) \<and> closes t = Suc (closes s)"

lemma close_tasks_upd [simp]:
  "close_tasks (request r s) = close_tasks s + (if is_close r then 1 else 0)" "close_tasks (upd_conn f s) = close_tasks s"
  "close_tasks (s\<lparr>cmem := m\<rparr>) = close_tasks s" "close_tasks (s\<lparr>user := u\<rparr>) = close_tasks s" "close_tasks (s\<lparr>calls := cs\<rparr>) = close_tasks s"
  by (simp_all add: close_tasks_def)

lemma close_tasks_taken: "r \<in> set (pending s) \<Longrightarrow> close_tasks (taken r s) = close_tasks s - (if is_close r then 1 else 0)"
  by (simp add: close_tasks_def count_remove1)

lemma close_tasks_pos: "r \<in> set (pending s) \<Longrightarrow> is_close r \<Longrightarrow> 0 < close_tasks s"
  by (auto simp: close_tasks_def filter_empty_conv)

text \<open>The operations of the sending side have no effect at all.\<close>

definition unmoved :: "'u world \<Rightarrow> 'u world \<Rightarrow> bool" where
  "unmoved s t \<longleftrightarrow> status (conn t) = status (conn s) \<and> close_tasks t = close_tasks s \<and> calls t = calls s \<and> user t = user s"

lemma unmoved_trans: "unmoved s t \<Longrightarrow> unmoved t u \<Longrightarrow> unmoved s u"
  by (simp add: unmoved_def)

lemma async_send_unmoved: "async_send p s = Inr s' \<Longrightarrow> unmoved s s'"
  by (auto simp: async_send_def rbind_eq_Inr_iff unmoved_def split: option.splits)

lemma sendInLoop_unmoved: "sendInLoop p s = Inr s' \<Longrightarrow> unmoved s s'"
  by (auto simp: sendInLoop_def rbind_eq_Inr_iff Let_def unmoved_def split: if_splits
      dest!: async_send_unmoved [unfolded unmoved_def])

lemma launchWrite_unmoved: "launchWrite s = Inr s' \<Longrightarrow> unmoved s s'"
  by (auto simp: launchWrite_def rbind_eq_Inr_iff unmoved_def split: if_splits dest!: async_send_unmoved [unfolded unmoved_def])

lemma launchRead_unmoved: "launchRead s = Inr s' \<Longrightarrow> unmoved s s'"
  by (auto simp: launchRead_def rbind_eq_Inr_iff unmoved_def split: option.splits)

lemma send_unmoved: "TCPConn_send in_loop d s = Inr s' \<Longrightarrow> unmoved s s'"
  by (auto simp: TCPConn_send_def Buffer_moveToQueueHead_def rbind_eq_Inr_iff Let_def unmoved_def split: if_splits
      dest: sendInLoop_unmoved [unfolded unmoved_def])

lemma send_buffer_unmoved: "TCPConn_send_buffer in_loop b s = Inr (b', s') \<Longrightarrow> unmoved s s'"
  by (auto simp: TCPConn_send_buffer_def rbind_eq_Inr_iff unmoved_def split: if_splits prod.splits
      dest!: sendInLoop_unmoved [unfolded unmoved_def])

section \<open>Callbacks\<close>

text \<open>What a callback does to its connection is nothing or the start of the closing.\<close>

definition public_effect :: "'u world \<Rightarrow> 'u world \<Rightarrow> bool" where
  "public_effect s t \<longleftrightarrow> calls t = calls s \<and> (has_effect Quiet s t \<or> has_effect StartsClosing s t)"

lemma unmoved_effect: "unmoved s t \<Longrightarrow> public_effect s t"
  by (simp add: unmoved_def public_effect_def closes_def)

lemma public_effect_trans: "public_effect s t \<Longrightarrow> public_effect t u \<Longrightarrow> public_effect s u"
  by (auto simp: public_effect_def)

lemma close_effect: "public_effect s (TCPConn_close s)" "public_effect s (closeWithDelay s)"
  by (auto simp: public_effect_def TCPConn_close_def closeWithDelay_def closes_def)

lemma api_calls_effect: "api_calls s t \<Longrightarrow> public_effect s t"
proof (induction rule: api_calls.induct)
  case (nothing s)
  then show ?case by (simp add: public_effect_def)
next
  case (own_state s t b u m)
  then show ?case by (auto simp: public_effect_def)
next
  case (send s t in_loop d t')
  then show ?case using public_effect_trans unmoved_effect send_unmoved by blast
next
  case (send_buffer s t in_loop b b' t')
  then show ?case using public_effect_trans unmoved_effect send_buffer_unmoved by blast
next
  case (close s t)
  then show ?case using public_effect_trans close_effect(1) by blast
next
  case (close_delay s t)
  then show ?case using public_effect_trans close_effect(2) by blast
qed

lemma call_effect:
  assumes "callbacks_ok cbs" and "f \<in> {connection_cb cbs, message_cb cbs, close_cb cbs}" and "call c f s = Inr t"
  shows "public_effect (s\<lparr>calls := calls s @ [c]\<rparr>) t"
  using assms by (intro api_calls_effect) (auto simp: callbacks_ok_def call_def)

section \<open>The calls inside a handler\<close>

text \<open>
  Which callbacks a handler calls, in which state, for an owner whose state the callbacks change: \<open>same_view\<close> says that
  the status, the close tasks, the calls of the close callback and this state are the same.
\<close>

definition same_view :: "'u world \<Rightarrow> 'u world \<Rightarrow> bool" where
  "same_view s t \<longleftrightarrow> status (conn t) = status (conn s) \<and> close_tasks t = close_tasks s \<and> closes t = closes s \<and> user t = user s"

lemma unmoved_view: "unmoved s t \<Longrightarrow> same_view s t"
  by (simp add: unmoved_def same_view_def closes_def)

lemma connectEstablished_parts:
  assumes "connectEstablished cbs s = Inr t"
  obtains s1 s2 where "status (conn s1) = kConnected" "close_tasks s1 = close_tasks s" "user s1 = user s" "calls s1 = calls s @ [ConnectionCb kConnected]"
    "connection_cb cbs s1 = Inr s2" "unmoved s2 t"
proof -
  let ?s = "upd_conn (\<lambda>c. c\<lparr>status := kConnected, local_addr := fst (endpoints c), remote_addr := snd (endpoints c)\<rparr>) s"
  obtain s2 where c: "connection_cb cbs (?s\<lparr>calls := calls ?s @ [ConnectionCb kConnected]\<rparr>) = Inr s2" "launchRead s2 = Inr t"
    using assms by (auto simp: connectEstablished_def call_def rbind_eq_Inr_iff split: option.splits)
  show thesis by (rule that [OF _ _ _ _ c(1) launchRead_unmoved [OF c(2)]]) simp_all
qed

lemma handleClose_parts:
  assumes "handleClose cbs s = Inr t"
  obtains s1 s2 s3 where "status (conn s) = kDisconnecting" "status (conn s1) = kDisconnecting" "close_tasks s1 = close_tasks s" "user s1 = user s"
    "calls s1 = calls s @ [ConnectionCb kDisconnecting]" "connection_cb cbs s1 = Inr s2"
    "close_cb cbs (s2\<lparr>calls := calls s2 @ [CloseCb]\<rparr>) = Inr s3" "t = upd_conn (status_update (\<lambda>_. kDisconnected)) s3"
proof -
  have st: "status (conn s) = kDisconnecting"
    using assms by (auto simp: handleClose_def rbind_eq_Inr_iff cassert_def split: if_splits)
  let ?d = "upd_conn (delay_close_timer_update (\<lambda>_. False)) s" and ?k = "upd_conn (status_update (\<lambda>_. kDisconnecting))"
  let ?s = "if socket (conn s) = None then ?k ?d else ?k (upd_conn (socket_update (\<lambda>_. None)) ?d)"
  obtain s2 s3 where c: "connection_cb cbs (?s\<lparr>calls := calls ?s @ [ConnectionCb kDisconnecting]\<rparr>) = Inr s2"
    "close_cb cbs (s2\<lparr>calls := calls s2 @ [CloseCb]\<rparr>) = Inr s3" "t = upd_conn (status_update (\<lambda>_. kDisconnected)) s3"
    using assms st by (auto simp: handleClose_def call_def rbind_eq_Inr_iff Let_def split: option.splits)
  show thesis by (rule that [OF st _ _ _ _ c]) simp_all
qed

section \<open>Steps\<close>

lemma handleClose_effect:
  assumes ok: "callbacks_ok cbs" and run: "handleClose cbs s = Inr t"
  shows "status (conn s) = kDisconnecting" "status (conn t) = kDisconnected" "close_tasks t = close_tasks s" "closes t = Suc (closes s)"
proof -
  obtain s1 s2 s3 where p: "status (conn s) = kDisconnecting" "status (conn s1) = kDisconnecting" "close_tasks s1 = close_tasks s"
    "calls s1 = calls s @ [ConnectionCb kDisconnecting]" "connection_cb cbs s1 = Inr s2"
    "close_cb cbs (s2\<lparr>calls := calls s2 @ [CloseCb]\<rparr>) = Inr s3" "t = upd_conn (status_update (\<lambda>_. kDisconnected)) s3"
    by (rule handleClose_parts [OF run]) blast
  have "public_effect s1 s2" "public_effect (s2\<lparr>calls := calls s2 @ [CloseCb]\<rparr>) s3"
    using ok p(5,6) by (auto simp: callbacks_ok_def intro: api_calls_effect)
  then show "status (conn s) = kDisconnecting" "status (conn t) = kDisconnected" "close_tasks t = close_tasks s" "closes t = Suc (closes s)"
    using p(1-4,7) by (auto simp: public_effect_def closes_def)
qed

text \<open>\<open>connectEstablished\<close>: connected, or already closing when the connection callback has called \<open>close\<close>.\<close>

lemma connectEstablished_effect:
  assumes ok: "callbacks_ok cbs" and run: "connectEstablished cbs s = Inr t"
  shows "status (conn t) = kConnected \<and> close_tasks t = close_tasks s \<or> status (conn t) = kDisconnecting \<and> close_tasks t = Suc (close_tasks s)"
    and "closes t = closes s"
proof -
  obtain s1 s2 where p: "status (conn s1) = kConnected" "close_tasks s1 = close_tasks s" "calls s1 = calls s @ [ConnectionCb kConnected]"
    "connection_cb cbs s1 = Inr s2" "unmoved s2 t"
    by (rule connectEstablished_parts [OF run]) blast
  have "public_effect s1 s2" using ok p(4) by (auto simp: callbacks_ok_def intro: api_calls_effect)
  then show "status (conn t) = kConnected \<and> close_tasks t = close_tasks s \<or> status (conn t) = kDisconnecting \<and> close_tasks t = Suc (close_tasks s)"
    and "closes t = closes s"
    using p(1-3,5) by (auto simp: public_effect_def unmoved_def closes_def)
qed

section \<open>The calls inside a step\<close>

text \<open>
  A step does nothing an owner sees, closes on behalf of the user, calls the message callback, or runs \<open>handleClose\<close>, on an error or as the
  close task.
\<close>

definition closing_from :: "'u conn_callbacks \<Rightarrow> 'u world \<Rightarrow> 'u world \<Rightarrow> bool" where
  "closing_from cbs s t \<longleftrightarrow> (\<exists>u. handleClose cbs u = Inr t \<and> user u = user s \<and> closes u = closes s
     \<and> (status (conn s) \<noteq> kDisconnected \<and> close_tasks u = close_tasks s \<or> status (conn s) = kDisconnecting \<and> close_tasks s = Suc (close_tasks u)))"

definition message_from :: "'u conn_callbacks \<Rightarrow> 'u world \<Rightarrow> 'u world \<Rightarrow> bool" where
  "message_from cbs s t \<longleftrightarrow> (\<exists>u v. same_view s u \<and> message_cb cbs u = Inr v \<and> same_view v t)"

lemma handleError_parts: "handleError cbs s = Inr t \<Longrightarrow> same_view s t \<or> closing_from cbs s t"
  by (auto simp: handleError_def same_view_def closing_from_def split: if_splits intro!: exI [of _ "upd_conn (status_update (\<lambda>_. kDisconnecting)) s"])

text \<open>A part that goes on from a state with the same view.\<close>

lemma view_closing: "same_view s u \<Longrightarrow> same_view u t \<or> closing_from cbs u t \<Longrightarrow> same_view s t \<or> closing_from cbs s t"
  by (auto simp: same_view_def closing_from_def)

lemma taken_view: "r \<in> set (pending s) \<Longrightarrow> \<not> is_close r \<Longrightarrow> same_view s (taken r s)"
  by (simp add: same_view_def close_tasks_taken closes_def)

lemma handleWrite_parts: "handleWrite cbs a ec s = Inr t \<Longrightarrow> same_view s t \<or> closing_from cbs s t"
proof -
  assume "handleWrite cbs a ec s = Inr t"
  then obtain m where r: "(let s2 = (upd_conn (is_sending_update (\<lambda>_. False)) s)\<lparr>cmem := m\<rparr> in
      if ec = Success then launchWrite s2 else if ec \<noteq> operation_aborted then handleError cbs s2 else Inr s2) = Inr t"
    by (auto simp: handleWrite_def Let_def rbind_eq_Inr_iff)
  let ?s = "(upd_conn (is_sending_update (\<lambda>_. False)) s)\<lparr>cmem := m\<rparr>"
  have "same_view s ?s" by (simp add: same_view_def)
  moreover have "same_view ?s t \<or> closing_from cbs ?s t"
    using r launchWrite_unmoved [of ?s t, THEN unmoved_view] handleError_parts [of cbs ?s t] by (auto simp: Let_def same_view_def split: if_splits)
  ultimately show ?thesis by (rule view_closing)
qed

lemma handleRead_parts: "handleRead cbs a ec n s = Inr t \<Longrightarrow> same_view s t \<or> closing_from cbs s t \<or> message_from cbs s t"
proof (cases "ec = Success")
  case True
  assume "handleRead cbs a ec n s = Inr t"
  then obtain b m u where c: "call MessageCb (message_cb cbs) (upd_conn (input_buffer_update (\<lambda>_. b)) (s\<lparr>cmem := m\<rparr>)) = Inr u" "launchRead u = Inr t"
    using True by (auto simp: handleRead_def rbind_eq_Inr_iff)
  let ?s = "(upd_conn (input_buffer_update (\<lambda>_. b)) (s\<lparr>cmem := m\<rparr>))\<lparr>calls := calls s @ [MessageCb]\<rparr>"
  have "same_view s ?s" "message_cb cbs ?s = Inr u" using c(1) by (simp_all add: same_view_def call_def closes_def)
  then show ?thesis using launchRead_unmoved [OF c(2), THEN unmoved_view] unfolding message_from_def by blast
next
  case False
  assume "handleRead cbs a ec n s = Inr t"
  then obtain m where m: "(if ec \<noteq> operation_aborted then handleError cbs (s\<lparr>cmem := m\<rparr>) else Inr (s\<lparr>cmem := m\<rparr>)) = Inr t"
    using False by (auto simp: handleRead_def Let_def rbind_eq_Inr_iff)
  have "same_view s (s\<lparr>cmem := m\<rparr>)" by (simp add: same_view_def)
  moreover have "same_view (s\<lparr>cmem := m\<rparr>) t \<or> closing_from cbs (s\<lparr>cmem := m\<rparr>) t"
    using m handleError_parts [of cbs "s\<lparr>cmem := m\<rparr>" t] by (auto simp: same_view_def split: if_splits)
  ultimately show ?thesis using view_closing by blast
qed

lemma view_parts: "same_view s u \<Longrightarrow> same_view u t \<or> closing_from cbs u t \<or> message_from cbs u t \<Longrightarrow>
   same_view s t \<or> closing_from cbs s t \<or> message_from cbs s t"
  by (auto simp: same_view_def closing_from_def message_from_def)

lemma close_task_parts:
  assumes "r \<in> set (pending s)" and "is_close r" and "handleClose cbs (taken r s) = Inr t"
  shows "closing_from cbs s t"
proof -
  have "status (conn s) = kDisconnecting" by (rule handleClose_parts [OF assms(3)]) simp
  moreover have "close_tasks s = Suc (close_tasks (taken r s))"
    using close_tasks_taken [OF assms(1)] close_tasks_pos [OF assms(1,2)] assms(2) by simp
  ultimately show ?thesis unfolding closing_from_def using assms(3) by (intro exI [of _ "taken r s"]) (simp add: closes_def)
qed

lemma conn_step_parts:
  assumes "conn_step cbs s r" and "r = Inr t"
  shows "(same_view s t \<or> closing_from cbs s t \<or> message_from cbs s t) \<or> t = TCPConn_close s \<or> t = closeWithDelay s"
  using assms
proof (induction rule: conn_step.induct)
  case (write_done a s ec)
  then show ?case using view_closing [OF taken_view [OF write_done(1)] handleWrite_parts [of cbs a ec _ t]] by auto
next
  case (read_done a s d)
  then obtain m where m: "handleRead cbs a Success (length d) (taken (AsyncRead a) (s\<lparr>cmem := m\<rparr>)) = Inr t"
    by (auto simp: rbind_eq_Inr_iff)
  have "same_view s (taken (AsyncRead a) (s\<lparr>cmem := m\<rparr>))"
    using taken_view [of "AsyncRead a" "s\<lparr>cmem := m\<rparr>"] read_done(1) by (simp add: same_view_def)
  then show ?case using view_parts handleRead_parts [OF m] by blast
next
  case (read_failed a s ec)
  then show ?case using view_parts [OF taken_view [OF read_failed(1)] handleRead_parts [of cbs a ec 0 _ t]] by auto
next
  case (send_task p s)
  then have "same_view s (taken (SendTask p) s)" "same_view (taken (SendTask p) s) t" using taken_view [OF send_task(1)] sendInLoop_unmoved [THEN unmoved_view] by auto
  then show ?case by (simp add: same_view_def)
next
  case (close_task s)
  then show ?case using close_task_parts [of CloseTask s] by simp
next
  case (delay_timer s)
  then show ?case using close_task_parts [of DelayTimer s] by simp
next
  case (api_send s in_loop d)
  then show ?case using send_unmoved [THEN unmoved_view] by blast
qed simp_all

lemma closing_effect:
  assumes "callbacks_ok cbs" and "closing_from cbs s t"
  shows "has_effect Fails s t \<or> has_effect ClosedByTask s t"
  using assms(2) handleClose_effect [OF assms(1)] unfolding closing_from_def by fastforce

lemma message_effect: "callbacks_ok cbs \<Longrightarrow> message_from cbs s t \<Longrightarrow> has_effect Quiet s t \<or> has_effect StartsClosing s t"
  unfolding message_from_def callbacks_ok_def using api_calls_effect by (fastforce simp: same_view_def public_effect_def)

lemma conn_step_effect:
  assumes "conn_step cbs s (Inr t)" and ok: "callbacks_ok cbs"
  shows "\<exists>e. has_effect e s t"
proof -
  have "public_effect s (TCPConn_close s)" "public_effect s (closeWithDelay s)" by (fact close_effect)+
  moreover have "same_view s t \<Longrightarrow> has_effect Quiet s t" by (simp add: same_view_def)
  ultimately show ?thesis
    using conn_step_parts [OF assms(1) refl] closing_effect [OF ok, of s t] message_effect [OF ok, of s t] unfolding public_effect_def by blast
qed

end
