(* ===== verification/Conn_Hub.thy ===== *)
theory Conn_Hub
  imports Conn_Effect
begin

text \<open>
  Many connections in one program: they share the memory, with the pool and its cache, and the state of the user; each has its own
  object, pending requests and calls. The world of a connection is its own part and the shared one.
\<close>

record 'u hub =
  peers :: "uint64 \<Rightarrow> (tcp_conn \<times> request list \<times> conn_call list) option"
  hub_mem :: mem
  hub_user :: 'u

definition peer_world :: "uint64 \<Rightarrow> ('u, 'm) hub_scheme \<Rightarrow> 'u world option" where
  "peer_world i h = map_option (\<lambda>(c, p, k). \<lparr>conn = c, cmem = hub_mem h, pending = p, calls = k, user = hub_user h\<rparr>) (peers h i)"

definition put_peer :: "uint64 \<Rightarrow> 'u world \<Rightarrow> ('u, 'm) hub_scheme \<Rightarrow> ('u, 'm) hub_scheme" where
  "put_peer i w h = h\<lparr>peers := (peers h)(i \<mapsto> (conn w, pending w, calls w)), hub_mem := cmem w, hub_user := user w\<rparr>"

text \<open>A new \<open>TCPConn\<close>, before \<open>connectEstablished\<close>.\<close>

definition new_peer :: "uint64 \<Rightarrow> nat \<times> nat \<Rightarrow> ('u, 'm) hub_scheme \<Rightarrow> 'u world" where
  "new_peer i eps h = \<lparr>conn = TCPConn_new i eps, cmem = hub_mem h, pending = [], calls = [], user = hub_user h\<rparr>"

lemma put_peer_sel [simp]:
  "peers (put_peer i w h) = (peers h)(i \<mapsto> (conn w, pending w, calls w))" "hub_mem (put_peer i w h) = cmem w" "hub_user (put_peer i w h) = user w"
  by (simp_all add: put_peer_def)

lemma dom_peer_world: "i \<in> dom (peers h) \<longleftrightarrow> (\<exists>w. peer_world i h = Some w)"
  by (auto simp: peer_world_def)

lemma peer_world_put:
  "peer_world j (put_peer i w h) = (if j = i then Some w else map_option (\<lambda>x. x\<lparr>cmem := cmem w, user := user w\<rparr>) (peer_world j h))"
  by (cases "peers h j") (auto simp: peer_world_def)

lemma new_peer_fresh: "fresh_world (new_peer i eps h)" "cmem (new_peer i eps h) = hub_mem h" "user (new_peer i eps h) = hub_user h"
  by (cases eps, auto simp: fresh_world_def new_peer_def)

text \<open>What the owner of the connections sees of one: its status, and its close tasks and timers.\<close>

definition peer_status :: "('u, 'm) hub_scheme \<Rightarrow> uint64 \<Rightarrow> StateE option" where
  "peer_status h i = map_option (\<lambda>w. status (conn w)) (peer_world i h)"

definition peer_closes :: "('u, 'm) hub_scheme \<Rightarrow> uint64 \<Rightarrow> nat" where
  "peer_closes h i = (case peer_world i h of None \<Rightarrow> 0 | Some w \<Rightarrow> close_tasks w)"

lemma peer_same:
  assumes "peers h' = peers h"
  shows "peer_status h' = peer_status h" "peer_closes h' = peer_closes h"
proof -
  have "peer_status h' i = peer_status h i \<and> peer_closes h' i = peer_closes h i" for i
    using assms by (cases "peers h i") (auto simp: peer_status_def peer_closes_def peer_world_def close_tasks_def)
  then show "peer_status h' = peer_status h" "peer_closes h' = peer_closes h" by (simp_all add: fun_eq_iff)
qed

lemma other_world [simp]:
  "conn_inv (w\<lparr>cmem := m, user := u\<rparr>) = conn_inv w" "fresh_world (w\<lparr>cmem := m, user := u\<rparr>) = fresh_world w"
  "close_tasks (w\<lparr>cmem := m, user := u\<rparr>) = close_tasks w"
  by (simp_all add: conn_inv_def flow_inv_def live_def dead_def fresh_world_def)

lemma peer_put [simp]:
  "peer_status (put_peer i w h) j = (if j = i then Some (status (conn w)) else peer_status h j)"
  "peer_closes (put_peer i w h) j = (if j = i then close_tasks w else peer_closes h j)"
  by (auto simp: peer_status_def peer_closes_def peer_world_put option.map_comp comp_def split: option.splits)

lemma put_peer_same: "peer_world i h = Some w \<Longrightarrow> put_peer i w h = h"
  by (auto simp: peer_world_def put_peer_def fun_upd_idem)

end
