(* ===== verification/Echo_Many.thy ===== *)
theory Echo_Many
  imports Echo_Run Conn_Hub
begin

text \<open>
  The echo server with many connections. The connections share the memory, with the pool and its cache, and the
  state of the program; each has its own buffers, requests and callbacks called. Events of different connections come in
  any order.
\<close>

section \<open>Events\<close>

text \<open>A connection is opened, with its id and its end points, or something happens on it.\<close>

datatype hub_event = Opens uint64 "nat \<times> nat" | At uint64 peer_event

definition hub_step :: "'u conn_callbacks \<Rightarrow> hub_event \<Rightarrow> 'u hub \<Rightarrow> error + (writes \<times> 'u hub)" where
  "hub_step cbs e h = (case e of
     Opens i eps \<Rightarrow> rbind (connectEstablished cbs (new_peer i eps h)) (\<lambda>w. Inr ([], put_peer i w h))
   | At i pe \<Rightarrow> (case peer_world i h of
       None \<Rightarrow> Inr ([], h)
     | Some w \<Rightarrow> rbind (peer_step cbs pe w) (\<lambda>(v, w1). Inr (v, put_peer i w1 h))))"

fun event_peer :: "hub_event \<Rightarrow> uint64" where
  "event_peer (Opens i eps) = i"
| "event_peer (At i pe) = i"

text \<open>A run gives for each connection the writes completed on it.\<close>

primrec hub_run :: "'u conn_callbacks \<Rightarrow> hub_event list \<Rightarrow> 'u hub \<Rightarrow> error + ((uint64 \<Rightarrow> writes) \<times> 'u hub)" where
  "hub_run cbs [] h = Inr (\<lambda>_. [], h)"
| "hub_run cbs (e # es) h =
     rbind (hub_step cbs e h) (\<lambda>(v, h1).
     rbind (hub_run cbs es h1) (\<lambda>(w, h2). Inr (w(event_peer e := v @ w (event_peer e)), h2)))"

text \<open>A connection is opened once, and before anything happens on it.\<close>

fun well_ordered :: "uint64 set \<Rightarrow> hub_event list \<Rightarrow> bool" where
  "well_ordered I [] = True"
| "well_ordered I (Opens i eps # es) = (i \<notin> I \<and> well_ordered (insert i I) es)"
| "well_ordered I (At i pe # es) = (i \<in> I \<and> well_ordered I es)"

text \<open>What the reads have brought on a connection and on all of them, and the connections opened.\<close>

fun conversation :: "uint64 \<Rightarrow> hub_event list \<Rightarrow> byte list list" where
  "conversation i [] = []"
| "conversation i (Opens j eps # es) = conversation i es"
| "conversation i (At j pe # es) = (if i = j then reads [pe] else []) @ conversation i es"

fun all_reads :: "hub_event list \<Rightarrow> byte list list" where
  "all_reads [] = []"
| "all_reads (Opens i eps # es) = all_reads es"
| "all_reads (At i pe # es) = reads [pe] @ all_reads es"

fun opened :: "hub_event list \<Rightarrow> uint64 list" where
  "opened [] = []"
| "opened (Opens i eps # es) = i # opened es"
| "opened (At i pe # es) = opened es"

section \<open>Who owns which piece\<close>

text \<open>
  The pieces of a connection: of its pending read, of its write in flight and of its output buffer. \<open>U\<close> are all pieces
  in use, those of the connections and the leaked ones.
\<close>

record pieces =
  read_piece :: "uint64 \<Rightarrow> addr"
  sent_piece :: "uint64 \<Rightarrow> addr option"
  kept_pieces :: "uint64 \<Rightarrow> addr list"

definition own :: "pieces \<Rightarrow> uint64 \<Rightarrow> addr set" where
  "own p i = insert (read_piece p i) (set (kept_pieces p i) \<union> set_option (sent_piece p i))"

definition give :: "uint64 \<Rightarrow> addr \<Rightarrow> addr option \<Rightarrow> addr list \<Rightarrow> pieces \<Rightarrow> pieces" where
  "give i a fl oas p = \<lparr>read_piece = (read_piece p)(i := a), sent_piece = (sent_piece p)(i := fl), kept_pieces = (kept_pieces p)(i := oas)\<rparr>"

definition hosting :: "'u hub \<Rightarrow> pieces \<Rightarrow> addr set \<Rightarrow> bool" where
  "hosting h p U \<longleftrightarrow> mem_inv (hub_mem h) U
     \<and> (\<forall>i \<in> dom (peers h). own p i \<subseteq> U)
     \<and> (\<forall>i \<in> dom (peers h). \<forall>j \<in> dom (peers h). i \<noteq> j \<longrightarrow> own p i \<inter> own p j = {})
     \<and> (\<forall>i w. peer_world i h = Some w \<longrightarrow> serving w (read_piece p i) (sent_piece p i) (kept_pieces p i) (U - own p i))"

definition unsent :: "'u hub \<Rightarrow> pieces \<Rightarrow> uint64 \<Rightarrow> byte list" where
  "unsent h p i = (case peer_world i h of None \<Rightarrow> [] | Some w \<Rightarrow> outgoing w (sent_piece p i) (kept_pieces p i))"

lemma own_give: "own (give i a fl oas p) j = (if j = i then insert a (set oas \<union> set_option fl) else own p j)"
  by (simp add: own_def give_def)

lemma give_sel [simp]:
  "read_piece (give i a fl oas p) j = (if j = i then a else read_piece p j)"
  "sent_piece (give i a fl oas p) j = (if j = i then fl else sent_piece p j)"
  "kept_pieces (give i a fl oas p) j = (if j = i then oas else kept_pieces p j)"
  by (simp_all add: give_def)

text \<open>A connection is not disturbed by another one that leaves its pieces alone.\<close>

lemma serving_frame:
  assumes sv: "serving s a fl oas L" and fr: "frame (cmem s) m (insert a (set oas \<union> set_option fl))"
    and inv: "mem_inv m (insert a (set oas \<union> set_option fl) \<union> L')" and dis: "insert a (set oas \<union> set_option fl) \<inter> L' = {}"
  shows "serving (s\<lparr>cmem := m, user := u\<rparr>) a fl oas L'" and "outgoing (s\<lparr>cmem := m, user := u\<rparr>) fl oas = outgoing s fl oas"
proof -
  have snd: "sender s fl oas (insert a L)" and aw: "awaits s a [] (set oas \<union> set_option fl \<union> L)" and st: "status (conn s) = kConnected"
    using sv by (simp_all add: serving_def)
  have fr1: "frame (cmem s) m (set oas \<union> set_option fl)" using fr by (rule frame_mono) auto
  have inv1: "mem_inv m (set oas \<union> (set_option fl \<union> insert a L'))" using inv by (simp add: Un_ac)
  have a: "a \<notin> set oas \<union> set_option fl \<union> L" using aw by (simp add: awaits_def)
  then have dis1: "(set oas \<union> set_option fl) \<inter> insert a L' = {}" using dis by auto
  note f = sender_frame [OF snd fr1 inv1 dis1]
  have snd': "sender (s\<lparr>cmem := m, user := u\<rparr>) fl oas (insert a L')" by (rule sender_cong(1) [OF f(1)]) simp_all
  show "outgoing (s\<lparr>cmem := m, user := u\<rparr>) fl oas = outgoing s fl oas"
    unfolding f(2) [symmetric] by (rule sender_cong(2) [OF f(1)]) simp_all
  have "in_one m (input_buffer (conn s)) [] (insert a (set oas \<union> set_option fl \<union> L'))"
    using aw inv by (auto simp: awaits_def in_one_def bchain_def queue_rep_def)
  then have "awaits (s\<lparr>cmem := m, user := u\<rparr>) a [] (set oas \<union> set_option fl \<union> L')"
    using aw a dis fr by (auto simp: awaits_def frame_def)
  then show "serving (s\<lparr>cmem := m, user := u\<rparr>) a fl oas L'" using snd' st by (simp add: serving_def)
qed

lemma serving_own:
  assumes "serving s a fl oas L"
  shows "insert a (set oas \<union> set_option fl) \<inter> L = {}" and "mem_inv (cmem s) (insert a (set oas \<union> set_option fl) \<union> L)"
  using assms by (auto simp: serving_def awaits_def sender_def bchain_def Un_ac)

text \<open>
  One connection moves on and leaves the pieces \<open>B\<close>, among them those of the other connections, as they were: the
  others keep what they have to send.
\<close>

lemma hosting_other:
  assumes h: "hosting h p U" and w: "serving w a fl oas L" and y: "peer_world j h = Some y"
    and B: "own p j \<subseteq> B" "B \<subseteq> L" "frame (hub_mem h) (cmem w) B"
  defines "x \<equiv> y\<lparr>cmem := cmem w, user := user w\<rparr>" and "A \<equiv> insert a (set oas \<union> set_option fl) \<union> L"
  shows "serving x (read_piece p j) (sent_piece p j) (kept_pieces p j) (A - own p j)"
    and "outgoing x (sent_piece p j) (kept_pieces p j) = unsent h p j"
proof -
  have sv: "serving y (read_piece p j) (sent_piece p j) (kept_pieces p j) (U - own p j)" using h y by (simp add: hosting_def)
  have "cmem y = hub_mem h" using y by (auto simp: peer_world_def)
  then have "frame (cmem y) (cmem w) (own p j)" using frame_mono [OF B(3,1)] by simp
  moreover have "own p j \<union> (A - own p j) = A" using B(1,2) by (auto simp: A_def)
  then have "mem_inv (cmem w) (own p j \<union> (A - own p j))" using serving_own(2) [OF w] by (simp only: A_def)
  ultimately show "serving x (read_piece p j) (sent_piece p j) (kept_pieces p j) (A - own p j)"
    "outgoing x (sent_piece p j) (kept_pieces p j) = unsent h p j"
    using serving_frame [OF sv, of "cmem w" "A - own p j" "user w"] y unfolding own_def x_def by (auto simp: unsent_def)
qed

lemma hosting_put:
  assumes h: "hosting h p U" and w: "serving w a fl oas L"
    and B: "\<And>j. j \<in> dom (peers h) \<Longrightarrow> j \<noteq> i \<Longrightarrow> own p j \<subseteq> B" "B \<subseteq> L" "frame (hub_mem h) (cmem w) B"
  defines "h' \<equiv> put_peer i w h" and "p' \<equiv> give i a fl oas p" and "A \<equiv> insert a (set oas \<union> set_option fl) \<union> L"
  shows "hosting h' p' A" and "unsent h' p' j = (if j = i then outgoing w fl oas else unsent h p j)"
proof -
  note o = serving_own [OF w]
  have world: "peer_world j h' = (if j = i then Some w else map_option (\<lambda>x. x\<lparr>cmem := cmem w, user := user w\<rparr>) (peer_world j h))" for j
    by (simp add: h'_def peer_world_put)
  have p': "own p' i = insert a (set oas \<union> set_option fl)" "j \<noteq> i \<Longrightarrow> own p' j = own p j" for j by (simp_all add: p'_def own_give)
  have dom: "dom (peers h') = insert i (dom (peers h))" by (auto simp: h'_def)
  have other: "serving (y\<lparr>cmem := cmem w, user := user w\<rparr>) (read_piece p j) (sent_piece p j) (kept_pieces p j) (A - own p j)"
    "outgoing (y\<lparr>cmem := cmem w, user := user w\<rparr>) (sent_piece p j) (kept_pieces p j) = unsent h p j"
    if "j \<noteq> i" "peer_world j h = Some y" for j y
    using hosting_other [OF h w that(2) B(1) B(2,3)] that by (auto simp: A_def dom_peer_world)
  have dis: "own p' i \<inter> own p j = {}" if "j \<in> dom (peers h)" "j \<noteq> i" for j using o(1) B(1) [OF that] B(2) p'(1) by blast
  have "mem_inv (hub_mem h') A" using o(2) by (simp add: h'_def A_def)
  moreover have "own p' j \<subseteq> A" if "j \<in> dom (peers h')" for j
    using B(1) [of j] B(2) that dom p' by (cases "j = i") (auto simp: A_def)
  moreover have "own p' j \<inter> own p' k = {}" if "j \<in> dom (peers h')" "k \<in> dom (peers h')" "j \<noteq> k" for j k
    using that dis [of j] dis [of k] p'(2) [of j] p'(2) [of k] h dom by (cases "j = i"; cases "k = i") (auto simp: hosting_def)
  moreover have "serving x (read_piece p' j) (sent_piece p' j) (kept_pieces p' j) (A - own p' j)" if "peer_world j h' = Some x" for j x
  proof (cases "j = i")
    case True
    moreover have "A - own p' i = L" using o(1) p'(1) by (auto simp: A_def)
    ultimately show ?thesis using w that world by (simp add: p'_def)
  next
    case False
    then show ?thesis using other(1) that world p'(2) by (auto simp: p'_def)
  qed
  ultimately show "hosting h' p' A" unfolding hosting_def by blast
  show "unsent h' p' j = (if j = i then outgoing w fl oas else unsent h p j)"
    using other(2) [of j] by (cases "peer_world j h") (auto simp: unsent_def [of h'] world p'_def, simp_all add: unsent_def)
qed

section \<open>Runs\<close>

definition hub_frames :: "'d echo_pb \<Rightarrow> echo_message list \<Rightarrow> byte list" where
  "hub_frames pb msgs = concat (map (\<lambda>msg. frame_bytes (pb_api pb) (echo_reply msg)) msgs)"

text \<open>The result of a run in which the reads on connection \<open>i\<close> bring the frames of \<open>msgs i\<close>, each its own.\<close>

definition hub_result ::
  "'d echo_pb \<Rightarrow> hub_event list \<Rightarrow> (uint64 \<Rightarrow> echo_message list) \<Rightarrow> 'io echo_server hub \<Rightarrow> pieces \<Rightarrow> (uint64 \<Rightarrow> writes)
   \<Rightarrow> 'io echo_server hub \<Rightarrow> pieces \<Rightarrow> bool" where
  "hub_result pb es msgs h p w h' p' \<longleftrightarrow> dom (peers h') = set (opened es) \<union> dom (peers h)
     \<and> (\<forall>i. handed (w i) @ unsent h' p' i = unsent h p i @ hub_frames pb (msgs i))
     \<and> connection_cnt (hub_user h') = connection_cnt (hub_user h) + word_of_nat (length (opened es))
     \<and> total_recv_cnt (hub_user h') = total_recv_cnt (hub_user h) + word_of_nat (length (all_reads es))"

lemma hub_lists:
  "opened (e # es) = opened [e] @ opened es" "all_reads (e # es) = all_reads [e] @ all_reads es"
  "conversation i (e # es) = conversation i [e] @ conversation i es"
  by (cases e; simp)+

lemma hub_result_Cons:
  assumes s: "hub_result pb [e] ms h p ((\<lambda>_. [])(event_peer e := v)) h1 p1" and r: "hub_result pb es rest h1 p1 w h' p'"
  shows "hub_result pb (e # es) (\<lambda>i. ms i @ rest i) h p (w(event_peer e := v @ w (event_peer e))) h' p'"
proof -
  have "handed ((w(event_peer e := v @ w (event_peer e))) i) @ unsent h' p' i = unsent h p i @ hub_frames pb (ms i @ rest i)" for i
  proof -
    let ?v = "handed (((\<lambda>_. [])(event_peer e := v)) i)"
    have "handed ((w(event_peer e := v @ w (event_peer e))) i) @ unsent h' p' i = ?v @ handed (w i) @ unsent h' p' i" by simp
    also have "\<dots> = (?v @ unsent h1 p1 i) @ hub_frames pb (rest i)" using r by (simp add: hub_result_def)
    also have "\<dots> = unsent h p i @ hub_frames pb (ms i @ rest i)"
      using s by (simp add: hub_result_def hub_frames_def)
    finally show ?thesis .
  qed
  then show ?thesis using s r unfolding hub_result_def hub_lists(1,2) [of e es] by (auto simp: ac_simps)
qed

context echo_messages
begin

lemma hub_opens:
  assumes h: "hosting h p U" and i: "i \<notin> dom (peers h)" and ms: "\<And>j. ms j = []"
  shows "\<exists>v h' p' U'. hub_step (EchoServer_conn_callbacks pb) (Opens i eps) h = Inr (v, h') \<and> hosting h' p' U'
    \<and> hub_result pb [Opens i eps] ms h p ((\<lambda>_. [])(i := v)) h' p'"
proof -
  have inv: "mem_inv (cmem (new_peer i eps h)) U" using h by (simp add: hosting_def new_peer_fresh(2))
  obtain w a where w: "connectEstablished (EchoServer_conn_callbacks pb) (new_peer i eps h) = Inr w" "serving w a None [] U"
    "outgoing w None [] = []" "user w = (hub_user h)\<lparr>connection_cnt := connection_cnt (hub_user h) + 1\<rparr>" "frame (hub_mem h) (cmem w) U"
    using server_connected [OF new_peer_fresh(1) inv, of pb] unfolding new_peer_fresh by blast
  have sub: "own p j \<subseteq> U" if "j \<in> dom (peers h)" "j \<noteq> i" for j using h that by (auto simp: hosting_def)
  note r = hosting_put [OF h w(2) sub subset_refl w(5), of i]
  have "unsent h p i = []" using i dom_peer_world [of i h] by (cases "peer_world i h") (auto simp: unsent_def)
  then have "hub_result pb [Opens i eps] ms h p ((\<lambda>_. [])(i := [])) (put_peer i w h) (give i a None [] p)"
    using r(2) w(3,4) ms by (auto simp: hub_result_def hub_frames_def)
  moreover have "hub_step (EchoServer_conn_callbacks pb) (Opens i eps) h = Inr ([], put_peer i w h)"
    using w(1) by (simp add: hub_step_def)
  ultimately show ?thesis using r(1) by blast
qed

lemma hub_at:
  assumes h: "hosting h p U" and i: "i \<in> dom (peers h)" and ms: "\<And>j. conversation j [At i pe] = map (frame_bytes (pb_api pb)) (ms j)"
    and good: "\<And>msg. msg \<in> set (ms i) \<Longrightarrow> good_request pb msg"
  shows "\<exists>v h' p' U'. hub_step (EchoServer_conn_callbacks pb) (At i pe) h = Inr (v, h') \<and> hosting h' p' U'
    \<and> hub_result pb [At i pe] ms h p ((\<lambda>_. [])(i := v)) h' p'"
proof -
  let ?B = "U - own p i"
  have reads: "reads [pe] = map (frame_bytes (pb_api pb)) (ms i)" using ms [of i] by simp
  have others: "ms j = []" if "j \<noteq> i" for j using ms [of j] that by simp
  obtain w where w: "peer_world i h = Some w" using i dom_peer_world by blast
  then have mem: "cmem w = hub_mem h" "user w = hub_user h" by (auto simp: peer_world_def)
  have sv: "serving w (read_piece p i) (sent_piece p i) (kept_pieces p i) ?B" using h w by (simp add: hosting_def)
  obtain v w1 a fl oas L where r: "peer_step (EchoServer_conn_callbacks pb) pe w = Inr (v, w1)" "serving w1 a fl oas L"
    "handed v @ outgoing w1 fl oas = outgoing w (sent_piece p i) (kept_pieces p i)
       @ concat (map (frame_bytes (pb_api pb)) (answers (\<lambda>_. echo_reply) server_counts (ms i) (user w)))"
    "user w1 = (server_counts ^^ length (ms i)) (user w)" "?B \<subseteq> L" "frame (cmem w) (cmem w1) ?B"
    using server.step_ok [OF sv reads] good by blast
  have sub: "own p j \<subseteq> ?B" if "j \<in> dom (peers h)" "j \<noteq> i" for j using h i that unfolding hosting_def by blast
  note q = hosting_put [OF h r(2) sub r(5) r(6) [unfolded mem], of i]
  have "handed v @ outgoing w1 fl oas = unsent h p i @ hub_frames pb (ms i)"
    using r(3) w by (simp add: unsent_def hub_frames_def server_answers comp_def)
  moreover have "length (all_reads [At i pe]) = length (ms i)" using reads by simp
  ultimately have "hub_result pb [At i pe] ms h p ((\<lambda>_. [])(i := v)) (put_peer i w1 h) (give i a fl oas p)"
    using q(2) r(4) mem(2) i others unfolding hub_result_def by (auto simp: server_counts_many hub_frames_def simp del: all_reads.simps)
  moreover have "hub_step (EchoServer_conn_callbacks pb) (At i pe) h = Inr (v, put_peer i w1 h)"
    using w r(1) by (simp add: hub_step_def)
  ultimately show ?thesis using q(1) by blast
qed

lemma hub_run_ok:
  "hosting h p U \<Longrightarrow> well_ordered (dom (peers h)) es \<Longrightarrow> (\<forall>i. conversation i es = map (frame_bytes (pb_api pb)) (msgs i)) \<Longrightarrow>
   (\<forall>i. \<forall>msg \<in> set (msgs i). good_request pb msg) \<Longrightarrow>
   \<exists>w h' p' U'. hub_run (EchoServer_conn_callbacks pb) es h = Inr (w, h') \<and> hosting h' p' U' \<and> hub_result pb es msgs h p w h' p'"
proof (induction es arbitrary: h p U msgs)
  case Nil
  then show ?case by (intro exI [of _ "\<lambda>_. []"] exI [of _ h] exI [of _ p] exI [of _ U]) (simp add: hub_result_def hub_frames_def)
next
  case (Cons e es)
  let ?i = "event_peer e" and ?run = "hub_run (EchoServer_conn_callbacks pb)"
  define ms rest where "ms = (\<lambda>i. take (length (conversation i [e])) (msgs i))" and "rest = (\<lambda>i. drop (length (conversation i [e])) (msgs i))"
  have split: "msgs = (\<lambda>i. ms i @ rest i)" by (simp add: ms_def rest_def)
  have eq: "conversation i [e] @ conversation i es = map (frame_bytes (pb_api pb)) (msgs i)" for i
    using Cons.prems(3) [rule_format, of i] hub_lists(3) [of i e es] by simp
  have now: "conversation i [e] = map (frame_bytes (pb_api pb)) (ms i)" and later: "conversation i es = map (frame_bytes (pb_api pb)) (rest i)" for i
    using arg_cong [OF eq [of i], of "take (length (conversation i [e]))"] arg_cong [OF eq [of i], of "drop (length (conversation i [e]))"]
    by (simp_all add: ms_def rest_def take_map drop_map)
  have good: "\<forall>i. \<forall>msg \<in> set (ms i). good_request pb msg" "\<forall>i. \<forall>msg \<in> set (rest i). good_request pb msg"
    using Cons.prems(4) by (auto simp: ms_def rest_def dest: in_set_takeD in_set_dropD)
  have "\<exists>v h1 p1 U1. hub_step (EchoServer_conn_callbacks pb) e h = Inr (v, h1) \<and> hosting h1 p1 U1
    \<and> hub_result pb [e] ms h p ((\<lambda>_. [])(?i := v)) h1 p1"
  proof (cases e)
    case (Opens i eps)
    then show ?thesis using hub_opens [OF Cons.prems(1), of i ms eps] Cons.prems(2) now by simp
  next
    case (At i pe)
    then show ?thesis using hub_at [OF Cons.prems(1), of i pe ms] Cons.prems(2) now good(1) by (simp del: conversation.simps)
  qed
  then obtain v h1 p1 U1 where s: "hub_step (EchoServer_conn_callbacks pb) e h = Inr (v, h1)" "hosting h1 p1 U1"
    "hub_result pb [e] ms h p ((\<lambda>_. [])(?i := v)) h1 p1" by blast
  have "well_ordered (dom (peers h1)) es"
    using Cons.prems(2) s(3) by (cases e) (auto simp: hub_result_def insert_absorb)
  then obtain w h' p' U' where r: "?run es h1 = Inr (w, h')" "hosting h' p' U'" "hub_result pb es rest h1 p1 w h' p'"
    using Cons.IH [OF s(2), of rest] later good(2) by blast
  have "hub_result pb (e # es) msgs h p (w(?i := v @ w ?i)) h' p'" using hub_result_Cons [OF s(3) r(3)] split by simp
  then show ?case using s(1) r(1,2) by auto
qed

end

section \<open>Properties\<close>

text \<open>
  C4. The echo server answers every request on the connection it came from, with any number of connections that share
  the pool of pieces, as long as every read brings exactly the frame of one request and requests and responses are shorter
  than 4096 bytes (requests that arrive cut or several in a read, and longer responses, are not covered): from a server with
  no connections, in any interleaving of new connections, arriving requests and writes that complete with any numbers of
  bytes transferred, no step fails, the bytes handed to the socket of a connection followed by those it still has to send
  are the frames of the responses to the requests of that connection, in their order (all of them on the wire if every write
  transfers its whole piece), and the counters of connections and requests are the numbers of both. The generated code
  keeps its contract.
\<close>

theorem echo_server_many:
  assumes "echo_messages pb" and "peers h = (\<lambda>_. None)" and "mem_inv (hub_mem h) U"
    and "well_ordered {} es" and "\<forall>i. conversation i es = map (frame_bytes (pb_api pb)) (msgs i)"
    and "\<forall>i. \<forall>msg \<in> set (msgs i). good_request pb msg"
  shows "\<exists>w h' p' U'. hub_run (EchoServer_conn_callbacks pb) es h = Inr (w, h') \<and> hosting h' p' U'
    \<and> dom (peers h') = set (opened es)
    \<and> (\<forall>i. handed (w i) @ unsent h' p' i = concat (map (\<lambda>msg. frame_bytes (pb_api pb) (echo_reply msg)) (msgs i))
         \<and> ((\<forall>(n, q) \<in> set (w i). length q \<le> n) \<longrightarrow> wire (w i) = handed (w i)))
    \<and> connection_cnt (hub_user h') = connection_cnt (hub_user h) + word_of_nat (length (opened es))
    \<and> total_recv_cnt (hub_user h') = total_recv_cnt (hub_user h) + word_of_nat (length (all_reads es))"
proof -
  obtain p :: pieces where True by blast
  have h: "hosting h p U" "unsent h p i = []" for i using assms(2,3) by (simp_all add: hosting_def unsent_def peer_world_def)
  have "well_ordered (dom (peers h)) es" using assms(2,4) by simp
  from echo_messages.hub_run_ok [OF assms(1) h(1) this assms(5,6)] show ?thesis
    using h(2) assms(2) by (simp add: hub_result_def hub_frames_def wire_full)
qed

definition two_peers :: "hub_event list" where
  "two_peers = [Opens 1 (7, 8), At 1 (Reads (frame_bytes (pb_api wire_pb) (Request 5 [1]))), Opens 2 (7, 9),
     At 2 (Reads (frame_bytes (pb_api wire_pb) (Request 6 [2]))), At 1 (Written 4096),
     At 1 (Reads (frame_bytes (pb_api wire_pb) (Request 7 []))), At 2 (Written 4096)]"

definition two_talks :: "uint64 \<Rightarrow> echo_message list" where
  "two_talks i = (if i = 1 then [Request 5 [1], Request 7 []] else if i = 2 then [Request 6 [2]] else [])"

theorem echo_server_many_witness:
  "\<exists>w h' p'. hub_run (EchoServer_conn_callbacks wire_pb) two_peers
      \<lparr>peers = (\<lambda>_. None), hub_mem = mem_start, hub_user = EchoServer_new (EventLoop_new test_io)\<rparr> = Inr (w, h')
    \<and> handed (w 1) @ unsent h' p' 1 = frame_bytes (pb_api wire_pb) (Response 5 [1]) @ frame_bytes (pb_api wire_pb) (Response 7 [])
    \<and> handed (w 2) @ unsent h' p' 2 = frame_bytes (pb_api wire_pb) (Response 6 [2])
    \<and> connection_cnt (hub_user h') = 2 \<and> total_recv_cnt (hub_user h') = 3"
proof -
  let ?h = "\<lparr>peers = (\<lambda>_. None), hub_mem = mem_start, hub_user = EchoServer_new (EventLoop_new test_io)\<rparr>"
  have inv: "mem_inv (hub_mem ?h) {}" using echo_fresh_ok(2) by (simp add: echo_fresh_def)
  have ev: "well_ordered {} two_peers" "length (all_reads two_peers) = 3" "opened two_peers = [1, 2]" by (simp_all add: two_peers_def)
  have talks: "\<forall>i. conversation i two_peers = map (frame_bytes (pb_api wire_pb)) (two_talks i)" by (simp add: two_peers_def two_talks_def)
  have good: "\<forall>i. \<forall>msg \<in> set (two_talks i). good_request wire_pb msg"
    using wire_fields_length [of 5 "[1]"] wire_fields_length [of 6 "[2]"] wire_fields_length [of 7 "[]"]
    by (auto simp: two_talks_def wire_frame_length kPieceCapacity_def split: if_splits)
  have none: "peers ?h = (\<lambda>_. None)" by simp
  from echo_server_many [OF wire.echo_messages_axioms none inv ev(1) talks good] obtain w h' p' where r:
    "hub_run (EchoServer_conn_callbacks wire_pb) two_peers ?h = Inr (w, h')"
    "\<forall>i. handed (w i) @ unsent h' p' i = concat (map (\<lambda>msg. frame_bytes (pb_api wire_pb) (echo_reply msg)) (two_talks i))
      \<and> ((\<forall>(n, q) \<in> set (w i). length q \<le> n) \<longrightarrow> wire (w i) = handed (w i))"
    "connection_cnt (hub_user h') = connection_cnt (hub_user ?h) + word_of_nat (length (opened two_peers))"
    "total_recv_cnt (hub_user h') = total_recv_cnt (hub_user ?h) + word_of_nat (length (all_reads two_peers))"
    by blast
  have "handed (w i) @ unsent h' p' i = concat (map (\<lambda>msg. frame_bytes (pb_api wire_pb) (echo_reply msg)) (two_talks i))" for i
    using r(2) by blast
  from this [of 1] this [of 2] show ?thesis using r(1,3,4)
    by (intro exI [of _ w] exI [of _ h'] exI [of _ p']) (simp add: ev EchoServer_new_def two_talks_def)
qed

end
