(* ===== verification/Server_Site.thy ===== *)
theory Server_Site
  imports Conn_Hub Tcp_Server
begin

text \<open>
  The server together with the connections it owns: the server of theory \<open>Tcp_Server\<close>, whose steps there take the life of a
  connection from a short summary, and the \<open>TCPConn\<close> objects of theory \<open>Tcp_Conn\<close>, with all their handlers. Every run of the two together
  is matched by a run of the server alone, so what holds there holds here.
\<close>

section \<open>The composition\<close>

text \<open>
  The map \<open>connections\<close> of the server says which connections it has; the status of a connection is in its object. An
  object lives as long as something refers to it, so the objects of removed connections stay.
\<close>

record ('u, 'io) site = "'u hub" +
  site_server :: "'io tcp_server"

definition on_server :: "error + 'io tcp_server \<Rightarrow> ('u, 'io) site \<Rightarrow> error + ('u, 'io) site" where
  "on_server r h = rbind r (\<lambda>s. Inr (h\<lparr>site_server := s\<rparr>))"

definition verified :: "('addr \<Rightarrow> bool) \<Rightarrow> error + 'addr \<Rightarrow> bool" where
  "verified verify remote = (case remote of Inl _ \<Rightarrow> False | Inr endpoint \<Rightarrow> verify endpoint)"

lemma newConnection_verified:
  "TCPServer_newConnection verify remote ec s = Inr s' \<Longrightarrow>
   (if ec \<noteq> operation_aborted then doAccept else Inr) (if ec = Success \<and> verified verify remote
      then add_task (Establish (next_conn_id s + 1)) (s\<lparr>next_conn_id := next_conn_id s + 1,
        connections := (connections s)(next_conn_id s + 1 \<mapsto> kDisconnected)\<rparr>) else s) = Inr s'"
  by (cases remote) (auto simp: TCPServer_newConnection_def verified_def rbind_eq_Inr_iff Let_def split: if_splits)

text \<open>\<open>newConnection\<close>: the server makes a \<open>TCPConn\<close> with the next id when the connection is accepted and verified.\<close>

definition site_newConnection ::
  "('addr \<Rightarrow> bool) \<Rightarrow> error + 'addr \<Rightarrow> nat \<times> nat \<Rightarrow> error_code \<Rightarrow> ('u, 'io) site \<Rightarrow> error + ('u, 'io) site" where
  "site_newConnection verify remote eps ec h =
     (let h1 = (if ec = Success \<and> verified verify remote then put_peer (next_conn_id (site_server h) + 1) (new_peer (next_conn_id (site_server h) + 1) eps h) h else h)
      in on_server (TCPServer_newConnection verify remote ec (site_server h)) h1)"

text \<open>The loop of \<open>stopInLoop\<close> over the connections.\<close>

definition close_peer :: "uint64 \<Rightarrow> ('u, 'io) site \<Rightarrow> ('u, 'io) site" where
  "close_peer i h = (case peer_world i h of
     None \<Rightarrow> h
   | Some w \<Rightarrow> if isConnected (conn w) then put_peer i (TCPConn_close w) h else h)"

definition site_stopInLoop :: "bool \<Rightarrow> uint64 list \<Rightarrow> ('u, 'io) site \<Rightarrow> error + ('u, 'io) site" where
  "site_stopInLoop cb ids h =
     (let s1 = (site_server h)\<lparr>st := kStopping, substatus := kStoppingListener\<rparr> in
      if \<not> acceptor s1 then Inl NullDeref
      else let s2 = s1\<lparr>acceptor := False\<rparr> in
           if connections s2 = (\<lambda>_. None) then Inr (h\<lparr>site_server := add_task (StopSafe cb) s2\<rparr>)
           else Inr ((fold close_peer ids h)\<lparr>site_server := s2\<lparr>stopped_cb := cb\<rparr>\<rparr>))"

text \<open>
  A connection has made a step from \<open>w\<close> to \<open>w'\<close>; when its handler has called the close callback, which is
  \<open>TCPServer::removeConnection\<close>, the server has the removal queued.
\<close>

definition peer_moved :: "uint64 \<Rightarrow> 'u world \<Rightarrow> 'u world \<Rightarrow> ('u, 'io) site \<Rightarrow> ('u, 'io) site" where
  "peer_moved i w w' h = (put_peer i w' h)\<lparr>site_server :=
     (if closes w < closes w' then TCPServer_removeConnection i (site_server h) else site_server h)\<rparr>"

abbreviation ran :: "task \<Rightarrow> ('u, 'io) site \<Rightarrow> ('u, 'io) site" where
  "ran t h \<equiv> h\<lparr>site_server := run_task t (site_server h)\<rparr>"

inductive site_step :: "('f, 'io, 't) pool_env \<Rightarrow> ('addr \<Rightarrow> bool) \<Rightarrow> 'u conn_callbacks \<Rightarrow> ('u, 'io) site \<Rightarrow> error + ('u, 'io) site \<Rightarrow> bool"
  for e verify cbs where
  listened: "Listen \<in> set (tasks (site_server h)) \<Longrightarrow>
    site_step e verify cbs h (on_server (TCPServer_listen opened (run_task Listen (site_server h))) h)"
| accepted: "Accept \<in> set (tasks (site_server h)) \<Longrightarrow> next_conn_id (site_server h) + 1 \<noteq> 0 \<Longrightarrow>
    site_step e verify cbs h (site_newConnection verify remote eps ec (ran Accept h))"
| established: "Establish i \<in> set (tasks (site_server h)) \<Longrightarrow> peer_world i h = Some w \<Longrightarrow>
    site_step e verify cbs h (rbind (connectEstablished cbs w) (\<lambda>w'. Inr (put_peer i w' (ran (Establish i) h))))"
| moved: "peer_world i h = Some w \<Longrightarrow> conn_step cbs w r \<Longrightarrow>
    site_step e verify cbs h (rbind r (\<lambda>w'. Inr (peer_moved i w w' h)))"
| removed: "Remove i \<in> set (tasks (site_server h)) \<Longrightarrow>
    site_step e verify cbs h (on_server (Inr (removeConnection_f i (run_task (Remove i) (site_server h)))) h)"
| stop: "site_step e verify cbs h (on_server (TCPServer_stop cb (site_server h)) h)"
| stopping: "StopInLoop cb \<in> set (tasks (site_server h)) \<Longrightarrow> set ids = dom (connections (site_server h)) \<Longrightarrow> sorted ids \<Longrightarrow> distinct ids \<Longrightarrow>
    site_step e verify cbs h (site_stopInLoop cb ids (ran (StopInLoop cb) h))"
| stopped: "StopSafe cb \<in> set (tasks (site_server h)) \<Longrightarrow>
    site_step e verify cbs h (on_server (stopInloopSafe e cb (run_task (StopSafe cb) (site_server h))) h)"

definition site_start :: "('f, 'io, 't) pool_env \<Rightarrow> ('u, 'io) site \<Rightarrow> bool" where
  "site_start e h \<longleftrightarrow> server_start e (site_server h) \<and> peers h = (\<lambda>_. None)"

abbreviation site_run :: "('f, 'io, 't) pool_env \<Rightarrow> ('addr \<Rightarrow> bool) \<Rightarrow> 'u conn_callbacks \<Rightarrow> ('u, 'io) site \<Rightarrow> bool" where
  "site_run e verify cbs \<equiv> reach (site_start e) (site_step e verify cbs)"

section \<open>What the server alone sees\<close>

text \<open>The fields of two servers agree, apart from the tasks and the map.\<close>

definition same_fields :: "'io tcp_server \<Rightarrow> 'io tcp_server \<Rightarrow> bool" where
  "same_fields s t \<longleftrightarrow> st t = st s \<and> substatus t = substatus s \<and> server_name t = server_name s \<and> acceptor t = acceptor s
     \<and> spool t = spool s \<and> next_conn_id t = next_conn_id s \<and> stopped_cb t = stopped_cb s \<and> stopped_calls t = stopped_calls s"

fun seen_tasks :: "('u, 'io) site \<Rightarrow> task \<Rightarrow> nat" where
  "seen_tasks h (CloseConn i) = peer_closes h i"
| "seen_tasks h t = pend (site_server h) t"

definition site_ok :: "('u, 'io) site \<Rightarrow> bool" where
  "site_ok h \<longleftrightarrow> (\<forall>i. connections (site_server h) i \<noteq> None \<longrightarrow> peer_world i h \<noteq> None)
     \<and> (\<forall>i. connections (site_server h) i = None \<longrightarrow> peer_status h i \<in> {None, Some kDisconnected})
     \<and> (\<forall>i w. peer_world i h = Some w \<longrightarrow> i \<le> next_conn_id (site_server h) \<and> (if Establish i \<in> set (tasks (site_server h)) then fresh_world w else conn_inv w))"

text \<open>
  The match: the server alone has the statuses of the objects in its map, and the close tasks and timers of the
  connections among its tasks.
\<close>

definition seen_as :: "('u, 'io) site \<Rightarrow> 'io tcp_server \<Rightarrow> bool" where
  "seen_as h s \<longleftrightarrow> site_ok h \<and> same_fields (site_server h) s
     \<and> (\<forall>i. connections s i = (if connections (site_server h) i = None then None else peer_status h i))
     \<and> (\<forall>t. pend s t = seen_tasks h t)"

section \<open>Changes that keep the match\<close>

lemma peer_world_server [simp]: "peer_world i (h\<lparr>site_server := S\<rparr>) = peer_world i h"
  "peer_status (h\<lparr>site_server := S\<rparr>) = peer_status h" "peer_closes (h\<lparr>site_server := S\<rparr>) = peer_closes h"
  by (simp_all add: peer_world_def peer_status_def peer_closes_def fun_eq_iff)

lemma put_peer_server [simp]: "site_server (put_peer i w h) = site_server h"
  "put_peer i w (h\<lparr>site_server := S\<rparr>) = (put_peer i w h)\<lparr>site_server := S\<rparr>" "(put_peer i w h)\<lparr>site_server := site_server h\<rparr> = put_peer i w h"
  by (simp_all add: put_peer_def)

text \<open>Tasks are only added, and the map stays: \<open>D\<close> says how many of each task.\<close>

definition adds :: "'io tcp_server \<Rightarrow> 'io tcp_server \<Rightarrow> (task \<Rightarrow> nat) \<Rightarrow> bool" where
  "adds s t D \<longleftrightarrow> connections t = connections s \<and> next_conn_id t = next_conn_id s \<and> (\<forall>x. pend t x = pend s x + D x)"

lemma seen_as_adds:
  assumes h: "seen_as h s" and f: "same_fields S s'" and d: "adds (site_server h) S D" "adds s s' D"
    and D: "\<And>i. D (CloseConn i) = 0" "\<And>i. D (Establish i) = 0"
  shows "seen_as (h\<lparr>site_server := S\<rparr>) s'"
proof -
  have "seen_tasks (h\<lparr>site_server := S\<rparr>) t = seen_tasks h t + D t" for t
    using d(1) D by (cases t) (simp_all add: adds_def)
  moreover have "(Establish i \<in> set (tasks S)) = (Establish i \<in> set (tasks (site_server h)))" for i
    using d(1) D(2) by (simp add: pend_pos adds_def)
  ultimately show ?thesis using h f d by (simp add: seen_as_def site_ok_def adds_def)
qed

lemma seen_as_fields:
  assumes h: "seen_as h s" and f: "same_fields S s'"
    and S: "connections S = connections (site_server h)" "next_conn_id S = next_conn_id (site_server h)" "tasks S = tasks (site_server h)"
    and s: "connections s' = connections s" "next_conn_id s' = next_conn_id s" "tasks s' = tasks s"
  shows "seen_as (h\<lparr>site_server := S\<rparr>) s'"
  by (rule seen_as_adds [OF h f, where D = "\<lambda>_. 0"]) (simp_all add: adds_def pend_def S s)

lemma seen_as_ran:
  assumes h: "seen_as h s" and t: "t \<in> set (tasks (site_server h))" "\<And>i. t \<noteq> CloseConn i" "\<And>i. t \<noteq> Establish i"
  shows "seen_as (ran t h) (run_task t s)" and "t \<in> set (tasks s)"
proof -
  have "seen_tasks (ran t h) x = seen_tasks h x - (if t = x then 1 else 0)" for x
    using t(2) by (cases x) auto
  moreover have "(Establish i \<in> set (tasks (run_task t (site_server h)))) = (Establish i \<in> set (tasks (site_server h)))" for i
    using t(3) [of i] by simp
  moreover have "same_fields (run_task t (site_server h)) (run_task t s)"
    using h by (simp add: seen_as_def same_fields_def) (simp add: run_task_def)
  ultimately show "seen_as (ran t h) (run_task t s)" using h by (simp add: seen_as_def site_ok_def)
  have "pend s t = pend (site_server h) t" using h t(2) by (cases t) (auto simp: seen_as_def)
  then show "t \<in> set (tasks s)" using t(1) by (simp add: pend_pos)
qed

lemma seen_as_add_task:
  assumes h: "seen_as h s" and t: "\<And>i. t \<noteq> CloseConn i" "\<And>i. t \<noteq> Establish i"
  shows "seen_as (h\<lparr>site_server := add_task t (site_server h)\<rparr>) (add_task t s)"
proof (rule seen_as_adds [OF h])
  show "same_fields (add_task t (site_server h)) (add_task t s)"
    using h by (simp add: seen_as_def same_fields_def) (simp add: add_task_def)
  show "adds (site_server h) (add_task t (site_server h)) (\<lambda>x. if t = x then 1 else 0)" "adds s (add_task t s) (\<lambda>x. if t = x then 1 else 0)"
    by (simp_all add: adds_def)
qed (use t in simp_all)

text \<open>One connection changes, and the server with it.\<close>

lemma seen_as_put:
  assumes h: "seen_as h s" and f: "same_fields S s'"
    and c: "\<And>j. j \<noteq> i \<Longrightarrow> connections S j = connections (site_server h) j" "connections S i = None \<longrightarrow> status (conn w) = kDisconnected"
      "connections s' = (connections s)(i := if connections S i = None then None else Some (status (conn w)))"
    and n: "next_conn_id (site_server h) \<le> next_conn_id S" "i \<le> next_conn_id S"
    and w: "if Establish i \<in> set (tasks S) then fresh_world w else conn_inv w"
    and t: "\<And>j. j \<noteq> i \<Longrightarrow> pend S (Establish j) = pend (site_server h) (Establish j)"
      "\<And>j. pend s' (CloseConn j) = (if j = i then close_tasks w else pend s (CloseConn j))"
      "\<And>x. (\<And>j. x \<noteq> CloseConn j) \<Longrightarrow> pend s' x = pend S x"
  shows "seen_as ((put_peer i w h)\<lparr>site_server := S\<rparr>) s'"
proof -
  let ?h = "(put_peer i w h)\<lparr>site_server := S\<rparr>"
  have tasks: "pend s' x = seen_tasks ?h x" for x
    using h t(2,3) by (cases x) (simp_all add: seen_as_def)
  have conns: "connections s' j = (if connections S j = None then None else peer_status ?h j)" for j
    using h c by (cases "j = i") (simp_all add: seen_as_def)
  have "j \<le> next_conn_id S \<and> (if Establish j \<in> set (tasks S) then fresh_world x else conn_inv x)" if x: "peer_world j ?h = Some x" for j x
  proof (cases "j = i")
    case True
    then show ?thesis using x w n(2) by (auto simp: peer_world_put)
  next
    case False
    then obtain y where y: "peer_world j h = Some y" "x = y\<lparr>cmem := cmem w, user := user w\<rparr>"
      using x by (auto simp: peer_world_put)
    have "(Establish j \<in> set (tasks S)) = (Establish j \<in> set (tasks (site_server h)))" using t(1) [OF False] by (simp add: pend_pos)
    moreover have "j \<le> next_conn_id (site_server h)" "if Establish j \<in> set (tasks (site_server h)) then fresh_world y else conn_inv y"
      using h y(1) by (auto simp: seen_as_def site_ok_def)
    ultimately show ?thesis using y(2) n(1) order_trans [OF _ n(1)] by auto
  qed
  moreover have "connections S j \<noteq> None \<longrightarrow> peer_world j ?h \<noteq> None" for j
    using h c(1) by (cases "j = i") (simp_all add: peer_world_put seen_as_def site_ok_def)
  moreover have "connections S j = None \<longrightarrow> peer_status ?h j \<in> {None, Some kDisconnected}" for j
    using h c by (cases "j = i") (simp_all add: seen_as_def site_ok_def)
  ultimately have "site_ok ?h" unfolding site_ok_def by simp
  then show ?thesis using f conns tasks by (simp add: seen_as_def)
qed

section \<open>The operations of the server\<close>

text \<open>
  What the server does on its own it does to both sides alike: the operation succeeds on the side of the server alone too,
  its fields agree again, and the same tasks have been added.
\<close>

definition alike :: "('io tcp_server \<Rightarrow> error + 'io tcp_server) \<Rightarrow> 'io tcp_server \<Rightarrow> 'io tcp_server \<Rightarrow> 'io tcp_server \<Rightarrow> bool" where
  "alike f S s S' \<longleftrightarrow> (\<exists>s' D. f s = Inr s' \<and> same_fields S' s' \<and> adds S S' D \<and> adds s s' D
     \<and> (\<forall>i. D (CloseConn i) = 0 \<and> D (Establish i) = 0))"

lemma alikeI:
  assumes "f s = Inr s'" and "same_fields S' s'" and "adds S S' D" and "adds s s' D" and "\<And>i. D (CloseConn i) = 0" and "\<And>i. D (Establish i) = 0"
  shows "alike f S s S'"
  unfolding alike_def using assms by blast

lemma alike_seen:
  assumes "seen_as h s" and "alike f (site_server h) s S"
  obtains s' where "f s = Inr s'" "seen_as (h\<lparr>site_server := S\<rparr>) s'"
proof -
  obtain s' D where d: "f s = Inr s'" "same_fields S s'" "adds (site_server h) S D" "adds s s' D"
    "\<And>i. D (CloseConn i) = 0" "\<And>i. D (Establish i) = 0"
    using assms(2) unfolding alike_def by blast
  show thesis by (rule that [OF d(1) seen_as_adds [OF assms(1) d(2-6)]])
qed

lemma doAccept_alike:
  assumes f: "same_fields S s" and run: "doAccept S = Inr S'"
  shows "alike doAccept S s S'"
proof -
  obtain p l p1 where p: "spool S = Some p" "getNextLoop p = Inr (l, p1)" "acceptor S" "S' = add_task Accept (S\<lparr>spool := Some p1\<rparr>)"
    using run by (auto simp: doAccept_def rbind_eq_Inr_iff split: option.splits if_splits)
  then have "doAccept s = Inr (add_task Accept (s\<lparr>spool := Some p1\<rparr>))" using f by (simp add: doAccept_def same_fields_def)
  then show ?thesis
    by (rule alikeI [where D = "\<lambda>t. if Accept = t then 1 else 0"])
      (use f p(4) in \<open>simp_all add: same_fields_def adds_def add_task_def pend_def\<close>)
qed

lemma listen_alike:
  assumes f: "same_fields S s" and run: "TCPServer_listen opened S = Inr S'"
  shows "alike (TCPServer_listen opened) S s S'"
proof -
  have o: "opened = Inr ()" "doAccept (S\<lparr>acceptor := True, st := kRunning\<rparr>) = Inr S'"
    using run by (auto simp: TCPServer_listen_def Let_def rbind_eq_Inr_iff)
  have "same_fields (S\<lparr>acceptor := True, st := kRunning\<rparr>) (s\<lparr>acceptor := True, st := kRunning\<rparr>)" using f by (simp add: same_fields_def)
  from doAccept_alike [OF this o(2)] show ?thesis
    by (auto simp: alike_def TCPServer_listen_def adds_def o(1))
qed

lemma stop_alike:
  assumes f: "same_fields S s" and run: "TCPServer_stop cb S = Inr S'"
  shows "alike (TCPServer_stop cb) S s S'"
proof -
  have S: "st S = kRunning" "S' = add_task (StopInLoop cb) S"
    using run by (auto simp: TCPServer_stop_def rbind_eq_Inr_iff cassert_def split: if_splits)
  then have "TCPServer_stop cb s = Inr (add_task (StopInLoop cb) s)" using f by (simp add: TCPServer_stop_def same_fields_def)
  then show ?thesis
    by (rule alikeI [where D = "\<lambda>t. if StopInLoop cb = t then 1 else 0"])
      (use f S(2) in \<open>simp_all add: same_fields_def adds_def add_task_def pend_def\<close>)
qed

lemma stopInloopSafe_alike:
  assumes f: "same_fields S s" and run: "stopInloopSafe e cb S = Inr S'"
  shows "alike (stopInloopSafe e cb) S s S'"
proof -
  let ?g = "\<lambda>S. (if cb then S\<lparr>substatus := kSubStatusNull, spool := None, stopped_calls := stopped_calls S + 1, st := kStopped\<rparr>
    else S\<lparr>substatus := kSubStatusNull, spool := None, st := kStopped\<rparr>)"
  have "S' = ?g S \<and> stopInloopSafe e cb s = Inr (?g s)"
    using run f by (cases S; cases s)
      (auto simp: stopInloopSafe_def stopThreadPool_def same_fields_def isStopping_def rbind_eq_Inr_iff Let_def split: option.splits if_splits)
  then show ?thesis
    by (intro alikeI [where D = "\<lambda>_. 0" and s' = "?g s"]) (use f in \<open>simp_all add: same_fields_def adds_def\<close>)
qed

lemma seen_fields: "seen_as h s \<Longrightarrow> same_fields (site_server h) s"
  by (simp add: seen_as_def)

lemma seen_pend: "seen_as h s \<Longrightarrow> (\<And>i. t \<noteq> CloseConn i) \<Longrightarrow> pend s t = pend (site_server h) t"
  by (cases t) (auto simp: seen_as_def)

lemma seen_none: "seen_as h s \<Longrightarrow> (connections s i = None) = (connections (site_server h) i = None)"
  by (auto simp: seen_as_def site_ok_def peer_status_def)

lemma one_server_step: "server_step e verify s (Inr s') \<Longrightarrow> server_steps e verify s s'"
  by (rule r_into_rtranclp)

text \<open>A task of the server that runs an operation of its own.\<close>

lemma own_task:
  assumes h: "seen_as h s" and t: "t \<in> set (tasks (site_server h))" "\<And>i. t \<noteq> CloseConn i" "\<And>i. t \<noteq> Establish i"
    and run: "f (run_task t (site_server h)) = Inr S"
    and al: "\<And>S s S'. same_fields S s \<Longrightarrow> f S = Inr S' \<Longrightarrow> alike f S s S'"
    and step: "\<And>s'. t \<in> set (tasks s) \<Longrightarrow> f (run_task t s) = Inr s' \<Longrightarrow> server_step e verify s (Inr s')"
  shows "\<exists>s'. server_steps e verify s s' \<and> seen_as (h\<lparr>site_server := S\<rparr>) s'"
proof -
  note r = seen_as_ran [OF h t]
  have "alike f (site_server (ran t h)) (run_task t s) S" using al [OF seen_fields [OF r(1)]] run by simp
  then obtain s' where "f (run_task t s) = Inr s'" "seen_as ((ran t h)\<lparr>site_server := S\<rparr>) s'" using alike_seen [OF r(1)] by blast
  then show ?thesis using one_server_step [OF step [OF r(2)]] by auto
qed

lemma removed_sim:
  assumes h: "seen_as h s" and inv: "conns_inv s" and t: "Remove i \<in> set (tasks (site_server h))"
  shows "\<exists>s'. server_steps e verify s s' \<and> seen_as (h\<lparr>site_server := removeConnection_f i (run_task (Remove i) (site_server h))\<rparr>) s'"
proof -
  let ?S = "run_task (Remove i) (site_server h)" and ?s = "run_task (Remove i) s"
  note r = seen_as_ran [OF h t]
  have rs: "seen_as (ran (Remove i) h) ?s" "Remove i \<in> set (tasks s)" using r by simp_all
  have "0 < pend s (Remove i)" using rs(2) by (simp add: pend_pos)
  then have "connections s i = Some kDisconnected" using inv unfolding conns_inv_def by (metis less_numeral_extra(3))
  then have st: "peer_status h i = Some kDisconnected" using h by (simp add: seen_as_def split: if_splits)
  let ?S1 = "?S\<lparr>connections := (connections ?S)(i := None)\<rparr>" and ?s1 = "?s\<lparr>connections := (connections ?s)(i := None)\<rparr>"
  have "seen_tasks (h\<lparr>site_server := ?S1\<rparr>) t = seen_tasks (ran (Remove i) h) t" for t by (cases t) simp_all
  then have s1: "seen_as (h\<lparr>site_server := ?S1\<rparr>) ?s1"
    using rs(1) st by (auto simp: seen_as_def site_ok_def same_fields_def)
  have none: "(connections ?s1 = (\<lambda>_. None)) = (connections ?S1 = (\<lambda>_. None))"
    unfolding no_conns using seen_none [OF s1] by simp
  have stop: "isStopping ?s1 = isStopping ?S1" "stopped_cb ?s1 = stopped_cb ?S1" using seen_fields [OF s1] by (simp_all add: same_fields_def isStopping_def)
  let ?c = "isStopping ?S1 \<and> connections ?S1 = (\<lambda>_. None)" and ?a = "add_task (StopSafe (stopped_cb ?S1))"
  have S: "removeConnection_f i ?S = (if ?c then ?a ?S1 else ?S1)" unfolding removeConnection_f_def Let_def ..
  have s: "removeConnection_f i ?s = (if ?c then ?a ?s1 else ?s1)" unfolding removeConnection_f_def Let_def none stop ..
  have s2: "seen_as (h\<lparr>site_server := ?a ?S1\<rparr>) (?a ?s1)" using seen_as_add_task [OF s1, of "StopSafe (stopped_cb ?S1)"] by simp
  have "seen_as (h\<lparr>site_server := removeConnection_f i ?S\<rparr>) (removeConnection_f i ?s)"
  proof (cases ?c)
    case True
    show ?thesis unfolding S s if_P [OF True] by (rule s2)
  next
    case False
    show ?thesis unfolding S s if_not_P [OF False] by (rule s1)
  qed
  then show ?thesis using one_server_step [OF server_step.removed [OF rs(2)]] by blast
qed

section \<open>The steps of connections\<close>

lemma fresh_step: "conn_step cbs w r \<Longrightarrow> fresh_world w \<Longrightarrow> r = Inr w' \<Longrightarrow> w' = w"
  by (induction rule: conn_step.induct)
    (auto simp: fresh_world_def TCPConn_new_def TCPConn_send_def TCPConn_close_def closeWithDelay_def)

text \<open>What the match says about one connection.\<close>

lemma seen_peer:
  assumes "seen_as h s" and "peer_world i h = Some w"
  shows "connections s i = (if connections (site_server h) i = None then None else Some (status (conn w)))"
    and "status (conn w) \<noteq> kDisconnected \<Longrightarrow> connections (site_server h) i \<noteq> None"
    and "pend s (CloseConn i) = close_tasks w" and "i \<le> next_conn_id (site_server h)"
    and "if Establish i \<in> set (tasks (site_server h)) then fresh_world w else conn_inv w"
  using assms by (auto simp: seen_as_def site_ok_def peer_status_def peer_closes_def)

lemma effect_sim:
  assumes h: "seen_as h s" and w: "peer_world i h = Some w" and inv: "conn_inv w'" and x: "has_effect x w w'"
    and up: "Establish i \<notin> set (tasks (site_server h))"
  shows "\<exists>s'. server_steps e verify s s' \<and> seen_as (peer_moved i w w' h) s'"
proof -
  let ?S = "site_server h"
  note p = seen_peer [OF h w]
  have n: "connections ?S i = None \<longrightarrow> status (conn w) = kDisconnected" using p(2) by blast
  show ?thesis
  proof (cases x)
    case Quiet
    have "seen_as ((put_peer i w' h)\<lparr>site_server := ?S\<rparr>) s"
      by (rule seen_as_put [OF h seen_fields [OF h]])
        (use x Quiet n p(1,3,4) inv up seen_pend [OF h] in \<open>auto simp: fun_eq_iff\<close>)
    then show ?thesis using x Quiet by (intro exI [of _ s]) (simp add: peer_moved_def)
  next
    case StartsClosing
    then have c: "connections s i = Some kConnected" using x p(1,2) by auto
    have "seen_as ((put_peer i w' h)\<lparr>site_server := ?S\<rparr>) (close_conn i s)"
      by (rule seen_as_put [OF h])
        (use x StartsClosing p c inv up seen_pend [OF h] seen_fields [OF h] in
          \<open>auto simp: fun_eq_iff close_conn_def same_fields_def add_task_def pend_def\<close>)
    then show ?thesis using x StartsClosing one_server_step [OF server_step.user_close]
      by (intro exI [of _ "close_conn i s"]) (simp add: peer_moved_def)
  next
    case Fails
    then have c: "connections s i = Some (status (conn w))" "status (conn w) \<noteq> kDisconnected" using x p(1,2) by auto
    have "seen_as ((put_peer i w' h)\<lparr>site_server := TCPServer_removeConnection i ?S\<rparr>) (conn_closed i s)"
      by (rule seen_as_put [OF h])
        (use x Fails p c inv up seen_pend [OF h] seen_fields [OF h] in
          \<open>auto simp: fun_eq_iff conn_closed_def TCPServer_removeConnection_def same_fields_def add_task_def pend_def\<close>)
    then show ?thesis using x Fails one_server_step [OF server_step.failed [OF c]]
      by (intro exI [of _ "conn_closed i s"]) (simp add: peer_moved_def)
  next
    case ClosedByTask
    then have c: "connections s i = Some kDisconnecting" "CloseConn i \<in> set (tasks s)"
      using x p(1,2,3) by (auto simp: pend_pos)
    let ?s = "conn_closed i (run_task (CloseConn i) s)"
    have "seen_as ((put_peer i w' h)\<lparr>site_server := TCPServer_removeConnection i ?S\<rparr>) ?s"
      by (rule seen_as_put [OF h])
        (use x ClosedByTask p c inv up seen_pend [OF h] seen_fields [OF h] in
          \<open>auto simp: fun_eq_iff conn_closed_def TCPServer_removeConnection_def same_fields_def add_task_def run_task_def pend_def\<close>)
    moreover have "server_step e verify s (Inr ?s)" using server_step.closed [OF c(2), of e verify] c(1) by simp
    ultimately show ?thesis using x ClosedByTask one_server_step
      by (intro exI [of _ ?s]) (simp add: peer_moved_def)
  qed
qed

lemma moved_sim:
  assumes h: "seen_as h s" and w: "peer_world i h = Some w" and ok: "callbacks_ok cbs" and step: "conn_step cbs w (Inr w')"
  shows "\<exists>s'. server_steps e verify s s' \<and> seen_as (peer_moved i w w' h) s'"
proof (cases "Establish i \<in> set (tasks (site_server h))")
  case True
  then have "w' = w" using seen_peer(5) [OF h w] fresh_step [OF step] by simp
  then have "peer_moved i w w' h = h" using put_peer_same [OF w] by (simp add: peer_moved_def)
  then show ?thesis using h by auto
next
  case False
  then have "conn_inv w'" using conn_step_inv [OF step ok] seen_peer(5) [OF h w] by simp
  moreover obtain x where "has_effect x w w'" using conn_step_effect [OF step ok] by blast
  ultimately show ?thesis using effect_sim [OF h w _ _ False] by blast
qed

lemma established_sim:
  assumes h: "seen_as h s" and inv: "conns_inv s" and t: "Establish i \<in> set (tasks (site_server h))" and w: "peer_world i h = Some w"
    and ok: "callbacks_ok cbs" and run: "connectEstablished cbs w = Inr w'"
  shows "\<exists>s'. server_steps e verify s s' \<and> seen_as (put_peer i w' (ran (Establish i) h)) s'"
proof -
  let ?S = "run_task (Establish i) (site_server h)" and ?s = "conn_established i (run_task (Establish i) s)"
  note p = seen_peer [OF h w]
  have pe: "pend s (Establish i) = pend (site_server h) (Establish i)" by (rule seen_pend [OF h]) simp
  then have t': "Establish i \<in> set (tasks s)" using t by (simp add: pend_pos)
  then have pos: "0 < pend s (Establish i)" by (simp add: pend_pos)
  have c: "connections s i = Some kDisconnected" using conns_inv_established(1) [OF inv t'] .
  then have "pend s (Establish i) + pend s (Remove i) = 1" using inv by (simp add: conns_inv_def)
  then have gone: "Establish i \<notin> set (tasks ?S)" unfolding pend_pos using pos pe by simp
  have fresh: "fresh_world w" using p(5) t by simp
  have conn': "conn_inv w'" using connectEstablished_inv [OF ok fresh run] .
  have n: "connections (site_server h) i \<noteq> None" using c seen_none [OF h, of i] by simp
  note ef = connectEstablished_effect [OF ok run]
  have step: "server_step e verify s (Inr ?s)" using server_step.established [OF t'] .
  have s1: "connections ?s = (connections s)(i \<mapsto> kConnected)" using c by (simp add: conn_established_def)
  show ?thesis
  proof (cases "status (conn w') = kConnected")
    case True
    have "seen_as ((put_peer i w' h)\<lparr>site_server := ?S\<rparr>) ?s"
      by (rule seen_as_put [OF h])
        (use ef True p(3,4) n s1 conn' gone seen_pend [OF h] seen_fields [OF h] in
          \<open>auto simp: conn_established_def same_fields_def run_task_def pend_def\<close>)
    then show ?thesis using one_server_step [OF step] by auto
  next
    case False
    then have k: "status (conn w') = kDisconnecting" "close_tasks w' = Suc (close_tasks w)" using ef by auto
    have "seen_as ((put_peer i w' h)\<lparr>site_server := ?S\<rparr>) (close_conn i ?s)"
      by (rule seen_as_put [OF h])
        (use k p(3,4) n s1 conn' gone seen_pend [OF h] seen_fields [OF h] in
          \<open>auto simp: close_conn_def conn_established_def same_fields_def run_task_def add_task_def pend_def\<close>)
    moreover have "server_steps e verify s (close_conn i ?s)"
      using rtranclp.rtrancl_into_rtrancl [OF one_server_step [OF step] server_step.user_close] .
    ultimately show ?thesis by auto
  qed
qed

section \<open>Stopping and accepting\<close>

lemma close_peer_server: "site_server (close_peer i h) = site_server h" "close_peer i (h\<lparr>site_server := S\<rparr>) = (close_peer i h)\<lparr>site_server := S\<rparr>"
  by (simp_all add: close_peer_def split: option.splits)

lemma fold_close_peer_server:
  "site_server (fold close_peer ids h) = site_server h" "fold close_peer ids (h\<lparr>site_server := S\<rparr>) = (fold close_peer ids h)\<lparr>site_server := S\<rparr>"
  by (induction ids arbitrary: h) (simp_all add: close_peer_server)

lemma close_peer_sim:
  assumes h: "seen_as h s"
  shows "seen_as (close_peer i h) (close_conn i s)"
proof (cases "\<exists>w. peer_world i h = Some w \<and> status (conn w) = kConnected")
  case False
  then have "close_peer i h = h" by (auto simp: close_peer_def isConnected_def split: option.splits)
  moreover have "connections s i \<noteq> Some kConnected" using h False by (auto simp: seen_as_def peer_status_def split: if_splits)
  ultimately show ?thesis using h by (simp add: close_conn_def)
next
  case True
  then obtain w where w: "peer_world i h = Some w" "status (conn w) = kConnected" by blast
  note p = seen_peer [OF h w(1)]
  have c: "connections s i = Some kConnected" "connections (site_server h) i \<noteq> None" using p(1,2) w(2) by auto
  let ?w = "TCPConn_close w"
  have k: "status (conn ?w) = kDisconnecting" "close_tasks ?w = Suc (close_tasks w)" using w(2) by (simp_all add: TCPConn_close_def)
  have "Establish i \<notin> set (tasks (site_server h))" using p(5) w(2) by (auto simp: fresh_world_def TCPConn_new_def split: if_splits)
  moreover have "conn_inv ?w" if "conn_inv w" using conn_inv_public [OF that public_close] .
  ultimately have "seen_as ((put_peer i ?w h)\<lparr>site_server := site_server h\<rparr>) (close_conn i s)"
    by (intro seen_as_put [OF h])
      (use k c p(3,4,5) seen_pend [OF h] seen_fields [OF h] in \<open>auto simp: close_conn_def same_fields_def add_task_def pend_def\<close>)
  then show ?thesis using w by (simp add: close_peer_def isConnected_def)
qed

lemma fold_close_sim: "seen_as h s \<Longrightarrow> seen_as (fold close_peer ids h) (fold close_conn ids s)"
  by (induction ids arbitrary: h s) (simp_all add: close_peer_sim)

lemma seen_dom: "seen_as h s \<Longrightarrow> dom (connections s) = dom (connections (site_server h))"
  by (simp add: dom_def seen_none)

lemma stopping_sim:
  assumes h: "seen_as h s" and t: "StopInLoop cb \<in> set (tasks (site_server h))" and ids: "set ids = dom (connections (site_server h))" "sorted ids" "distinct ids"
    and run: "site_stopInLoop cb ids (ran (StopInLoop cb) h) = Inr h'"
  shows "\<exists>s'. server_steps e verify s s' \<and> seen_as h' s'"
proof -
  let ?f = "\<lambda>s :: 'b tcp_server. s\<lparr>st := kStopping, substatus := kStoppingListener, acceptor := False\<rparr>"
  let ?h = "ran (StopInLoop cb) h" and ?s = "run_task (StopInLoop cb) s"
  have r: "seen_as ?h ?s" "StopInLoop cb \<in> set (tasks s)" using seen_as_ran [OF h t] by simp_all
  have s1: "seen_as (?h\<lparr>site_server := ?f (site_server ?h)\<rparr>) (?f ?s)"
    by (rule seen_as_fields [OF r(1)]) (use seen_fields [OF r(1)] in \<open>simp_all add: same_fields_def\<close>)
  have acc: "acceptor (site_server h)" "acceptor s" using run seen_fields [OF h]
    by (auto simp: site_stopInLoop_def Let_def same_fields_def split: if_splits)
  have step: "server_step e verify s (stopInLoop cb ids ?s)"
    using server_step.stopping [OF r(2)] ids seen_dom [OF h] by simp
  show ?thesis
  proof (cases "connections (site_server h) = (\<lambda>_. None)")
    case True
    then have "connections s = (\<lambda>_. None)" unfolding no_conns using seen_none [OF h] by simp
    then have run': "stopInLoop cb ids ?s = Inr (add_task (StopSafe cb) (?f ?s))" using acc by (simp add: stopInLoop_def Let_def)
    have "h' = h\<lparr>site_server := add_task (StopSafe cb) (?f (site_server ?h))\<rparr>" using run True acc by (simp add: site_stopInLoop_def Let_def)
    moreover have "seen_as (h\<lparr>site_server := add_task (StopSafe cb) (?f (site_server ?h))\<rparr>) (add_task (StopSafe cb) (?f ?s))"
      using seen_as_add_task [OF s1, of "StopSafe cb"] by simp
    ultimately have "seen_as h' (add_task (StopSafe cb) (?f ?s))" by simp
    then show ?thesis using one_server_step [OF step [unfolded run']] by blast
  next
    case False
    then have "connections s \<noteq> (\<lambda>_. None)" unfolding no_conns using seen_none [OF h] by simp
    then have run': "stopInLoop cb ids ?s = Inr ((fold close_conn ids (?f ?s))\<lparr>stopped_cb := cb\<rparr>)" using acc by (simp add: stopInLoop_def Let_def)
    have h': "h' = (fold close_peer ids h)\<lparr>site_server := (?f (site_server ?h))\<lparr>stopped_cb := cb\<rparr>\<rparr>"
      using run False acc by (simp add: site_stopInLoop_def Let_def fold_close_peer_server)
    have s2: "seen_as ((fold close_peer ids h)\<lparr>site_server := ?f (site_server ?h)\<rparr>) (fold close_conn ids (?f ?s))"
      using fold_close_sim [OF s1, of ids] by (simp add: fold_close_peer_server)
    have "seen_as ((fold close_peer ids h)\<lparr>site_server := ?f (site_server ?h), site_server := (?f (site_server ?h))\<lparr>stopped_cb := cb\<rparr>\<rparr>)
        ((fold close_conn ids (?f ?s))\<lparr>stopped_cb := cb\<rparr>)"
      by (rule seen_as_fields [OF s2]) (use seen_fields [OF s2] in \<open>simp_all add: same_fields_def\<close>)
    then have "seen_as h' ((fold close_conn ids (?f ?s))\<lparr>stopped_cb := cb\<rparr>)" unfolding h' by simp
    then show ?thesis using one_server_step [OF step [unfolded run']] by blast
  qed
qed

lemma new_peer_sim:
  assumes h: "seen_as h s" and wrap: "next_conn_id (site_server h) + 1 \<noteq> 0"
  defines "i \<equiv> next_conn_id (site_server h) + 1"
  defines "new \<equiv> \<lambda>s :: 'io tcp_server. add_task (Establish i) (s\<lparr>next_conn_id := i, connections := (connections s)(i \<mapsto> kDisconnected)\<rparr>)"
  shows "seen_as ((put_peer i (new_peer i eps h) h)\<lparr>site_server := new (site_server h)\<rparr>) (new s)"
proof (rule seen_as_put [OF h])
  have less: "next_conn_id (site_server h) < i" unfolding i_def using wrap by (rule next_id_less)
  then have none: "peer_world i h = None" using seen_peer(4) [OF h, of i] by (cases "peer_world i h") auto
  show "next_conn_id (site_server h) \<le> next_conn_id (new (site_server h))" using less by (simp add: new_def)
  show "same_fields (new (site_server h)) (new s)" using seen_fields [OF h] by (simp add: new_def same_fields_def) (simp add: add_task_def)
  have "new_peer i eps h = \<lparr>conn = TCPConn_new i eps, cmem = hub_mem h, pending = [], calls = [], user = hub_user h\<rparr>" by (simp add: new_peer_def)
  then have w: "status (conn (new_peer i eps h)) = kDisconnected" "close_tasks (new_peer i eps h) = 0" by (simp_all add: TCPConn_new_def close_tasks_def)
  then show "connections (new s) = (connections s)(i := if connections (new (site_server h)) i = None then None else Some (status (conn (new_peer i eps h))))"
    by (simp add: new_def)
  have "pend s (CloseConn i) = 0" using h none by (simp add: seen_as_def peer_closes_def)
  then show "pend (new s) (CloseConn j) = (if j = i then close_tasks (new_peer i eps h) else pend s (CloseConn j))" for j
    using w(2) by (simp add: new_def)
  show "pend (new s) x = pend (new (site_server h)) x" if "\<And>j. x \<noteq> CloseConn j" for x using seen_pend [OF h that] by (simp add: new_def)
qed (simp_all add: new_def new_peer_fresh)

lemma accepted_sim:
  assumes h: "seen_as h s" and t: "Accept \<in> set (tasks (site_server h))" and wrap: "next_conn_id (site_server h) + 1 \<noteq> 0"
    and run: "site_newConnection verify remote eps ec (ran Accept h) = Inr h'"
  shows "\<exists>s'. server_steps e verify s s' \<and> seen_as h' s'"
proof -
  let ?h = "ran Accept h" and ?s = "run_task Accept s"
  have r: "seen_as ?h ?s" "Accept \<in> set (tasks s)" using seen_as_ran [OF h t] by simp_all
  let ?i = "next_conn_id (site_server h) + 1"
  let ?new = "\<lambda>s :: 'b tcp_server. add_task (Establish ?i) (s\<lparr>next_conn_id := ?i, connections := (connections s)(?i \<mapsto> kDisconnected)\<rparr>)"
  have ids: "next_conn_id s = next_conn_id (site_server h)" using seen_fields [OF h] by (simp add: same_fields_def)
  have step: "server_step e verify s (TCPServer_newConnection verify remote ec ?s)"
    using server_step.accepted [OF r(2)] wrap ids by simp
  let ?g = "\<lambda>s. if ec \<noteq> operation_aborted then doAccept s else Inr s"
  have g: "alike ?g S s S'" if "same_fields S s" "?g S = Inr S'" for S s S'
    using that doAccept_alike [OF that(1), of S'] by (auto simp: alike_def adds_def intro: exI [of _ "\<lambda>_. 0"] split: if_splits)
  define h1 and s1 where "h1 = (if ec = Success \<and> verified verify remote then (put_peer ?i (new_peer ?i eps ?h) ?h)\<lparr>site_server := ?new (site_server ?h)\<rparr> else ?h)"
    and "s1 = (if ec = Success \<and> verified verify remote then ?new ?s else ?s)"
  have m: "seen_as h1 s1" unfolding h1_def s1_def using new_peer_sim [OF r(1)] wrap r(1) by simp
  obtain S where S0: "TCPServer_newConnection verify remote ec (site_server ?h) = Inr S"
    and S: "h' = h1\<lparr>site_server := S\<rparr>"
    using run by (auto simp: site_newConnection_def on_server_def Let_def rbind_eq_Inr_iff h1_def)
  have S1: "?g (site_server h1) = Inr S"
    using newConnection_verified [OF S0] by (auto simp: h1_def split: if_splits)
  obtain s' where s': "?g s1 = Inr s'" "seen_as (h1\<lparr>site_server := S\<rparr>) s'"
    using alike_seen [OF m g [OF seen_fields [OF m] S1]] by blast
  have "ec = Success \<Longrightarrow> \<exists>a. remote = Inr a" using S0 by (auto simp: TCPServer_newConnection_def rbind_eq_Inr_iff)
  then have "TCPServer_newConnection verify remote ec ?s = Inr s'"
    using s'(1) ids by (auto simp: TCPServer_newConnection_def Let_def s1_def verified_def)
  then show ?thesis using one_server_step step s'(2) S by metis
qed

section \<open>The simulation\<close>

lemma site_step_sim:
  assumes step: "site_step e verify cbs h (Inr h')" and ok: "callbacks_ok cbs" and run: "server_run e verify s" and h: "seen_as h s"
  shows "\<exists>s'. server_steps e verify s s' \<and> seen_as h' s'"
  using step
proof (cases rule: site_step.cases)
  case (listened opened)
  then obtain S where S: "TCPServer_listen opened (run_task Listen (site_server h)) = Inr S" "h' = h\<lparr>site_server := S\<rparr>"
    by (auto simp: on_server_def Inr_eq_rbind_iff)
  show ?thesis unfolding S(2)
    by (rule own_task [OF h listened(2) _ _ S(1) listen_alike])
      (use server_step.listened [of s e verify opened] in simp_all)
next
  case (accepted remote eps ec)
  then show ?thesis using accepted_sim [OF h accepted(2,3)] by metis
next
  case (established i w)
  then obtain w' where "connectEstablished cbs w = Inr w'" "h' = put_peer i w' (ran (Establish i) h)" by (auto simp: Inr_eq_rbind_iff)
  moreover have "conns_inv s" using server_run_inv [OF run] by (simp add: server_inv_def)
  ultimately show ?thesis using established_sim [OF h _ established(2,3) ok] by blast
next
  case (moved i w r)
  then obtain w' where "conn_step cbs w (Inr w')" "h' = peer_moved i w w' h" by (auto simp: Inr_eq_rbind_iff)
  then show ?thesis using moved_sim [OF h moved(2) ok] by blast
next
  case (removed i)
  have "conns_inv s" using server_run_inv [OF run] by (simp add: server_inv_def)
  then show ?thesis using removed_sim [OF h _ removed(2)] removed(1) by (simp add: on_server_def)
next
  case (stop cb)
  then obtain S where S: "TCPServer_stop cb (site_server h) = Inr S" "h' = h\<lparr>site_server := S\<rparr>"
    by (auto simp: on_server_def Inr_eq_rbind_iff)
  obtain s' where "TCPServer_stop cb s = Inr s'" "seen_as h' s'"
    using alike_seen [OF h stop_alike [OF seen_fields [OF h] S(1)]] unfolding S(2) by blast
  then show ?thesis using one_server_step server_step.stop [of e verify s cb] by metis
next
  case (stopping cb ids)
  then show ?thesis using stopping_sim [OF h stopping(2-5)] by metis
next
  case (stopped cb)
  then obtain S where S: "stopInloopSafe e cb (run_task (StopSafe cb) (site_server h)) = Inr S" "h' = h\<lparr>site_server := S\<rparr>"
    by (auto simp: on_server_def Inr_eq_rbind_iff)
  show ?thesis unfolding S(2)
    by (rule own_task [OF h stopped(2) _ _ S(1) stopInloopSafe_alike])
      (use server_step.stopped [of cb s e verify] in simp_all)
qed

lemma site_start_seen:
  assumes "site_start e h"
  shows "server_start e (site_server h) \<and> seen_as h (site_server h)"
proof -
  have start: "server_start e (site_server h)" and none: "peer_world i h = None" for i
    using assms by (auto simp: site_start_def peer_world_def)
  have inv: "server_inv (env_self e) (site_server h)" using start server_started_inv by (auto simp: server_start_def)
  have "st (site_server h) = kStarting"
    using start by (auto simp: server_start_def TCPServer_start_def Let_def rbind_eq_Inr_iff split: option.splits dest!: sym [of _ "site_server h"])
  then have "connections (site_server h) = (\<lambda>_. None)" "tasks (site_server h) = [Listen]" using inv by (simp_all add: server_inv_def)
  moreover have "pend (site_server h) t = seen_tasks h t" for t
    using none calculation(2) by (cases t) (simp_all add: pend_def peer_closes_def)
  ultimately show ?thesis using start none by (simp add: seen_as_def site_ok_def same_fields_def peer_status_def)
qed

sublocale connection_user < site: forward_simulation "site_start e" "site_step e verify cbs" "server_start e" "server_step e verify" seen_as
  for e verify
proof unfold_locales
  show "site_start e h \<Longrightarrow> \<exists>s. server_start e s \<and> seen_as h s" for h using site_start_seen by blast
qed (rule site_step_sim [OF _ callbacks_ok])

context connection_user
begin

lemma site_matches: "site_run e verify cbs h \<Longrightarrow> \<exists>s. server_run e verify s \<and> seen_as h s"
  by (rule site.reach_matches)

end

section \<open>Properties\<close>

text \<open>
  C5. The server with its real connections refines the server alone: every reachable state of the composition, with all
  handlers of all \<open>TCPConn\<close> objects, whatever their users do through the interface, is matched by a reachable state of
  the server's own model, in which the map has the statuses of the objects and the tasks have their close tasks and timers; and
  every object that is not waiting for \<open>connectEstablished\<close> has the invariant of connections.
\<close>

theorem site_refines_server:
  assumes "callbacks_ok cbs" and "site_run e verify cbs h"
  shows "\<exists>s. server_run e verify s \<and> st s = st (site_server h) \<and> spool s = spool (site_server h)
    \<and> (\<forall>i. connections s i = (if connections (site_server h) i = None then None else peer_status h i))
    \<and> (\<forall>i. pend s (CloseConn i) = peer_closes h i)
    \<and> (\<forall>i w. peer_world i h = Some w \<longrightarrow> (if Establish i \<in> set (tasks (site_server h)) then fresh_world w else conn_inv w))"
proof -
  obtain s where "server_run e verify s" "seen_as h s"
    using connection_user.site_matches [OF connection_user.intro [OF assms(1)] assms(2)] by blast
  then show ?thesis by (intro exI [of _ s]) (auto simp: seen_as_def same_fields_def site_ok_def)
qed

text \<open>A server that has accepted one connection, then with this connection open.\<close>

definition site_at :: "'u \<Rightarrow> (nat, unit) handler list tcp_server \<Rightarrow> ('u, (nat, unit) handler list) site" where
  "site_at u s = \<lparr>peers = (\<lambda>_. None), hub_mem = mem_start, hub_user = u, site_server = s\<rparr>"

definition first_peer :: "'u \<Rightarrow> 'u world" where
  "first_peer u = \<lparr>conn = TCPConn_new 1 (7, 8), cmem = mem_start, pending = [], calls = [], user = u\<rparr>"

definition site_with :: "'u world \<Rightarrow> (nat, unit) handler list tcp_server \<Rightarrow> ('u, (nat, unit) handler list) site" where
  "site_with w s = put_peer 1 w (site_at (user w) s)"

lemma site_at_start: "site_start test_env (site_at u test_server)"
proof -
  have "TCPServer_start test_env (TCPServer_new (EventLoop_new test_io) ''test'' 0) = Inr test_server"
    by (simp add: test_server_def TCPServer_start_def TCPServer_new_def EventLoopThreadPool_new_def EventLoopThreadPool_start_def)
  moreover have "env_ok test_env 0" by (simp add: env_ok_def test_env_def)
  ultimately show ?thesis by (auto simp: site_start_def server_start_def site_at_def)
qed

lemma site_listened: "site_step test_env verify cbs (site_at u test_server) (Inr (site_at u listening))"
proof -
  have "TCPServer_listen (Inr ()) (run_task Listen test_server) = Inr listening" "tasks test_server = [Listen]"
    by (simp_all add: test_server_def listening_def TCPServer_start_def TCPServer_listen_def TCPServer_new_def doAccept_def
      EventLoopThreadPool_new_def EventLoopThreadPool_start_def getNextLoop_def isRunning_def add_task_def run_task_def)
  then show ?thesis using site_step.listened [of "site_at u test_server" test_env verify cbs "Inr ()"] by (simp add: on_server_def site_at_def)
qed

lemma site_at_run: "site_run test_env verify cbs (site_at u listening)"
proof (rule reach.step)
  show "site_run test_env verify cbs (site_at u test_server)" by (rule reach.init) (rule site_at_start)
qed (rule site_listened)

lemma site_accepted: "site_step test_env (\<lambda>_::nat. True) cbs (site_at u listening) (Inr (site_with (first_peer u) accepting))"
proof -
  have "site_newConnection (\<lambda>_::nat. True) (Inr 9) (7, 8) Success (ran Accept (site_at u listening)) = Inr (site_with (first_peer u) accepting)"
    using accepting_run by (simp add: site_newConnection_def verified_def on_server_def site_at_def site_with_def put_peer_def new_peer_def first_peer_def)
  then show ?thesis
    using site_step.accepted [of "site_at u listening" test_env "\<lambda>_::nat. True" cbs "Inr 9" "(7, 8)" Success] listening_run(3) accepting_run(4)
    by (simp add: site_at_def)
qed

lemma site_established:
  assumes "connectEstablished cbs (first_peer u) = Inr w"
  shows "site_step test_env verify cbs (site_with (first_peer u) accepting) (Inr (site_with w (run_task (Establish 1) accepting)))"
proof -
  have "peer_world 1 (site_with (first_peer u) accepting) = Some (first_peer u)"
    by (simp add: site_with_def peer_world_put)
  then show ?thesis
    using site_step.established [of 1 "site_with (first_peer u) accepting" "first_peer u" test_env verify cbs] accepting_run(2) assms
    by (simp add: site_with_def site_at_def put_peer_def)
qed

lemma open_site_run: "site_run test_env (\<lambda>_::nat. True) idle_cbs (site_with open_world (run_task (Establish 1) accepting))"
proof -
  have "connectEstablished idle_cbs (first_peer ()) = Inr open_world"
    using open_world_run(1) by (simp add: first_peer_def idle_world_def)
  from site_established [OF this] show ?thesis by (rule reach.step [OF reach.step [OF site_at_run site_accepted]])
qed

theorem site_refines_server_witness:
  "let h = site_with open_world (run_task (Establish 1) accepting) in peer_status h 1 = Some kConnected
    \<and> (\<exists>s. server_run test_env (\<lambda>_::nat. True) s \<and> connections s 1 = Some kConnected)"
proof -
  let ?h = "site_with open_world (run_task (Establish 1) accepting)"
  have st: "peer_status ?h 1 = Some kConnected" using open_world_run(2) by (simp add: site_with_def)
  have "connections (site_server ?h) 1 \<noteq> None" using accepting_run(3) by (simp add: site_with_def site_at_def)
  then show ?thesis using site_refines_server [OF idle_ok(1) open_site_run] st by (auto simp: Let_def)
qed

text \<open>
  C12. When the server has stopped, everything is over, down to the objects of the connections: in every reachable state of the composition
  in which the status is \<open>kStopped\<close>, no connection is left in the map, the stopped callback has been called at most once, the
  assertions of the server's destructor hold, and every \<open>TCPConn\<close> that was ever made has given up its socket, has the status
  \<open>kDisconnected\<close> and has called its close callback exactly once.
\<close>

theorem site_stopped_clean:
  assumes "callbacks_ok cbs" and "site_run e verify cbs h" and "st (site_server h) = kStopped"
  shows "connections (site_server h) = (\<lambda>_. None) \<and> stopped_calls (site_server h) \<le> 1 \<and> TCPServer_delete (env_self e) (site_server h) = Inr ()
    \<and> (\<forall>i w. peer_world i h = Some w \<longrightarrow> status (conn w) = kDisconnected \<and> socket (conn w) = None \<and> closes w = 1)"
proof -
  obtain s where s: "server_run e verify s" "seen_as h s"
    using connection_user.site_matches [OF connection_user.intro [OF assms(1)] assms(2)] by blast
  have f: "same_fields (site_server h) s" by (rule seen_fields [OF s(2)])
  then have "st s = kStopped" using assms(3) by (simp add: same_fields_def)
  then have inv: "connections s = (\<lambda>_. None)" "stopped_calls s \<le> 1" "\<not> acceptor s" "spool s = None" "conns_inv s"
    using server_run_inv [OF s(1)] by (auto simp: server_inv_def)
  have none: "connections (site_server h) = (\<lambda>_. None)" unfolding no_conns using seen_none [OF s(2)] inv(1) by simp
  have "dead w" if w: "peer_world i h = Some w" for i w
  proof -
    note p = seen_peer [OF s(2) w]
    have "pend s (Establish i) = 0" using inv(1,5) by (simp add: conns_inv_def)
    then have "Establish i \<notin> set (tasks (site_server h))" using seen_pend [OF s(2), of "Establish i"] by (simp add: pend_pos)
    moreover have "status (conn w) = kDisconnected" using p(2) none by auto
    ultimately show ?thesis using p(5) by (auto simp: conn_inv_def live_def)
  qed
  moreover have "stopped_calls (site_server h) \<le> 1" "TCPServer_delete (env_self e) (site_server h) = Inr ()"
    using f inv none by (simp_all add: same_fields_def TCPServer_delete_def)
  ultimately show ?thesis using none by (auto simp: dead_def)
qed

lemma stopped_site_run: "\<exists>h. site_run test_env (\<lambda>_::nat. True) idle_cbs h \<and> st (site_server h) = kStopped"
proof -
  let ?V = "\<lambda>_::nat. True" and ?s = "add_task (StopInLoop True) listening"
  have "site_step test_env ?V idle_cbs (site_at () listening) (Inr (site_at () ?s))"
    using site_step.stop [of test_env ?V idle_cbs "site_at () listening" True] listening_run(5)
    by (simp add: TCPServer_stop_def on_server_def site_at_def)
  then have r1: "site_run test_env ?V idle_cbs (site_at () ?s)" by (rule reach.step [OF site_at_run])
  have "site_stopInLoop True [] (ran (StopInLoop True) (site_at () ?s)) = Inr (site_at () stopping_server)"
    using listening_run by (simp add: site_stopInLoop_def stopping_server_def stopInLoop_def site_at_def)
  then have "site_step test_env ?V idle_cbs (site_at () ?s) (Inr (site_at () stopping_server))"
    using site_step.stopping [of True "site_at () ?s" "[]" test_env ?V idle_cbs] listening_run(4) by (simp add: site_at_def)
  then have r2: "site_run test_env ?V idle_cbs (site_at () stopping_server)" by (rule reach.step [OF r1])
  have t: "StopSafe True \<in> set (tasks stopping_server)" using listening_run by (simp add: stopping_server_def stopInLoop_def)
  obtain s' where s': "stopInloopSafe test_env True (run_task (StopSafe True) stopping_server) = Inr s'" "st s' = kStopped"
    using stopped_inv [OF server_run_inv [OF stopping_server_run(1)] t] by blast
  then have "site_step test_env ?V idle_cbs (site_at () stopping_server) (Inr (site_at () s'))"
    using site_step.stopped [of True "site_at () stopping_server" test_env ?V idle_cbs] t by (simp add: on_server_def site_at_def)
  then show ?thesis using reach.step [OF r2] s'(2) by (intro exI [of _ "site_at () s'"]) (simp add: site_at_def)
qed

theorem site_stopped_clean_witness:
  "\<exists>h. site_run test_env (\<lambda>_::nat. True) idle_cbs h \<and> st (site_server h) = kStopped
    \<and> connections (site_server h) = (\<lambda>_. None) \<and> TCPServer_delete (env_self test_env) (site_server h) = Inr ()"
  using stopped_site_run site_stopped_clean [OF idle_ok(1)] by blast

end
