(* ===== verification/Echo_Site.thy ===== *)
theory Echo_Site
  imports Echo_Run Server_Site
begin

text \<open>
  The echo server on the server with its connections: the counter of connections over whole runs, with accepts, the
  handlers of all connections in any order, and stops.
\<close>

section \<open>Open connections\<close>

definition open_peers :: "('u, 'm) hub_scheme \<Rightarrow> uint64 set" where
  "open_peers h = {i. \<exists>w. peer_world i h = Some w \<and> status (conn w) \<noteq> kDisconnected}"

definition count_ok :: "('io echo_server, 'io2) site \<Rightarrow> bool" where
  "count_ok h \<longleftrightarrow> finite (open_peers h) \<and> connection_cnt (hub_user h) = word_of_nat (card (open_peers h))"

lemma open_peers_put:
  "open_peers (put_peer i w h) = (if status (conn w) = kDisconnected then open_peers h - {i} else insert i (open_peers h))"
  by (auto simp: open_peers_def peer_world_put)

lemma open_peers_server [simp]: "open_peers (h\<lparr>site_server := S\<rparr>) = open_peers h" "count_ok (h\<lparr>site_server := S\<rparr>) = count_ok h"
  by (simp_all add: open_peers_def count_ok_def)

text \<open>A connection that keeps the counter right for itself keeps it right for all.\<close>

lemma count_put:
  assumes h: "count_ok h" and w: "peer_world i h = Some w"
    and c: "connection_cnt (user w') - (if status (conn w') = kDisconnected then 0 else 1)
      = connection_cnt (hub_user h) - (if status (conn w) = kDisconnected then 0 else 1)"
  shows "count_ok (put_peer i w' h)"
proof -
  let ?P = "open_peers h"
  have fin: "finite ?P" and n: "connection_cnt (hub_user h) = word_of_nat (card ?P)" using h by (simp_all add: count_ok_def)
  have mem: "i \<in> ?P \<longleftrightarrow> status (conn w) \<noteq> kDisconnected" using w by (simp add: open_peers_def)
  have "connection_cnt (user w') = word_of_nat (card (open_peers (put_peer i w' h)))"
  proof (cases "status (conn w') = kDisconnected"; cases "i \<in> ?P")
    assume a: "status (conn w') = kDisconnected" "i \<in> ?P"
    then have "0 < card ?P" using fin by (auto simp: card_gt_0_iff)
    then show ?thesis using a c n mem fin by (simp add: open_peers_put of_nat_diff)
  next
    assume "status (conn w') = kDisconnected" "i \<notin> ?P"
    then show ?thesis using c n mem by (simp add: open_peers_put)
  next
    assume a: "status (conn w') \<noteq> kDisconnected" "i \<in> ?P"
    then show ?thesis using c n mem by (simp add: open_peers_put insert_absorb)
  next
    assume a: "status (conn w') \<noteq> kDisconnected" "i \<notin> ?P"
    then have "connection_cnt (user w') = connection_cnt (hub_user h) + 1" using c mem by (simp add: diff_eq_eq)
    then show ?thesis using a n fin by (simp add: open_peers_put add.commute)
  qed
  then show ?thesis using fin by (simp add: count_ok_def open_peers_put)
qed

lemma peer_user: "peer_world i h = Some w \<Longrightarrow> user w = hub_user h"
  by (auto simp: peer_world_def)

lemma close_peer_count:
  assumes "count_ok h"
  shows "count_ok (close_peer i h)"
proof (cases "peer_world i h")
  case None
  then show ?thesis using assms by (simp add: close_peer_def)
next
  case (Some w)
  have "count_ok (put_peer i (TCPConn_close w) h)"
    by (rule count_put [OF assms Some]) (simp add: peer_user [OF Some] close_status)
  then show ?thesis using assms Some by (simp add: close_peer_def)
qed

lemma fold_close_count: "count_ok h \<Longrightarrow> count_ok (fold close_peer ids h)"
  by (induction ids arbitrary: h) (simp_all add: close_peer_count)

section \<open>Steps\<close>

lemma connectEstablished_count:
  assumes "fresh_world w" and "connectEstablished (EchoServer_conn_callbacks pb) w = Inr w'"
  shows "counted w' = connection_cnt (user w)"
  using assms by (intro echo_start_counted [of pb]) (auto simp: echo_start_def)

lemma moved_count:
  assumes "count_ok h" and "peer_world i h = Some w" and "conn_step (EchoServer_conn_callbacks pb) w (Inr w')"
  shows "count_ok (put_peer i w' h)"
  using count_put [OF assms(1,2)] conn_step_counted [OF assms(3)] peer_user [OF assms(2)] by (simp add: counted_def)

lemma new_peer_count:
  assumes h: "count_ok h" and i: "peer_world i h = None"
  shows "count_ok (put_peer i (new_peer i eps h) h)"
proof -
  have "i \<notin> open_peers h" using i by (simp add: open_peers_def)
  then show ?thesis using h by (simp add: count_ok_def open_peers_put) (simp add: new_peer_def TCPConn_new_def)
qed

lemma site_step_count:
  assumes step: "site_step e verify (EchoServer_conn_callbacks pb) h (Inr h')" and h: "count_ok h" and seen: "seen_as h s"
  shows "count_ok h'"
  using step
proof (cases rule: site_step.cases)
  case (accepted remote eps ec)
  let ?i = "next_conn_id (site_server h) + 1"
  have "peer_world ?i h = None" using seen_peer(4) [OF seen, of ?i] next_id_less [OF accepted(3)] by (cases "peer_world ?i h") auto
  then have "count_ok (put_peer ?i (new_peer ?i eps (ran Accept h)) (ran Accept h))" by (intro new_peer_count) (simp_all add: h)
  then show ?thesis using accepted(1) h by (auto simp: site_newConnection_def Let_def on_server_def Inr_eq_rbind_iff split: if_splits)
next
  case (established i w)
  then obtain w' where r: "connectEstablished (EchoServer_conn_callbacks pb) w = Inr w'" "h' = put_peer i w' (ran (Establish i) h)"
    by (auto simp: Inr_eq_rbind_iff)
  have f: "fresh_world w" using seen_peer(5) [OF seen established(3)] established(2) by simp
  then have "status (conn w) = kDisconnected" by (auto simp: fresh_world_def TCPConn_new_def)
  then have "count_ok (put_peer i w' h)"
    using connectEstablished_count [OF f r(1)] peer_user [OF established(3)]
    by (intro count_put [OF h established(3)]) (simp add: counted_def)
  then show ?thesis using r(2) by simp
next
  case (moved i w r)
  then show ?thesis using moved_count [OF h] by (auto simp: Inr_eq_rbind_iff peer_moved_def)
next
  case (stopping cb ids)
  then show ?thesis using h fold_close_count [OF h, of ids]
    by (auto simp: site_stopInLoop_def Let_def fold_close_peer_server split: if_splits)
qed (auto simp: on_server_def Inr_eq_rbind_iff h)

text \<open>The counter as an invariant of the steps, next to the match with the server alone.\<close>

interpretation echo_counts: inductive_invariant "\<lambda>h. site_start e h \<and> connection_cnt (hub_user h) = 0"
  "site_step e verify (EchoServer_conn_callbacks pb)" "\<lambda>h. count_ok h \<and> (\<exists>s. server_run e verify s \<and> seen_as h s)" for e verify pb
proof unfold_locales
  fix h :: "('a echo_server, 'b) site"
  assume "site_start e h \<and> connection_cnt (hub_user h) = 0"
  moreover from this have "open_peers h = {}" by (simp add: site_start_def open_peers_def peer_world_def)
  ultimately show "count_ok h \<and> (\<exists>s. server_run e verify s \<and> seen_as h s)"
    using site_start_seen [of e h] reach.init [of "server_start e" "site_server h" "server_step e verify"] by (auto simp: count_ok_def)
next
  fix h h' :: "('a echo_server, 'b) site"
  assume a: "count_ok h \<and> (\<exists>s. server_run e verify s \<and> seen_as h s)" and step: "site_step e verify (EchoServer_conn_callbacks pb) h (Inr h')"
  then obtain s where s: "server_run e verify s" "seen_as h s" by blast
  then obtain s' where "server_steps e verify s s'" "seen_as h' s'" using site_step_sim [OF step echo_callbacks_ok] by blast
  then show "count_ok h' \<and> (\<exists>s. server_run e verify s \<and> seen_as h' s)"
    using site_step_count [OF step _ s(2)] a reach_steps [OF _ s(1)] by blast
qed

section \<open>Properties\<close>

text \<open>
  C17. The echo server's counter of connections is right over whole runs: in every reachable state of the server with its
  connections, whatever has been accepted, established, closed, lost or stopped in any order, the counter is the number of
  connections that are not closed (modulo the 32 bits of the counter), if it was zero at the start.
\<close>

theorem echo_connections_counted:
  assumes "reach (\<lambda>h. site_start e h \<and> connection_cnt (hub_user h) = 0) (site_step e verify (EchoServer_conn_callbacks pb)) h"
  shows "connection_cnt (hub_user h) = word_of_nat (card (open_peers h))"
  using echo_counts.reach_inv [OF assms] by (simp add: count_ok_def)

theorem echo_connections_counted_witness:
  "\<exists>h :: ((nat, unit) handler list echo_server, (nat, unit) handler list) site.
    reach (\<lambda>h. site_start test_env h \<and> connection_cnt (hub_user h) = 0) (site_step test_env (\<lambda>_::nat. True) (EchoServer_conn_callbacks wire_pb)) h
    \<and> peer_status h 1 = Some kConnected \<and> connection_cnt (hub_user h) = word_of_nat (card (open_peers h))"
proof -
  let ?u = "EchoServer_new (EventLoop_new test_io)" and ?V = "\<lambda>_::nat. True" and ?cbs = "EchoServer_conn_callbacks wire_pb"
  have "first_peer ?u = echo_fresh ?u" by (simp add: first_peer_def echo_fresh_def)
  then obtain w a where w: "connectEstablished ?cbs (first_peer ?u) = Inr w" "serving w a None [] {}"
    using server_connected [OF echo_fresh_ok(1,2)] by metis
  have start: "site_start test_env (site_at ?u test_server) \<and> connection_cnt (hub_user (site_at ?u test_server)) = 0"
    using site_at_start by (simp add: site_at_def EchoServer_new_def)
  let ?h = "site_with w (run_task (Establish 1) accepting)"
  let ?reach = "reach (\<lambda>h. site_start test_env h \<and> connection_cnt (hub_user h) = 0) (site_step test_env ?V ?cbs)"
  have "?reach (site_at ?u test_server)" using start by (rule reach.init)
  then have "?reach (site_at ?u listening)" by (rule reach.step) (rule site_listened)
  then have "?reach (site_with (first_peer ?u) accepting)" by (rule reach.step) (rule site_accepted)
  then have run: "?reach ?h" by (rule reach.step) (rule site_established [OF w(1)])
  have "peer_status ?h 1 = Some kConnected" using w(2) by (simp add: site_with_def serving_def)
  then show ?thesis using run echo_connections_counted [OF run] by blast
qed

end
