(* ===== verification/Echo_Talk.thy ===== *)
theory Echo_Talk
  imports Echo_Run
begin

text \<open>
  The two echo programs talking to each other over one connection: each side has its own process, with its own memory and
  pool, and the network hands the bytes one side has written to the other.
\<close>

section \<open>Rounds\<close>

text \<open>
  One side completes its writes, each transferring its whole piece, and what is on the wire arrives at the other side in
  one read.
\<close>

definition hand_over ::
  "'u conn_callbacks \<Rightarrow> 'v conn_callbacks \<Rightarrow> nat \<Rightarrow> 'u world \<Rightarrow> 'v world \<Rightarrow> error + ('u world \<times> 'v world)" where
  "hand_over from to n w v =
     rbind (peer_run from (replicate n (Written kPieceCapacity)) w) (\<lambda>(sent, w1).
     rbind (receive to [wire sent] v) (\<lambda>v1. Inr (w1, v1)))"

text \<open>The request goes to the server and the response comes back, \<open>r\<close> times.\<close>

primrec talk ::
  "'u conn_callbacks \<Rightarrow> 'v conn_callbacks \<Rightarrow> nat \<Rightarrow> nat \<Rightarrow> 'u world \<Rightarrow> 'v world \<Rightarrow> error + ('u world \<times> 'v world)" where
  "talk client server n 0 c s = Inr (c, s)"
| "talk client server n (Suc r) c s =
     rbind (hand_over client server n c s) (\<lambda>(c1, s1).
     rbind (hand_over server client n s1 c1) (\<lambda>(s2, c2). talk client server n r c2 s2))"

text \<open>A side with bytes to send, and a side that waits; \<open>b\<close> bounds the pieces of its output buffer.\<close>

definition has_to_say :: "nat \<Rightarrow> byte list \<Rightarrow> 'u world \<Rightarrow> bool" where
  "has_to_say b bytes w \<longleftrightarrow> (\<exists>a fl oas L. serving w a fl oas L \<and> fl \<noteq> None \<and> outgoing w fl oas = bytes \<and> length oas \<le> b)"

definition listens :: "nat \<Rightarrow> 'u world \<Rightarrow> bool" where
  "listens b w \<longleftrightarrow> (\<exists>a oas L. serving w a None oas L \<and> outgoing w None oas = [] \<and> length oas \<le> b)"

lemma say:
  assumes "has_to_say b bytes w" and "b < n" and "length bytes \<le> kPieceCapacity"
  shows "\<exists>sent w'. peer_run cbs (replicate n (Written kPieceCapacity)) w = Inr (sent, w') \<and> wire sent = bytes \<and> listens b w' \<and> user w' = user w"
proof -
  obtain a fl oas L where w: "serving w a fl oas L" "fl \<noteq> None" "outgoing w fl oas = bytes" "length oas \<le> b"
    using assms(1) by (auto simp: has_to_say_def)
  have "fl = None \<longrightarrow> outgoing w fl oas = []" "fl = None \<or> length oas < length (replicate n kPieceCapacity)" using w(2,4) assms(2) by auto
  then obtain sent w' oas' L' where r: "peer_run cbs (map Written (replicate n kPieceCapacity)) w = Inr (sent, w')" "handed sent = bytes"
    "fst ` set sent \<subseteq> set (replicate n kPieceCapacity)" "serving w' a None oas' L'" "outgoing w' None oas' = []" "user w' = user w" "length oas' \<le> length oas"
    using drain_peer [OF w(1), of "replicate n kPieceCapacity" cbs] unfolding w(3) by blast
  have "length p \<le> k" if "(k, p) \<in> set sent" for k p
  proof -
    have "k \<in> set (replicate n kPieceCapacity)" using r(3) image_eqI [of k fst "(k, p)", OF _ that] by auto
    then show ?thesis using handed_part [OF that] r(2) assms(3) by simp
  qed
  then have "wire sent = bytes" using wire_full [of sent] r(2) by auto
  moreover have "listens b w'" using r(4,5,7) w(4) unfolding listens_def by (auto intro: order_trans)
  ultimately show ?thesis using r(1,6) by (auto simp: map_replicate_const)
qed

context answering
begin

lemma hears:
  assumes "listens b w" and "good msg"
  shows "\<exists>w'. receive cbs [frame_bytes api msg] w = Inr w' \<and> has_to_say (Suc b) (frame_bytes api (reply (user w) msg)) w' \<and> user w' = adv (user w)"
proof -
  obtain a oas L where w: "serving w a None oas L" "outgoing w None oas = []" "length oas \<le> b" using assms(1) by (auto simp: listens_def)
  obtain w' a' fl' oas' L' where r: "receive cbs [frame_bytes api msg] w = Inr w'" "serving w' a' fl' oas' L'"
    "outgoing w' fl' oas' = frame_bytes api (reply (user w) msg)" "user w' = adv (user w)" "fl' \<noteq> None" "length oas' \<le> Suc (length oas)"
    using answer [OF w(1) assms(2)] w(2) by auto
  then have "has_to_say (Suc b) (frame_bytes api (reply (user w) msg)) w'"
    unfolding has_to_say_def using w(3) by (intro exI [of _ a'] exI [of _ fl'] exI [of _ oas'] exI [of _ L']) auto
  then show ?thesis using r(1,4) by blast
qed

end

definition fits_all :: "'d echo_pb \<Rightarrow> byte list \<Rightarrow> bool" where
  "fits_all pb t \<longleftrightarrow> (\<forall>i. length (frame_bytes (pb_api pb) (Request i t)) < kPieceCapacity \<and> length (frame_bytes (pb_api pb) (Response i t)) < kPieceCapacity)"

context echo_messages
begin

lemma one_round:
  fixes c :: "echo_client world" and s :: "'io echo_server world"
  assumes t: "fits_all pb t" and c: "has_to_say b (frame_bytes (pb_api pb) (Request i t)) c" and s: "listens b s" and b: "Suc b < n"
  shows "\<exists>c1 s1 s2 c2. hand_over (EchoClient_conn_callbacks (Suc m) pb k) (EchoServer_conn_callbacks pb) n c s = Inr (c1, s1)
    \<and> hand_over (EchoServer_conn_callbacks pb) (EchoClient_conn_callbacks (Suc m) pb k) n s1 c1 = Inr (s2, c2)
    \<and> has_to_say (Suc b) (frame_bytes (pb_api pb) (Request (request_id (user c)) t)) c2 \<and> listens (Suc b) s2
    \<and> user c2 = client_counts (user c) \<and> user s2 = server_counts (user s)"
proof -
  let ?C = "EchoClient_conn_callbacks (Suc m) pb k" and ?S = "EchoServer_conn_callbacks pb :: 'io echo_server conn_callbacks" and ?api = "pb_api pb"
  have len: "length (frame_bytes ?api (Request i t)) \<le> kPieceCapacity" "length (frame_bytes ?api (Response i t)) \<le> kPieceCapacity"
    using t by (simp_all add: fits_all_def less_imp_le)
  obtain v c1 where c1: "peer_run ?C (replicate n (Written kPieceCapacity)) c = Inr (v, c1)" "wire v = frame_bytes ?api (Request i t)" "listens b c1" "user c1 = user c"
    using say [OF c _ len(1)] b by (metis Suc_lessD)
  have "good_request pb (Request i t)" "good_response pb (Response i t)" using t by (simp_all add: fits_all_def less_imp_le)
  note good = this
  obtain s1 where s1: "receive ?S [frame_bytes ?api (Request i t)] s = Inr s1" "has_to_say (Suc b) (frame_bytes ?api (Response i t)) s1"
    "user s1 = server_counts (user s)"
    using server.hears [OF s good(1)] by (auto simp del: receive.simps)
  obtain u s2 where s2: "peer_run ?S (replicate n (Written kPieceCapacity)) s1 = Inr (u, s2)" "wire u = frame_bytes ?api (Response i t)"
    "listens (Suc b) s2" "user s2 = user s1"
    using say [OF s1(2) b len(2)] by blast
  obtain c2 where c2: "receive ?C [frame_bytes ?api (Response i t)] c1 = Inr c2"
    "has_to_say (Suc b) (frame_bytes ?api (Request (request_id (user c)) t)) c2" "user c2 = client_counts (user c)"
    using client.hears [OF c1(3) good(2), of m k] c1(4) by (auto simp del: receive.simps)
  show ?thesis using c1(1,2) s1 s2 c2
    by (intro exI [of _ c1] exI [of _ s1] exI [of _ s2] exI [of _ c2]) (simp add: hand_over_def del: receive.simps)
qed

lemma talk_ok:
  fixes c :: "echo_client world" and s :: "'io echo_server world"
  shows "fits_all pb t \<Longrightarrow> has_to_say b (frame_bytes (pb_api pb) (Request i t)) c \<Longrightarrow> listens b s \<Longrightarrow> b + r < n \<Longrightarrow> i = request_id (user c) - 1 \<Longrightarrow>
   \<exists>c' s'. talk (EchoClient_conn_callbacks (Suc m) pb k) (EchoServer_conn_callbacks pb) n r c s = Inr (c', s')
     \<and> has_to_say (b + r) (frame_bytes (pb_api pb) (Request (i + word_of_nat r) t)) c' \<and> listens (b + r) s'
     \<and> user c' = (client_counts ^^ r) (user c) \<and> user s' = (server_counts ^^ r) (user s)"
proof (induction r arbitrary: c s b i)
  case 0
  then show ?case by simp
next
  case (Suc r)
  obtain c1 s1 s2 c2 where r: "hand_over (EchoClient_conn_callbacks (Suc m) pb k) (EchoServer_conn_callbacks pb) n c s = Inr (c1, s1)"
    "hand_over (EchoServer_conn_callbacks pb) (EchoClient_conn_callbacks (Suc m) pb k) n s1 c1 = Inr (s2, c2)"
    "has_to_say (Suc b) (frame_bytes (pb_api pb) (Request (request_id (user c)) t)) c2" "listens (Suc b) s2"
    "user c2 = client_counts (user c)" "user s2 = server_counts (user s)"
    using one_round [OF Suc.prems(1-3), of n m k] Suc.prems(4) by auto
  have "request_id (user c) = request_id (user c2) - 1" "Suc b + r < n" using r(5) Suc.prems(4) by (simp_all add: client_counts_def)
  from Suc.IH [OF Suc.prems(1) r(3,4) this(2,1)] show ?case
    using r(1,2,5,6) Suc.prems(5) by (auto simp: funpow_swap1 ac_simps)
qed

lemma ping_pong:
  fixes c :: "echo_client world" and s :: "'io echo_server world"
  assumes c: "fresh_world c" "mem_inv (cmem c) L" and s: "fresh_world s" "mem_inv (cmem s) M"
    and t: "fits_all pb (fix_data (user c))" and n: "Suc r < n"
  shows "\<exists>c' s'. rbind (connectEstablished (EchoClient_conn_callbacks (Suc m) pb k) c) (\<lambda>c1.
      rbind (connectEstablished (EchoServer_conn_callbacks pb) s) (\<lambda>s1.
      talk (EchoClient_conn_callbacks (Suc m) pb k) (EchoServer_conn_callbacks pb) n r c1 s1)) = Inr (c', s')
    \<and> has_to_say (Suc r) (frame_bytes (pb_api pb) (Request (request_id (user c) + word_of_nat r) (fix_data (user c)))) c'
    \<and> request_id (user c') = request_id (user c) + word_of_nat (Suc r)
    \<and> client_total_recv_cnt (user c') = client_total_recv_cnt (user c) + word_of_nat r
    \<and> total_recv_cnt (user s') = total_recv_cnt (user s) + word_of_nat r \<and> connection_cnt (user s') = connection_cnt (user s) + 1"
proof -
  let ?t = "fix_data (user c)" and ?i = "request_id (user c)"
  have "length (frame_bytes (pb_api pb) (Request ?i ?t)) < kPieceCapacity" using t by (simp add: fits_all_def)
  then obtain c1 a fl oas L' where c1: "connectEstablished (EchoClient_conn_callbacks (Suc m) pb k) c = Inr c1" "serving c1 a fl oas L'"
    "outgoing c1 fl oas = frame_bytes (pb_api pb) (Request ?i ?t)" "fl \<noteq> None" "length oas \<le> 1"
    "user c1 = (user c)\<lparr>client_connection_cnt := client_connection_cnt (user c) + 1, request_id := ?i + 1\<rparr>"
    using client_connected [OF c] by blast
  then have say: "has_to_say 1 (frame_bytes (pb_api pb) (Request ?i ?t)) c1" unfolding has_to_say_def by blast
  obtain s1 a' where s1: "connectEstablished (EchoServer_conn_callbacks pb) s = Inr s1" "serving s1 a' None [] M" "outgoing s1 None [] = []"
    "user s1 = (user s)\<lparr>connection_cnt := connection_cnt (user s) + 1\<rparr>"
    using server_connected [OF s] by blast
  then have "listens 1 s1" unfolding listens_def by (metis le0 list.size(3))
  from talk_ok [OF t say this, of r n m k] n c1(1,6) s1(1,4) show ?thesis
    by (auto simp: server_counts_many client_counts_many ac_simps)
qed

end

section \<open>Properties\<close>

text \<open>
  C8. The echo client and the echo server, connected to each other, keep the conversation going, on a network that does no
  more than this: the sides take turns, a side completes its writes, each with its whole piece transferred, and what it has
  written arrives at the other side in one read. After both sides have established the connection, for every number \<open>r\<close> of
  such rounds nothing fails on either side; the server has answered and counted \<open>r\<close> requests, the client has received and
  counted \<open>r\<close> responses, the ids of the requests have counted up by one each time, and the client's next request, with the
  text it started with, is ready to be sent. A side completes at most \<open>n\<close> writes per round, and \<open>r + 2\<close> are enough. The
  generated code keeps its contract, and the frames of the client's text are shorter than 4096 bytes.
\<close>

theorem echo_ping_pong:
  fixes c :: "echo_client world" and s :: "'io echo_server world"
  assumes "echo_messages pb" and "fresh_world c" and "mem_inv (cmem c) L" and "fresh_world s" and "mem_inv (cmem s) M"
    and "fits_all pb (fix_data (user c))" and "Suc r < n"
  shows "\<exists>c' s'. rbind (connectEstablished (EchoClient_conn_callbacks (Suc m) pb k) c) (\<lambda>c1.
      rbind (connectEstablished (EchoServer_conn_callbacks pb) s) (\<lambda>s1.
      talk (EchoClient_conn_callbacks (Suc m) pb k) (EchoServer_conn_callbacks pb) n r c1 s1)) = Inr (c', s')
    \<and> has_to_say (Suc r) (frame_bytes (pb_api pb) (Request (request_id (user c) + word_of_nat r) (fix_data (user c)))) c'
    \<and> request_id (user c') = request_id (user c) + word_of_nat (Suc r)
    \<and> client_total_recv_cnt (user c') = client_total_recv_cnt (user c) + word_of_nat r
    \<and> total_recv_cnt (user s') = total_recv_cnt (user s) + word_of_nat r \<and> connection_cnt (user s') = connection_cnt (user s) + 1"
  using echo_messages.ping_pong [OF assms] .

theorem echo_ping_pong_witness:
  "\<exists>c' s'. rbind (connectEstablished (EchoClient_conn_callbacks (Suc 9999) wire_pb 3) (echo_fresh EchoClient_new)) (\<lambda>c1.
      rbind (connectEstablished (EchoServer_conn_callbacks wire_pb) (echo_fresh (EchoServer_new (EventLoop_new test_io)))) (\<lambda>s1.
      talk (EchoClient_conn_callbacks (Suc 9999) wire_pb 3) (EchoServer_conn_callbacks wire_pb) 1000 500 c1 s1)) = Inr (c', s')
    \<and> request_id (user c') = 501 \<and> client_total_recv_cnt (user c') = 500 \<and> total_recv_cnt (user s') = 500"
proof -
  have "fits_all wire_pb (fix_data (user (echo_fresh EchoClient_new)))"
  proof -
    have "length (wire_fields i (replicate 1024 97)) < 4074 \<and> length (wire_fields i (replicate 1024 97)) < 4075" for i
      using wire_fields_bound [of "replicate 1024 97" i] by simp
    then show ?thesis by (simp add: fits_all_def wire_frame_length kPieceCapacity_def echo_fresh_ok(3) EchoClient_new_def)
  qed
  from echo_ping_pong [OF wire.echo_messages_axioms echo_fresh_ok(1,2)
      echo_fresh_ok(1,2) [of "EchoServer_new (EventLoop_new test_io)"] this, of 500 1000 9999 3]
  show ?thesis by (auto simp: echo_fresh_ok(3) EchoClient_new_def EchoServer_new_def simp del: talk.simps)
qed

end
