(* ===== verification/Client_Site.thy ===== *)
theory Client_Site
  imports Conn_Hub Tcp_Client
begin

text \<open>
  The client together with its connections: the client of theory \<open>Tcp_Client\<close>, which knows a connection by its id and its
  status, and the \<open>TCPConn\<close> objects of theory \<open>Tcp_Conn\<close> with all their handlers. The client is part of the state the
  callbacks work on, since the close callback of a connection, \<open>removeConnection\<close>, and the user's callbacks change it from
  within the handlers of the connection. What the two do together is matched, step by step, by the client alone.
\<close>

section \<open>The composition\<close>

text \<open>The state of the callbacks: the client, and what the user has besides. A program is a hub of connections over it.\<close>

type_synonym 'v owner = "tcp_client \<times> 'v"

definition hub_client :: "('v owner, 'm) hub_scheme \<Rightarrow> tcp_client" where
  "hub_client h = fst (hub_user h)"

definition peer_statuses :: "('u, 'm) hub_scheme \<Rightarrow> uint64 \<Rightarrow> StateE" where
  "peer_statuses h i = (case peer_status h i of None \<Rightarrow> kDisconnected | Some s \<Rightarrow> s)"

text \<open>
  The client reads the status of a connection through its pointer, so the statuses in its record are those of the objects: they
  are brought up to date before each step, and inside a handler of the connection \<open>i\<close> its own status is the one of its object.
\<close>

definition on_hub :: "(tcp_client \<Rightarrow> tcp_client) \<Rightarrow> ('v owner, 'm) hub_scheme \<Rightarrow> ('v owner, 'm) hub_scheme" where
  "on_hub f h = h\<lparr>hub_user := (f (hub_client h), snd (hub_user h))\<rparr>"

definition refreshed :: "('v owner, 'm) hub_scheme \<Rightarrow> ('v owner, 'm) hub_scheme" where
  "refreshed h = on_hub (statuses_update (\<lambda>_. peer_statuses h)) h"

definition client_view :: "uint64 \<Rightarrow> 'v owner world \<Rightarrow> tcp_client" where
  "client_view i w = (fst (user w))\<lparr>statuses := (statuses (fst (user w)))(i := status (conn w))\<rparr>"

definition on_client :: "uint64 \<Rightarrow> (tcp_client \<Rightarrow> tcp_client) \<Rightarrow> 'v owner world \<Rightarrow> 'v owner world" where
  "on_client i f w = w\<lparr>user := (f (client_view i w), snd (user w))\<rparr>"

text \<open>\<open>disconnect\<close> from a callback of the connection \<open>i\<close>, when the client has no other connection.\<close>

definition disconnect_from :: "uint64 \<Rightarrow> 'v owner world \<Rightarrow> error + 'v owner world" where
  "disconnect_from i w =
     (let w1 = on_client i (setAutoReconnect False) w in
      case conn_ptr (fst (user w1)) of
        None \<Rightarrow> Inr w1
      | Some _ \<Rightarrow> rbind (cassert (\<not> isDisconnected (conn w1) \<and> \<not> isDisconnecting (conn w1))) (\<lambda>_. Inr (TCPConn_close w1)))"

text \<open>\<open>removeConnection\<close> as the close callback of the connection \<open>i\<close>, and all callbacks of this connection.\<close>

definition removed_from :: "uint64 \<Rightarrow> 'v owner callback" where
  "removed_from i w = rbind (TCPClient_removeConnection i (client_view i w)) (\<lambda>c. Inr (w\<lparr>user := (c, snd (user w))\<rparr>))"

definition owned_callbacks :: "(uint64 \<Rightarrow> 'v owner client_callbacks) \<Rightarrow> uint64 \<Rightarrow> 'v owner conn_callbacks" where
  "owned_callbacks C i = TCPClient_conn_callbacks (C i) (removed_from i)"

text \<open>
  \<open>newConnection\<close> with the objects: the one of the connection, or the one with the id 0 that only tells the user of a
  failed attempt and dies at the end of the handler.
\<close>

definition owner_newConnection ::
  "(uint64 \<Rightarrow> 'v owner client_callbacks) \<Rightarrow> nat \<times> nat \<Rightarrow> error_code \<Rightarrow> ('v owner, 'm) hub_scheme \<Rightarrow> error + ('v owner, 'm) hub_scheme" where
  "owner_newConnection C eps ec h =
     (let h1 = on_hub (is_connecting_update (\<lambda>_. False)) h in
      if ec = Success
      then let i = id_counter (hub_client h1); h2 = on_hub (id_counter_update (\<lambda>_. i + 1)) h1 in
           rbind (connectEstablished (owned_callbacks C i) (new_peer i eps h2)) (\<lambda>w.
           Inr (on_hub (conn_ptr_update (\<lambda>_. Some i)) (put_peer i w h2)))
      else rbind (call_function (client_connection_cb (C 0)) (new_peer 0 eps h1)) (\<lambda>w.
           rbind (TCPConn_delete w) (\<lambda>w1.
           let h2 = h1\<lparr>hub_mem := cmem w1, hub_user := user w1\<rparr> in
           Inr (if auto_reconnect (hub_client h2) then on_hub (\<lambda>c. c\<lparr>events := events c @ [ReconnectTimer]\<rparr>) h2 else h2))))"

definition owner_disconnect :: "('v owner, 'm) hub_scheme \<Rightarrow> error + ('v owner, 'm) hub_scheme" where
  "owner_disconnect h =
     (let h1 = on_hub (setAutoReconnect False) h in
      case conn_ptr (hub_client h1) of
        None \<Rightarrow> Inr h1
      | Some i \<Rightarrow> (case peer_world i h1 of
            None \<Rightarrow> Inl UseAfterFree
          | Some w \<Rightarrow> rbind (cassert (\<not> isDisconnected (conn w) \<and> \<not> isDisconnecting (conn w))) (\<lambda>_. Inr (put_peer i (TCPConn_close w) h1))))"

text \<open>
  The steps: completions and timers of the client, any step of any of its connections, and calls of the client's interface, \<open>connect\<close> apart from the
  others. A connection gets an id that no other has, which holds until the 64-bit counter has gone round.
\<close>

inductive owner_event :: "(uint64 \<Rightarrow> 'v owner client_callbacks) \<Rightarrow> 'v owner hub \<Rightarrow> error + 'v owner hub \<Rightarrow> bool" for C where
  connected: "AsyncConnect \<in> set (events (hub_client h)) \<Longrightarrow> id_counter (hub_client h) \<noteq> 0 \<Longrightarrow> peers h (id_counter (hub_client h)) = None \<Longrightarrow>
    owner_event C h (owner_newConnection C eps ec (on_hub (taken_event AsyncConnect) (refreshed h)))"
| timer: "ReconnectTimer \<in> set (events (hub_client h)) \<Longrightarrow>
    owner_event C h (Inr (on_hub reconnect (on_hub (taken_event ReconnectTimer) (refreshed h))))"
| moved: "peer_world i (refreshed h) = Some w \<Longrightarrow> conn_step (owned_callbacks C i) w r \<Longrightarrow>
    owner_event C h (rbind r (\<lambda>w'. Inr (put_peer i w' h)))"
| api_disconnect: "owner_event C h (owner_disconnect (refreshed h))"
| api_auto: "owner_event C h (Inr (on_hub (setAutoReconnect v) h))"

inductive owner_step :: "(uint64 \<Rightarrow> 'v owner client_callbacks) \<Rightarrow> 'v owner hub \<Rightarrow> error + 'v owner hub \<Rightarrow> bool" for C where
  happens: "owner_event C h r \<Longrightarrow> owner_step C h r"
| api_connect: "owner_step C h (Inr (on_hub connect (refreshed h)))"

inductive_simps owner_step_iff: "owner_step C h (Inr h')"

definition owner_start :: "'v owner hub \<Rightarrow> bool" where
  "owner_start h \<longleftrightarrow> client_start (hub_client h) \<and> peers h = (\<lambda>_. None)"

abbreviation owner_run :: "(uint64 \<Rightarrow> 'v owner client_callbacks) \<Rightarrow> 'v owner hub \<Rightarrow> bool" where
  "owner_run C \<equiv> reach owner_start (owner_step C)"

section \<open>What callbacks may do\<close>

text \<open>
  A callback of the connection \<open>i\<close> has the interfaces of the connection and of the client. It calls \<open>disconnect\<close> only when
  the client has this connection or none.
\<close>

inductive owner_calls :: "uint64 \<Rightarrow> 'v owner world \<Rightarrow> 'v owner world \<Rightarrow> bool" for i s where
  nothing: "owner_calls i s s"
| own_state: "owner_calls i s t \<Longrightarrow> owner_calls i s (upd_conn (input_buffer_update (\<lambda>_. b)) (t\<lparr>user := (fst (user t), v), cmem := m\<rparr>))"
| send: "owner_calls i s t \<Longrightarrow> TCPConn_send in_loop d t = Inr t' \<Longrightarrow> owner_calls i s t'"
| send_buffer: "owner_calls i s t \<Longrightarrow> TCPConn_send_buffer in_loop b t = Inr (b', t') \<Longrightarrow> owner_calls i s t'"
| close: "owner_calls i s t \<Longrightarrow> owner_calls i s (TCPConn_close t)"
| close_delay: "owner_calls i s t \<Longrightarrow> owner_calls i s (closeWithDelay t)"
| connect: "owner_calls i s t \<Longrightarrow> owner_calls i s (on_client i connect t)"
| auto: "owner_calls i s t \<Longrightarrow> owner_calls i s (on_client i (setAutoReconnect x) t)"
| disconnect: "owner_calls i s t \<Longrightarrow> conn_ptr (fst (user t)) \<in> {None, Some i} \<Longrightarrow> disconnect_from i t = Inr t' \<Longrightarrow> owner_calls i s t'"

lemma api_calls_user: "api_calls s t \<Longrightarrow> api_calls s (t\<lparr>user := u\<rparr>)"
proof -
  have "t\<lparr>user := u\<rparr> = upd_conn (input_buffer_update (\<lambda>_. input_buffer (conn t))) (t\<lparr>user := u, cmem := cmem t\<rparr>)"
    by (cases t, cases "conn t") (simp add: upd_conn_def)
  then show "api_calls s t \<Longrightarrow> api_calls s (t\<lparr>user := u\<rparr>)" using api_calls.own_state by metis
qed

lemma owner_calls_api: "owner_calls i s t \<Longrightarrow> api_calls s t"
proof (induction rule: owner_calls.induct)
  case (connect t)
  then show ?case unfolding on_client_def by (intro api_calls_user)
next
  case (auto t x)
  then show ?case unfolding on_client_def by (intro api_calls_user)
next
  case (disconnect t t')
  have "api_calls s (on_client i (setAutoReconnect False) t)" using disconnect.IH unfolding on_client_def by (intro api_calls_user)
  then show ?case using disconnect.hyps(3) api_calls.close
    by (auto simp: disconnect_from_def Let_def rbind_eq_Inr_iff split: option.splits)
qed (auto intro: api_calls.intros)

text \<open>The contract between the client with its connections and the user.\<close>

definition owner_callbacks_ok :: "(uint64 \<Rightarrow> 'v owner client_callbacks) \<Rightarrow> bool" where
  "owner_callbacks_ok C \<longleftrightarrow> (\<forall>i f s t. (client_connection_cb (C i) = Some f \<or> client_message_cb (C i) = Some f) \<and> f s = Inr t \<longrightarrow> owner_calls i s t)"

locale client_owner =
  fixes C :: "uint64 \<Rightarrow> 'v owner client_callbacks"
  assumes calls_ok: "owner_callbacks_ok C"
begin

lemma connection_calls: "client_connection_cb (C i) = Some f \<Longrightarrow> f s = Inr t \<Longrightarrow> owner_calls i s t"
  and message_calls: "client_message_cb (C i) = Some f \<Longrightarrow> f s = Inr t \<Longrightarrow> owner_calls i s t"
  using calls_ok unfolding owner_callbacks_ok_def by blast+

lemma owned_calls:
  "connection_cb (owned_callbacks C i) s = Inr t \<Longrightarrow> owner_calls i s t" "message_cb (owned_callbacks C i) s = Inr t \<Longrightarrow> owner_calls i s t"
  using connection_calls message_calls by (auto simp: owned_callbacks_def TCPClient_conn_callbacks_def call_function_def split: option.splits)

lemma owned_ok: "callbacks_ok (owned_callbacks C i)"
proof -
  have "api_calls s t" if "close_cb (owned_callbacks C i) s = Inr t" for s t
    using that by (auto simp: owned_callbacks_def TCPClient_conn_callbacks_def removed_from_def rbind_eq_Inr_iff intro: api_calls_user api_calls.nothing)
  then show ?thesis unfolding callbacks_ok_def using owned_calls owner_calls_api by blast
qed

end

section \<open>What the client alone sees\<close>

text \<open>
  The events of the client alone: its own, and the close tasks and timers of the connections, \<open>K\<close> of each.
\<close>

fun seen_events :: "event list \<Rightarrow> (uint64 \<Rightarrow> nat) \<Rightarrow> event \<Rightarrow> nat" where
  "seen_events es K (CloseConnTask i) = K i"
| "seen_events es K e = count_list es e"

definition same_client :: "tcp_client \<Rightarrow> (uint64 \<Rightarrow> nat) \<Rightarrow> tcp_client \<Rightarrow> bool" where
  "same_client x K c \<longleftrightarrow> c = x\<lparr>events := events c\<rparr> \<and> (\<forall>e. count_list (events c) e = seen_events (events x) K e)"

text \<open>The match, of a whole program, and of a program inside a handler of the connection \<open>i\<close>.\<close>

definition owner_ok :: "'v owner hub \<Rightarrow> bool" where
  "owner_ok h \<longleftrightarrow> peers h 0 = None \<and> (\<forall>i w. peer_world i h = Some w \<longrightarrow> conn_inv w)"

definition stands_for :: "'v owner hub \<Rightarrow> tcp_client \<Rightarrow> bool" where
  "stands_for h c \<longleftrightarrow> owner_ok h \<and> same_client (hub_client (refreshed h)) (peer_closes h) c"

definition inside :: "uint64 \<Rightarrow> 'v owner world \<Rightarrow> (uint64 \<Rightarrow> nat) \<Rightarrow> tcp_client \<Rightarrow> bool" where
  "inside i w K c \<longleftrightarrow> same_client (client_view i w) (K(i := close_tasks w)) c"

lemma count_list_app [simp]: "count_list (xs @ [e]) x = count_list xs x + (if e = x then 1 else 0)"
  by simp

text \<open>A change of the client that is the same on both sides and adds at most one event of its own.\<close>

lemma same_connect: "same_client x K c \<Longrightarrow> same_client (connect x) K (connect c)"
proof -
  assume a: "same_client x K c"
  obtain es where c: "c = x\<lparr>events := es\<rparr>" using a by (auto simp: same_client_def)
  have "seen_events (events x @ [AsyncConnect]) K e = seen_events (events x) K e + (if AsyncConnect = e then 1 else 0)" for e
    by (cases e) auto
  then show ?thesis using a unfolding c by (simp add: same_client_def connect_def ptr_status_def)
qed

lemma same_auto: "same_client x K c \<Longrightarrow> same_client (setAutoReconnect v x) K (setAutoReconnect v c)"
  by (cases c, cases x, auto simp: same_client_def setAutoReconnect_def)

lemma same_removed:
  assumes "same_client x K c" and "TCPClient_removeConnection i x = Inr y"
  shows "\<exists>d. TCPClient_removeConnection i c = Inr d \<and> same_client y K d"
proof -
  have p: "conn_ptr c = conn_ptr x" "auto_reconnect c = auto_reconnect x" using assms(1) by (cases c, cases x, auto simp: same_client_def)+
  have n: "same_client (x\<lparr>conn_ptr := None\<rparr>) K (c\<lparr>conn_ptr := None\<rparr>)" using assms(1) by (cases c, cases x, auto simp: same_client_def)
  show ?thesis using assms(2) p n same_connect [OF n]
    by (auto simp: TCPClient_removeConnection_def Let_def rbind_eq_Inr_iff reconnect_def)
qed

lemma same_fields_upd:
  "same_client x K c \<Longrightarrow> same_client (x\<lparr>is_connecting := b\<rparr>) K (c\<lparr>is_connecting := b\<rparr>)"
  "same_client x K c \<Longrightarrow> same_client (x\<lparr>id_counter := n\<rparr>) K (c\<lparr>id_counter := n\<rparr>)"
  "same_client x K c \<Longrightarrow> same_client (x\<lparr>conn_ptr := p\<rparr>) K (c\<lparr>conn_ptr := p\<rparr>)"
  "same_client x K c \<Longrightarrow> same_client (x\<lparr>statuses := f\<rparr>) K (c\<lparr>statuses := f\<rparr>)"
  by (cases c, cases x, auto simp: same_client_def)+

lemma same_client_fields:
  assumes "same_client x K c"
  shows "statuses c = statuses x" "conn_ptr c = conn_ptr x" "is_connecting c = is_connecting x" "id_counter c = id_counter x"
    "auto_reconnect c = auto_reconnect x"
  using assms by (cases c, cases x, auto simp: same_client_def)+

lemma same_close:
  assumes "same_client x (K(i := n)) c" and "statuses x i = kConnected"
  shows "same_client (x\<lparr>statuses := (statuses x)(i := kDisconnecting)\<rparr>) (K(i := Suc n)) (close_connection i c)"
proof -
  obtain es where c: "c = x\<lparr>events := es\<rparr>" using assms(1) by (auto simp: same_client_def)
  have "seen_events (events x) (K(i := Suc n)) e = seen_events (events x) (K(i := n)) e + (if CloseConnTask i = e then 1 else 0)" for e
    by (cases e) auto
  then show ?thesis using assms unfolding c by (simp add: same_client_def close_connection_def)
qed

text \<open>What a callback does is a sequence of calls of the client's interface.\<close>

lemma inside_unmoved: "inside i s K c \<Longrightarrow> status (conn t) = status (conn s) \<Longrightarrow> close_tasks t = close_tasks s \<Longrightarrow> user t = user s \<Longrightarrow> inside i t K c"
  by (simp add: inside_def client_view_def)

lemma inside_close:
  assumes "inside i t K c"
  shows "inside i (TCPConn_close t) K (close_connection i c)" "inside i (closeWithDelay t) K (close_connection i c)"
proof -
  have st: "statuses c i = status (conn t)" using same_client_fields(1) assms unfolding inside_def by (force simp: client_view_def)
  have "inside i (TCPConn_close t) K (close_connection i c) \<and> inside i (closeWithDelay t) K (close_connection i c)"
  proof (cases "status (conn t) = kConnected")
    case True
    then show ?thesis using same_close [of "client_view i t" K i "close_tasks t" c] assms
      by (simp add: inside_def client_view_def TCPConn_close_def closeWithDelay_def)
  next
    case False
    then show ?thesis using assms st by (simp add: TCPConn_close_def closeWithDelay_def close_connection_def)
  qed
  then show "inside i (TCPConn_close t) K (close_connection i c)" "inside i (closeWithDelay t) K (close_connection i c)" by simp_all
qed

text \<open>The statuses of the other connections stay as they are.\<close>

definition others_kept :: "uint64 \<Rightarrow> 'v owner world \<Rightarrow> 'v owner world \<Rightarrow> bool" where
  "others_kept i s t \<longleftrightarrow> (\<forall>j. j \<noteq> i \<longrightarrow> statuses (fst (user t)) j = statuses (fst (user s)) j)"

lemma client_statuses_same: "statuses c = f \<Longrightarrow> c\<lparr>statuses := f\<rparr> = c"
  by (cases c) simp

lemma view_on_client:
  assumes "statuses (f (client_view i t)) = statuses (client_view i t)"
  shows "client_view i (on_client i f t) = f (client_view i t)"
  unfolding client_view_def [of i "on_client i f t"] using assms by (simp add: on_client_def client_statuses_same) (simp add: client_view_def)

lemma statuses_kept [simp]: "statuses (connect c) = statuses c" "statuses (setAutoReconnect x c) = statuses c"
  by (simp_all add: connect_def setAutoReconnect_def)

lemma close_tasks_on_client [simp]: "close_tasks (on_client i f t) = close_tasks t"
  by (simp add: on_client_def)

lemma inside_auto: "inside i t K c \<Longrightarrow> inside i (on_client i (setAutoReconnect x) t) K (setAutoReconnect x c)"
  by (simp add: inside_def view_on_client same_auto)

lemma inside_connect: "inside i t K c \<Longrightarrow> inside i (on_client i connect t) K (connect c)"
  by (simp add: inside_def view_on_client same_connect)

lemma inside_disconnect:
  assumes t: "inside i t K c" and p: "conn_ptr (fst (user t)) \<in> {None, Some i}" and run: "disconnect_from i t = Inr t'"
  shows "\<exists>d. disconnect c = Inr d \<and> inside i t' K d"
proof -
  have c: "conn_ptr c = conn_ptr (fst (user t))" "statuses c i = status (conn t)"
    using same_client_fields [OF t [unfolded inside_def]] by (simp_all add: client_view_def)
  note a = inside_auto [OF t, of False]
  show ?thesis
  proof (cases "conn_ptr c")
    case None
    then show ?thesis using run c a by (auto simp: disconnect_from_def disconnect_def Let_def setAutoReconnect_def on_client_def client_view_def)
  next
    case (Some j)
    then have "j = i" using p c by simp
    then show ?thesis using Some run c inside_close(1) [OF a]
      by (auto simp: disconnect_from_def disconnect_def Let_def setAutoReconnect_def on_client_def client_view_def isDisconnected_def isDisconnecting_def
          rbind_eq_Inr_iff cassert_def split: if_splits)
  qed
qed

lemma disconnect_from_kept: "disconnect_from i t = Inr t' \<Longrightarrow> others_kept i t t'"
  by (auto simp: disconnect_from_def Let_def rbind_eq_Inr_iff on_client_def client_view_def setAutoReconnect_def TCPConn_close_def others_kept_def
      split: option.splits if_splits)

lemma owner_calls_inside:
  assumes "owner_calls i s t" and "inside i s K c"
  shows "\<exists>d. client_calls c d \<and> inside i t K d \<and> others_kept i s t"
  using assms
proof (induction rule: owner_calls.induct)
  case nothing
  then show ?case using client_calls.nothing by (auto simp: others_kept_def)
next
  case (own_state t b v m)
  then show ?case by (auto simp: inside_def client_view_def others_kept_def)
next
  case (send t in_loop d t')
  then show ?case using send_unmoved [OF send.hyps(2)] inside_unmoved [of i t K _ t'] by (auto simp: unmoved_def others_kept_def)
next
  case (send_buffer t in_loop b b' t')
  then show ?case using send_buffer_unmoved [OF send_buffer.hyps(2)] inside_unmoved [of i t K _ t'] by (auto simp: unmoved_def others_kept_def)
next
  case (close t)
  then obtain d where "client_calls c d" "inside i t K d" "others_kept i s t" by blast
  then show ?case using client_calls.call_close inside_close(1) [of i t K d]
    by (intro exI [of _ "close_connection i d"]) (auto simp: others_kept_def TCPConn_close_def)
next
  case (close_delay t)
  then obtain d where "client_calls c d" "inside i t K d" "others_kept i s t" by blast
  then show ?case using client_calls.call_close inside_close(2) [of i t K d]
    by (intro exI [of _ "close_connection i d"]) (auto simp: others_kept_def closeWithDelay_def)
next
  case (connect t)
  then obtain d where "client_calls c d" "inside i t K d" "others_kept i s t" by blast
  then show ?case using client_calls.call_connect inside_connect [of i t K d]
    by (intro exI [of _ "connect d"]) (auto simp: others_kept_def on_client_def client_view_def)
next
  case (auto t x)
  then obtain d where "client_calls c d" "inside i t K d" "others_kept i s t" by blast
  then show ?case using client_calls.call_auto inside_auto [of i t K d]
    by (intro exI [of _ "setAutoReconnect x d"]) (auto simp: others_kept_def on_client_def client_view_def)
next
  case (disconnect t t')
  then obtain d where d: "client_calls c d" "inside i t K d" "others_kept i s t" by blast
  obtain e where e: "Tcp_Client.disconnect d = Inr e" "inside i t' K e" using inside_disconnect [OF d(2) disconnect.hyps(2,3)] by blast
  have "client_calls c e" using client_calls.call_disconnect [OF d(1) e(1)] .
  then show ?case using e(2) d(3) disconnect_from_kept [OF disconnect.hyps(3)] by (auto simp: others_kept_def)
qed

end
