(* ===== verification/Client_Run.thy ===== *)
theory Client_Run
  imports Client_Site
begin

text \<open>
  The composition of theory \<open>Client_Site\<close> simulates the client of theory \<open>Tcp_Client\<close>, step by step: what
  the handlers of the connections do through their callbacks is what the client alone does in one of its own steps.
\<close>

section \<open>From a handler to the program\<close>

lemma peer_statuses_put [simp]: "peer_statuses (put_peer i w h) j = (if j = i then status (conn w) else peer_statuses h j)"
  by (simp add: peer_statuses_def)

lemma peers_on_hub [simp]: "peers (on_hub f h) = peers h" "hub_client (on_hub f h) = f (hub_client h)"
  by (simp_all add: on_hub_def hub_client_def)

lemma peer_on_hub:
  "peer_status (on_hub f h) = peer_status h" "peer_closes (on_hub f h) = peer_closes h" "peer_statuses (on_hub f h) = peer_statuses h"
  using peer_same [of "on_hub f h" h] by (simp_all add: peer_statuses_def fun_eq_iff)

lemma hub_client_refreshed: "hub_client (refreshed h) = (hub_client h)\<lparr>statuses := peer_statuses h\<rparr>"
  by (simp add: refreshed_def)

text \<open>The state of the callbacks does not matter to the invariant of connections.\<close>

lemma peer_world_same:
  assumes "peers h' = peers h" and "peer_world i h' = Some w"
  obtains v where "peer_world i h = Some v" "w = v\<lparr>cmem := hub_mem h', user := hub_user h'\<rparr>"
  using assms by (cases "peers h i") (auto simp: peer_world_def)

lemma owner_ok_hub:
  fixes h h' :: "'v owner hub"
  assumes "owner_ok h" and p: "peers h' = peers h"
  shows "owner_ok h'"
proof -
  have "conn_inv w" if "peer_world i h' = Some w" for i w
    by (rule peer_world_same [OF p that]) (use assms(1) in \<open>simp add: owner_ok_def\<close>)
  then show ?thesis using assms by (simp add: owner_ok_def)
qed

lemma owner_ok_put: "owner_ok h \<Longrightarrow> conn_inv w \<Longrightarrow> i \<noteq> 0 \<Longrightarrow> owner_ok (put_peer i w h)"
  by (auto simp: owner_ok_def peer_world_put)

text \<open>Entering a handler of the connection \<open>i\<close>, and leaving it.\<close>

lemma stands_inside:
  assumes "stands_for h c" and "peer_world i (refreshed h) = Some w"
  shows "inside i w (peer_closes h) c" "\<And>j. statuses (fst (user w)) j = peer_statuses h j" "i \<noteq> 0" "conn_inv w"
proof -
  have ok: "owner_ok h" and same: "same_client (hub_client (refreshed h)) (peer_closes h) c" using assms(1) by (simp_all add: stands_for_def)
  have "peers (refreshed h) = peers h" by (simp add: refreshed_def)
  then obtain v where v: "peer_world i h = Some v" "w = v\<lparr>cmem := hub_mem (refreshed h), user := hub_user (refreshed h)\<rparr>"
    using assms(2) by (rule peer_world_same)
  then show "i \<noteq> 0" "conn_inv w" using ok by (auto simp: owner_ok_def peer_world_def)
  have u: "fst (user w) = (hub_client h)\<lparr>statuses := peer_statuses h\<rparr>"
    using v(2) hub_client_refreshed [of h] by (simp add: hub_client_def)
  then show "\<And>j. statuses (fst (user w)) j = peer_statuses h j" by simp
  have "status (conn w) = peer_statuses h i" "close_tasks w = peer_closes h i"
    using v by (simp_all add: peer_statuses_def peer_status_def peer_closes_def)
  then have "client_view i w = hub_client (refreshed h)" "(peer_closes h)(i := close_tasks w) = peer_closes h"
    using u by (simp_all add: client_view_def hub_client_refreshed)
  then show "inside i w (peer_closes h) c" using same by (simp add: inside_def)
qed

lemma inside_stands:
  assumes "inside i w (peer_closes h) c" and "\<And>j. j \<noteq> i \<Longrightarrow> statuses (fst (user w)) j = peer_statuses h j"
    and "owner_ok h" and "conn_inv w" and "i \<noteq> 0"
  shows "stands_for (put_peer i w h) c"
proof -
  have "hub_client (refreshed (put_peer i w h)) = client_view i w"
  proof -
    have "peer_statuses (put_peer i w h) = (statuses (fst (user w)))(i := status (conn w))" using assms(2) by (simp add: fun_eq_iff)
    then show ?thesis by (simp add: hub_client_refreshed client_view_def) (simp add: hub_client_def)
  qed
  moreover have "peer_closes (put_peer i w h) = (peer_closes h)(i := close_tasks w)" by (simp add: fun_eq_iff)
  ultimately show ?thesis using assms owner_ok_put by (simp add: stands_for_def inside_def)
qed

section \<open>Handlers of connections\<close>

lemma polite_one: "client_calls c d \<Longrightarrow> polite (\<lambda>x. if x = c then Inr d else Inr x)"
  by (auto simp: polite_def intro: client_calls.nothing split: if_splits)

lemma others_kept_trans: "others_kept i s t \<Longrightarrow> others_kept i t u \<Longrightarrow> others_kept i s u"
  by (simp add: others_kept_def)

text \<open>Taking an event that is pending.\<close>

lemma count_taken: "e \<in> set es \<Longrightarrow> count_list (remove1 e es) x = count_list es x - (if e = x then 1 else 0)"
  by (induction es) (auto simp: count_list_0_iff Suc_diff_1 [symmetric] gr0_conv_Suc)

text \<open>\<open>removeConnection\<close> and the final status.\<close>

lemma removed_inside:
  assumes s: "inside i s K c" and run: "removed_from i (s\<lparr>calls := cs\<rparr>) = Inr t"
  shows "\<exists>d. TCPClient_removeConnection i c = Inr d \<and> others_kept i s t
    \<and> inside i (upd_conn (status_update (\<lambda>_. kDisconnected)) t) K (d\<lparr>statuses := (statuses d)(i := kDisconnected)\<rparr>)"
proof -
  have v: "client_view i (s\<lparr>calls := cs\<rparr>) = client_view i s" by (simp add: client_view_def)
  obtain y where y: "TCPClient_removeConnection i (client_view i s) = Inr y" "t = s\<lparr>calls := cs, user := (y, snd (user s))\<rparr>"
    using run by (auto simp: removed_from_def v rbind_eq_Inr_iff)
  obtain d where d: "TCPClient_removeConnection i c = Inr d" "same_client y (K(i := close_tasks s)) d"
    using same_removed [OF s [unfolded inside_def] y(1)] by blast
  have "statuses y = statuses (client_view i s)"
    using y(1) by (auto simp: TCPClient_removeConnection_def Let_def rbind_eq_Inr_iff reconnect_def split: if_splits)
  then have "others_kept i s t" using y(2) by (simp add: others_kept_def client_view_def)
  moreover have "inside i (upd_conn (status_update (\<lambda>_. kDisconnected)) t) K (d\<lparr>statuses := (statuses d)(i := kDisconnected)\<rparr>)"
    using same_fields_upd(4) [OF d(2), of "(statuses y)(i := kDisconnected)"] same_client_fields(1) [OF d(2)] y(2)
    by (simp add: inside_def client_view_def)
  ultimately show ?thesis using d(1) by blast
qed

context client_owner
begin

text \<open>The callbacks of a closing connection are the ones of \<open>connection_closed\<close>.\<close>

lemma closed_inside:
  assumes s: "inside i s K (c\<lparr>statuses := (statuses c)(i := kDisconnecting)\<rparr>)" and cb: "connection_cb (owned_callbacks C i) s = Inr u"
    and close: "close_cb (owned_callbacks C i) (u\<lparr>calls := cs\<rparr>) = Inr v"
  shows "\<exists>f d. polite f \<and> connection_closed f i c = Inr d \<and> inside i (upd_conn (status_update (\<lambda>_. kDisconnected)) v) K d \<and> others_kept i s v"
proof -
  let ?c = "c\<lparr>statuses := (statuses c)(i := kDisconnecting)\<rparr>"
  obtain c1 where c1: "client_calls ?c c1" "inside i u K c1" "others_kept i s u" using owner_calls_inside [OF owned_calls(1) [OF cb] s] by blast
  have "removed_from i (u\<lparr>calls := cs\<rparr>) = Inr v" using close by (simp add: owned_callbacks_def TCPClient_conn_callbacks_def)
  then obtain d where d: "TCPClient_removeConnection i c1 = Inr d" "others_kept i u v"
    "inside i (upd_conn (status_update (\<lambda>_. kDisconnected)) v) K (d\<lparr>statuses := (statuses d)(i := kDisconnected)\<rparr>)"
    using removed_inside [OF c1(2)] by blast
  let ?f = "\<lambda>x. if x = ?c then Inr c1 else Inr x"
  have "connection_closed ?f i c = Inr (d\<lparr>statuses := (statuses d)(i := kDisconnected)\<rparr>)" using d(1) by (simp add: connection_closed_def)
  then show ?thesis using polite_one [OF c1(1)] d(3) others_kept_trans [OF c1(3) d(2)] by blast
qed

lemma closing_inside:
  assumes w: "inside i w K c" and cl: "closing_from (owned_callbacks C i) w w'"
  shows "\<exists>d. user_step c (Inr d) \<and> inside i w' K d \<and> others_kept i w w'"
proof -
  obtain u where u: "handleClose (owned_callbacks C i) u = Inr w'" "user u = user w"
    "status (conn w) \<noteq> kDisconnected \<and> close_tasks u = close_tasks w \<or> status (conn w) = kDisconnecting \<and> close_tasks w = Suc (close_tasks u)"
    using cl unfolding closing_from_def by blast
  obtain s1 s2 s3 where p: "status (conn s1) = kDisconnecting" "close_tasks s1 = close_tasks u" "user s1 = user u"
    "connection_cb (owned_callbacks C i) s1 = Inr s2" "close_cb (owned_callbacks C i) (s2\<lparr>calls := calls s2 @ [CloseCb]\<rparr>) = Inr s3"
    "w' = upd_conn (status_update (\<lambda>_. kDisconnected)) s3"
    by (rule handleClose_parts [OF u(1)]) blast
  note sc = w [unfolded inside_def]
  note st = same_client_fields(1) [OF sc]
  have v: "client_view i s1 = (client_view i w)\<lparr>statuses := (statuses (client_view i w))(i := kDisconnecting)\<rparr>"
    using p(1,3) u(2) by (simp add: client_view_def)
  have kept: "others_kept i s1 s3 \<Longrightarrow> others_kept i w w'" using p(3,6) u(2) by (simp add: others_kept_def)
  show ?thesis
  proof (cases "close_tasks u = close_tasks w")
    case True
    have "inside i s1 K (c\<lparr>statuses := (statuses c)(i := kDisconnecting)\<rparr>)"
      using same_fields_upd(4) [OF sc] True p(2) by (simp add: inside_def v st)
    then obtain f d where d: "polite f" "connection_closed f i c = Inr d" "inside i w' K d" "others_kept i s1 s3"
      using closed_inside [OF _ p(4,5)] p(6) by blast
    have "statuses c i \<noteq> kDisconnected" using u(3) True st by (simp add: client_view_def)
    from client_step.conn_error [OF this, of f] show ?thesis using user_step.event [OF d(1)] d(2-4) kept by metis
  next
    case False
    then have k: "status (conn w) = kDisconnecting" "close_tasks w = Suc (close_tasks u)" using u(3) by auto
    let ?c = "taken_event (CloseConnTask i) c"
    have "count_list (events c) (CloseConnTask i) = Suc (close_tasks u)" using sc k(2) by (simp add: same_client_def)
    then have t: "CloseConnTask i \<in> set (events c)" using count_notin by fastforce
    have "count_list (events ?c) e = seen_events (events (client_view i w)) (K(i := close_tasks u)) e" for e
      using sc k(2) count_taken [OF t] by (cases e) (auto simp: same_client_def taken_event_def)
    then have "same_client (client_view i w) (K(i := close_tasks u)) ?c" using sc by (cases c, auto simp: same_client_def taken_event_def)
    from same_fields_upd(4) [OF this] have "inside i s1 K (?c\<lparr>statuses := (statuses ?c)(i := kDisconnecting)\<rparr>)"
      using p(2) by (simp add: inside_def v st taken_event_def)
    then obtain f d where d: "polite f" "connection_closed f i ?c = Inr d" "inside i w' K d" "others_kept i s1 s3"
      using closed_inside [OF _ p(4,5)] p(6) by blast
    have "client_step f c (Inr d)" using client_step.close_run [OF t, of f] d(2) k(1) st by (simp add: client_view_def)
    then show ?thesis using user_step.event [OF d(1)] d(3,4) kept by metis
  qed
qed

lemma owner_moved_sim:
  assumes h: "stands_for h c" and w: "peer_world i (refreshed h) = Some w" and step: "conn_step (owned_callbacks C i) w (Inr w')"
  shows "\<exists>d. user_step c (Inr d) \<and> stands_for (put_peer i w' h) d"
proof -
  note in_w = stands_inside [OF h w]
  have ok: "owner_ok h" using h by (simp add: stands_for_def)
  have inv: "conn_inv w'" using conn_step_inv [OF step owned_ok in_w(4)] by simp
  have "\<exists>d. user_step c (Inr d) \<and> inside i w' (peer_closes h) d \<and> others_kept i w w'"
    using conn_step_parts [OF step refl]
  proof (elim disjE)
    assume "same_view w w'"
    then show ?thesis using in_w(1) inside_unmoved [of i w _ c w'] user_step.calls [OF client_calls.nothing] by (auto simp: same_view_def others_kept_def)
  next
    assume "closing_from (owned_callbacks C i) w w'"
    then show ?thesis by (rule closing_inside [OF in_w(1)])
  next
    assume "message_from (owned_callbacks C i) w w'"
    then obtain u v where m: "same_view w u" "message_cb (owned_callbacks C i) u = Inr v" "same_view v w'" unfolding message_from_def by blast
    have "inside i u (peer_closes h) c" using inside_unmoved [OF in_w(1)] m(1) by (simp add: same_view_def)
    then obtain d where d: "client_calls c d" "inside i v (peer_closes h) d" "others_kept i u v"
      using owner_calls_inside [OF owned_calls(2) [OF m(2)]] by blast
    have "inside i w' (peer_closes h) d" using inside_unmoved [OF d(2)] m(3) by (simp add: same_view_def)
    then show ?thesis using user_step.calls [OF d(1)] d(3) m(1,3) by (auto simp: same_view_def others_kept_def)
  next
    assume "w' = TCPConn_close w"
    then show ?thesis using inside_close(1) [OF in_w(1)] user_step.calls [OF client_calls.call_close [OF client_calls.nothing]]
      by (intro exI [of _ "close_connection i c"]) (simp add: others_kept_def TCPConn_close_def)
  next
    assume "w' = closeWithDelay w"
    then show ?thesis using inside_close(2) [OF in_w(1)] user_step.calls [OF client_calls.call_close [OF client_calls.nothing]]
      by (intro exI [of _ "close_connection i c"]) (simp add: others_kept_def closeWithDelay_def)
  qed
  then obtain d where d: "user_step c (Inr d)" "inside i w' (peer_closes h) d" "others_kept i w w'" by blast
  have "stands_for (put_peer i w' h) d"
    by (rule inside_stands [OF d(2) _ ok inv in_w(3)]) (use d(3) in_w(2) in \<open>simp add: others_kept_def\<close>)
  then show ?thesis using d(1) by blast
qed

end

section \<open>Steps of the client\<close>

lemma same_taken:
  assumes "same_client x K c" and e: "e \<in> set (events x)" "\<And>i. e \<noteq> CloseConnTask i"
  shows "e \<in> set (events c)" "same_client (taken_event e x) K (taken_event e c)"
proof -
  have "count_list (events c) e = count_list (events x) e" using assms(1,3) by (cases e) (auto simp: same_client_def)
  then show m: "e \<in> set (events c)" using e(1) by (metis count_list_0_iff)
  have "count_list (remove1 e (events c)) y = seen_events (remove1 e (events x)) K y" for y
    using assms count_taken [OF m] count_taken [OF e(1)] by (cases y) (auto simp: same_client_def)
  then show "same_client (taken_event e x) K (taken_event e c)" using assms(1) by (cases c, cases x, auto simp: same_client_def taken_event_def)
qed

lemma stands_on_hub:
  assumes "stands_for h c" and "same_client ((f (hub_client h))\<lparr>statuses := peer_statuses h\<rparr>) (peer_closes h) d"
  shows "stands_for (on_hub f h) d"
  using assms owner_ok_hub [of h "on_hub f h"] by (simp add: stands_for_def hub_client_refreshed peer_on_hub)

lemma stands_refreshed: "stands_for (refreshed h) c = stands_for h c"
proof -
  have "hub_client (refreshed (refreshed h)) = hub_client (refreshed h)" by (simp add: hub_client_refreshed peer_on_hub refreshed_def)
  moreover have "peers (refreshed h) = peers h" "peer_closes (refreshed h) = peer_closes h" by (simp_all add: refreshed_def peer_on_hub)
  ultimately show ?thesis using owner_ok_hub [of h "refreshed h"] owner_ok_hub [of "refreshed h" h] by (auto simp: stands_for_def)
qed

text \<open>An operation of the client alone that leaves the statuses as they are.\<close>

lemma stands_operation:
  assumes h: "stands_for h c" and f: "\<And>x K c. same_client x K c \<Longrightarrow> same_client (f x) K (f c)" "\<And>x. statuses (f x) = statuses x"
  shows "stands_for (on_hub f (refreshed h)) (f c)"
proof -
  have "stands_for (refreshed h) c" "same_client (hub_client (refreshed h)) (peer_closes h) c" using h by (simp_all add: stands_refreshed) (simp add: stands_for_def)
  moreover have "(f (hub_client (refreshed h)))\<lparr>statuses := peer_statuses (refreshed h)\<rparr> = f (hub_client (refreshed h))"
    using f(2) by (intro client_statuses_same) (simp add: hub_client_refreshed, simp add: refreshed_def peer_on_hub)
  moreover have "peer_closes (refreshed h) = peer_closes h" by (simp add: refreshed_def peer_on_hub)
  ultimately show ?thesis using f(1) by (intro stands_on_hub) simp_all
qed

lemma refreshed_idem: "statuses (hub_client h) = peer_statuses h \<Longrightarrow> refreshed h = h"
  by (cases h) (simp add: refreshed_def on_hub_def hub_client_def client_statuses_same)

lemma refreshed_statuses: "refreshed h = h \<Longrightarrow> statuses (hub_client h) = peer_statuses h"
  using hub_client_refreshed [of h] by (auto dest: arg_cong [where f = statuses])

lemma refreshed_operation: "(\<And>x. statuses (f x) = statuses x) \<Longrightarrow> refreshed (on_hub f (refreshed h)) = on_hub f (refreshed h)"
  by (intro refreshed_idem) (simp add: peer_on_hub, simp add: refreshed_def peer_on_hub)

lemma disconnect_sim:
  assumes h: "stands_for h c" and run: "owner_disconnect (refreshed h) = Inr h'"
  shows "\<exists>d. disconnect c = Inr d \<and> stands_for h' d"
proof -
  let ?h = "on_hub (setAutoReconnect False) (refreshed h)" and ?c = "setAutoReconnect False c"
  have s: "stands_for ?h ?c" by (rule stands_operation [OF h same_auto]) simp_all
  have r: "refreshed ?h = ?h" by (rule refreshed_operation) simp
  have p: "conn_ptr ?c = conn_ptr (hub_client ?h)" "statuses ?c = peer_statuses ?h"
    using s same_client_fields(1,2) unfolding stands_for_def by (fastforce simp: hub_client_refreshed)+
  show ?thesis
  proof (cases "conn_ptr ?c")
    case None
    then show ?thesis using run p s by (auto simp: owner_disconnect_def disconnect_def Let_def setAutoReconnect_def)
  next
    case (Some i)
    then obtain w where w: "peer_world i ?h = Some w" "\<not> isDisconnected (conn w)" "\<not> isDisconnecting (conn w)" "h' = put_peer i (TCPConn_close w) ?h"
      using run p by (auto simp: owner_disconnect_def Let_def rbind_eq_Inr_iff cassert_def split: option.splits if_splits)
    have in_w: "inside i w (peer_closes ?h) ?c" "\<And>j. statuses (fst (user w)) j = peer_statuses ?h j" "i \<noteq> 0" "conn_inv w"
      using stands_inside [OF s, of i w] w(1) r by simp_all
    have "stands_for h' (close_connection i ?c)" unfolding w(4)
    proof (rule inside_stands [OF inside_close(1) [OF in_w(1)]])
      show "owner_ok ?h" using s by (simp add: stands_for_def)
      show "conn_inv (TCPConn_close w)" using in_w(4) by (auto simp: TCPConn_close_def conn_inv_def flow_inv_def Conn_Control.live_def dead_def)
    qed (use in_w in \<open>auto simp: TCPConn_close_def\<close>)
    moreover have "disconnect c = Inr (close_connection i ?c)"
      using Some w(1-3) p(2) by (simp add: disconnect_def Let_def setAutoReconnect_def peer_statuses_def peer_status_def isDisconnected_def isDisconnecting_def)
    ultimately show ?thesis by blast
  qed
qed

lemma taken_sim:
  assumes h: "stands_for h c" and e: "e \<in> set (events (hub_client h))" "\<And>i. e \<noteq> CloseConnTask i"
  shows "e \<in> set (events c)" "stands_for (on_hub (taken_event e) (refreshed h)) (taken_event e c)"
    "refreshed (on_hub (taken_event e) (refreshed h)) = on_hub (taken_event e) (refreshed h)"
proof -
  have same: "same_client (hub_client (refreshed h)) (peer_closes h) c" using h by (simp add: stands_for_def)
  have "e \<in> set (events (hub_client (refreshed h)))" using e(1) by (simp add: hub_client_refreshed)
  note t = same_taken [OF same this e(2)]
  then show "e \<in> set (events c)" by simp
  show "refreshed (on_hub (taken_event e) (refreshed h)) = on_hub (taken_event e) (refreshed h)"
    by (rule refreshed_operation) (simp add: taken_event_def)
  have "(taken_event e (hub_client (refreshed h)))\<lparr>statuses := peer_statuses (refreshed h)\<rparr> = taken_event e (hub_client (refreshed h))"
    by (intro client_statuses_same) (simp add: taken_event_def hub_client_refreshed, simp add: refreshed_def peer_on_hub)
  moreover have "peer_closes (refreshed h) = peer_closes h" by (simp add: refreshed_def peer_on_hub)
  ultimately show "stands_for (on_hub (taken_event e) (refreshed h)) (taken_event e c)"
    using t(2) h by (intro stands_on_hub [of _ c]) (simp_all add: stands_refreshed)
qed

text \<open>Changes of single fields.\<close>

lemma same_timer: "same_client x K c \<Longrightarrow> same_client (x\<lparr>events := events x @ [ReconnectTimer]\<rparr>) K (c\<lparr>events := events c @ [ReconnectTimer]\<rparr>)"
proof -
  have "seen_events (events x @ [ReconnectTimer]) K e = seen_events (events x) K e + (if ReconnectTimer = e then 1 else 0)" for e
    by (cases e) auto
  then show "same_client x K c \<Longrightarrow> same_client (x\<lparr>events := events x @ [ReconnectTimer]\<rparr>) K (c\<lparr>events := events c @ [ReconnectTimer]\<rparr>)"
    by (cases c, cases x, auto simp: same_client_def)
qed

lemma stands_change:
  assumes "stands_for h c" and "\<And>x K c. same_client x K c \<Longrightarrow> same_client (f x) K (f c)" and "\<And>x g. (f x)\<lparr>statuses := g\<rparr> = f (x\<lparr>statuses := g\<rparr>)"
  shows "stands_for (on_hub f h) (f c)"
  by (rule stands_on_hub [OF assms(1)]) (use assms in \<open>simp add: stands_for_def hub_client_refreshed\<close>)

lemma stands_fields:
  assumes "stands_for h c"
  shows "stands_for (on_hub (conn_ptr_update (\<lambda>_. p)) h) (c\<lparr>conn_ptr := p\<rparr>)"
    and "stands_for (on_hub (is_connecting_update (\<lambda>_. b)) h) (c\<lparr>is_connecting := b\<rparr>)"
    and "stands_for (on_hub (\<lambda>c. c\<lparr>events := events c @ [ReconnectTimer]\<rparr>) h) (c\<lparr>events := events c @ [ReconnectTimer]\<rparr>)"
  using stands_change [OF assms, of "conn_ptr_update (\<lambda>_. p)"] stands_change [OF assms, of "is_connecting_update (\<lambda>_. b)"]
    stands_change [OF assms, of "\<lambda>c. c\<lparr>events := events c @ [ReconnectTimer]\<rparr>"] same_fields_upd same_timer by simp_all

text \<open>A new object, which no connection has had the id of.\<close>

lemma new_peer_view:
  assumes "peers h i = None"
  shows "close_tasks (new_peer i eps h) = 0" "peer_closes h i = 0" "peer_statuses h i = kDisconnected" "user (new_peer i eps h) = hub_user h"
    "status (conn (new_peer i eps h)) = kDisconnected"
  using assms by (simp_all add: new_peer_def close_tasks_def peer_closes_def peer_statuses_def peer_status_def peer_world_def TCPConn_new_def)

context client_owner
begin

lemma owner_established_sim:
  assumes g: "stands_for g c" and r: "refreshed g = g" and i: "i = id_counter (hub_client g)" "i \<noteq> 0" "peers g i = None"
    and h: "h = on_hub (id_counter_update (\<lambda>_. i + 1)) g" and run: "connectEstablished (owned_callbacks C i) (new_peer i eps h) = Inr w"
  shows "\<exists>f d. polite f \<and> f (c\<lparr>id_counter := i + 1, statuses := (statuses c)(i := kConnected)\<rparr>) = Inr d
    \<and> stands_for (on_hub (conn_ptr_update (\<lambda>_. Some i)) (put_peer i w h)) (d\<lparr>conn_ptr := Some i\<rparr>)"
proof -
  let ?c = "c\<lparr>id_counter := i + 1, statuses := (statuses c)(i := kConnected)\<rparr>" and ?K = "peer_closes h"
  have n: "peers h i = None" using i(3) h by simp
  note new = new_peer_view [OF n]
  have ok: "owner_ok h" using g h owner_ok_hub [of g h] by (simp add: stands_for_def)
  have same: "same_client (hub_client g) (peer_closes g) c" using g r by (simp add: stands_for_def)
  have hg: "hub_client h = (hub_client g)\<lparr>id_counter := i + 1\<rparr>" "peer_closes h = peer_closes g" "peer_statuses h = peer_statuses g"
    "statuses (hub_client g) = peer_statuses g"
    using refreshed_statuses [OF r] by (simp_all add: h peer_on_hub)
  obtain s1 s2 where p: "status (conn s1) = kConnected" "close_tasks s1 = 0" "user s1 = hub_user h"
    "connection_cb (owned_callbacks C i) s1 = Inr s2" "unmoved s2 w"
    by (rule connectEstablished_parts [OF run]) (use new in simp)
  have v: "client_view i s1 = (hub_client h)\<lparr>statuses := (statuses (hub_client g))(i := kConnected)\<rparr>"
    using p(1,3) hg(1) by (simp add: client_view_def hub_client_def)
  have "same_client ((hub_client h)\<lparr>statuses := (statuses c)(i := kConnected)\<rparr>) ?K ?c"
    using same_fields_upd(4) [OF same_fields_upd(2) [OF same]] hg(1,2) by simp
  moreover have "?K(i := close_tasks s1) = ?K" using new(2) p(2) by auto
  ultimately have "inside i s1 ?K ?c" using same_client_fields(1) [OF same] by (simp add: inside_def v)
  then obtain d where d: "client_calls ?c d" "inside i s2 ?K d" "others_kept i s1 s2" using owner_calls_inside [OF owned_calls(1) [OF p(4)]] by blast
  have "inside i w ?K d" using inside_unmoved [OF d(2)] p(5) by (simp add: unmoved_def)
  then have "stands_for (put_peer i w h) d"
  proof (rule inside_stands [OF _ _ ok _ i(2)])
    show "conn_inv w" by (rule connectEstablished_inv [OF owned_ok new_peer_fresh(1) run])
    show "statuses (fst (user w)) j = peer_statuses h j" if "j \<noteq> i" for j
      using d(3) p(3,5) that hg(1,3,4) by (simp add: others_kept_def unmoved_def hub_client_def)
  qed
  then have "stands_for (on_hub (conn_ptr_update (\<lambda>_. Some i)) (put_peer i w h)) (d\<lparr>conn_ptr := Some i\<rparr>)"
    by (rule stands_fields)
  then show ?thesis using polite_one [OF d(1)] by (intro exI [of _ "\<lambda>x. if x = ?c then Inr d else Inr x"] exI [of _ d]) simp
qed

lemma refused_sim:
  assumes g: "stands_for g c" and r: "refreshed g = g"
    and run: "call_function (client_connection_cb (C 0)) (new_peer 0 eps g) = Inr w" "TCPConn_delete w = Inr w1"
  shows "\<exists>f d. polite f \<and> f c = Inr d \<and> stands_for (g\<lparr>hub_mem := cmem w1, hub_user := user w1\<rparr>) d"
proof -
  let ?h = "g\<lparr>hub_mem := cmem w1, hub_user := user w1\<rparr>" and ?K = "peer_closes g"
  have ok: "owner_ok g" and n: "peers g 0 = None" and same: "same_client (hub_client g) ?K c" using g r by (simp_all add: stands_for_def owner_ok_def)
  note new = new_peer_view [OF n]
  have st: "statuses (hub_client g) = peer_statuses g" by (rule refreshed_statuses [OF r])
  have cb: "owner_calls 0 (new_peer 0 eps g) w" using run(1) connection_calls by (auto simp: call_function_def split: option.splits)
  have "client_view 0 (new_peer 0 eps g) = hub_client g"
    using new(3-5) st by (simp add: client_view_def hub_client_def client_statuses_same fun_upd_idem)
  moreover have "?K(0 := close_tasks (new_peer 0 eps g)) = ?K" using new(1,2) by auto
  ultimately have "inside 0 (new_peer 0 eps g) ?K c" using same by (simp add: inside_def)
  then obtain d where d: "client_calls c d" "inside 0 w ?K d" "others_kept 0 (new_peer 0 eps g) w" using owner_calls_inside [OF cb] by blast
  have w: "status (conn w) = kDisconnected" "close_tasks w = 0"
    using api_calls_effect [OF owner_calls_api [OF cb]] new(1,5) by (auto simp: public_effect_def)
  have u: "user w1 = user w" using run(2) by (auto simp: TCPConn_delete_def rbind_eq_Inr_iff)
  have p: "peers ?h = peers g" by simp
  have same_h: "peer_statuses ?h = peer_statuses g" "peer_closes ?h = ?K" using peer_same [OF p] by (simp_all add: peer_statuses_def fun_eq_iff)
  have "(statuses (fst (user w)))(0 := status (conn w)) = peer_statuses ?h"
    using d(3) w(1) new(3,4) st by (auto simp: same_h others_kept_def hub_client_def fun_eq_iff)
  then have "client_view 0 w = hub_client (refreshed ?h)" using u by (simp add: client_view_def hub_client_refreshed) (simp add: hub_client_def)
  moreover have "?K(0 := close_tasks w) = peer_closes ?h" using w(2) new(2) by (auto simp: same_h(2))
  ultimately have "stands_for ?h d" using d(2) owner_ok_hub [OF ok p] by (simp add: stands_for_def inside_def)
  then show ?thesis using polite_one [OF d(1)] by (intro exI [of _ "\<lambda>x. if x = c then Inr d else Inr x"] exI [of _ d]) simp
qed

lemma connected_sim:
  assumes h: "stands_for h c" and e: "AsyncConnect \<in> set (events (hub_client h))" and i: "id_counter (hub_client h) \<noteq> 0" "peers h (id_counter (hub_client h)) = None"
    and run: "owner_newConnection C eps ec (on_hub (taken_event AsyncConnect) (refreshed h)) = Inr h'"
  shows "\<exists>d. user_step c (Inr d) \<and> stands_for h' d"
proof -
  let ?h = "on_hub (taken_event AsyncConnect) (refreshed h)" and ?c = "taken_event AsyncConnect c"
  let ?g = "on_hub (is_connecting_update (\<lambda>_. False)) ?h" and ?d = "?c\<lparr>is_connecting := False\<rparr>"
  note t = taken_sim [OF h e]
  have same: "same_client (hub_client (refreshed h)) (peer_closes h) c" using h by (simp add: stands_for_def)
  have g: "stands_for ?g ?d" using stands_fields(2) [OF t(2)] by simp
  have r: "refreshed ?g = ?g" using refreshed_statuses [OF t(3)] by (intro refreshed_idem) (simp add: peer_on_hub)
  have step: "user_step c (Inr d)" if "polite f" "TCPClient_newConnection f ec ?c = Inr d" for f d
    using user_step.event [OF that(1) client_step.connected [of c f ec]] t(1) that(2) by simp
  show ?thesis
  proof (cases "ec = Success")
    case True
    let ?i = "id_counter (hub_client ?g)"
    obtain w where w: "connectEstablished (owned_callbacks C ?i) (new_peer ?i eps (on_hub (id_counter_update (\<lambda>_. ?i + 1)) ?g)) = Inr w"
      "h' = on_hub (conn_ptr_update (\<lambda>_. Some ?i)) (put_peer ?i w (on_hub (id_counter_update (\<lambda>_. ?i + 1)) ?g))"
      using run True by (auto simp: owner_newConnection_def Let_def rbind_eq_Inr_iff)
    have "?i \<noteq> 0" "peers ?g ?i = None" using i by (simp_all add: refreshed_def taken_event_def)
    then obtain f d where d: "polite f" "f (?d\<lparr>id_counter := ?i + 1, statuses := (statuses ?d)(?i := kConnected)\<rparr>) = Inr d" "stands_for h' (d\<lparr>conn_ptr := Some ?i\<rparr>)"
      using owner_established_sim [OF g r refl _ _ refl w(1)] w(2) by blast
    have "id_counter ?d = ?i" using same_client_fields(4) [OF same] by (simp add: taken_event_def hub_client_refreshed)
    then have "TCPClient_newConnection f ec ?c = Inr (d\<lparr>conn_ptr := Some ?i\<rparr>)" using d(2) True by (simp add: TCPClient_newConnection_def Let_def)
    then show ?thesis using step [OF d(1)] d(3) by blast
  next
    case False
    obtain w w1 where w: "call_function (client_connection_cb (C 0)) (new_peer 0 eps ?g) = Inr w" "TCPConn_delete w = Inr w1"
      "h' = (let h2 = ?g\<lparr>hub_mem := cmem w1, hub_user := user w1\<rparr> in
        if auto_reconnect (hub_client h2) then on_hub (\<lambda>c. c\<lparr>events := events c @ [ReconnectTimer]\<rparr>) h2 else h2)"
      using run False by (auto simp: owner_newConnection_def Let_def rbind_eq_Inr_iff)
    let ?h2 = "?g\<lparr>hub_mem := cmem w1, hub_user := user w1\<rparr>"
    obtain f d where d: "polite f" "f ?d = Inr d" "stands_for ?h2 d" using refused_sim [OF g r w(1,2)] by blast
    have "auto_reconnect d = auto_reconnect (hub_client ?h2)"
      using d(3) same_client_fields(5) unfolding stands_for_def by (fastforce simp: hub_client_refreshed)
    moreover have "TCPClient_newConnection f ec ?c = Inr (if auto_reconnect d then d\<lparr>events := events d @ [ReconnectTimer]\<rparr> else d)"
      using d(2) False by (simp add: TCPClient_newConnection_def)
    ultimately show ?thesis using step [OF d(1)] d(3) stands_fields(3) [OF d(3)] unfolding w(3) Let_def by (auto split: if_splits)
  qed
qed

lemma owner_event_sim:
  assumes h: "stands_for h c" and step: "owner_event C h (Inr h')"
  shows "\<exists>d. user_step c (Inr d) \<and> stands_for h' d"
  using step
proof (cases rule: owner_event.cases)
  case (connected eps ec)
  then show ?thesis using connected_sim [OF h connected(2-4)] by metis
next
  case timer
  note t = taken_sim [OF h timer(2)]
  have "stands_for h' (reconnect (taken_event ReconnectTimer c))"
    using stands_operation [OF t(2), of reconnect] t(3) timer(1) same_connect by (simp add: reconnect_def)
  moreover have "client_step Inr c (Inr (reconnect (taken_event ReconnectTimer c)))" using t(1) by (intro client_step.timer) simp
  ultimately show ?thesis using user_step.event [OF polite_Inr] by blast
next
  case (moved i w r)
  then obtain w' where "r = Inr w'" "h' = put_peer i w' h" by (auto simp: Inr_eq_rbind_iff)
  then show ?thesis using owner_moved_sim [OF h moved(2)] moved(3) by blast
next
  case api_disconnect
  then show ?thesis using disconnect_sim [OF h, of h'] user_step.calls [OF client_calls.call_disconnect [OF client_calls.nothing]] by metis
next
  case (api_auto v)
  have "stands_for (on_hub (setAutoReconnect v) h) (setAutoReconnect v c)"
    by (rule stands_change [OF h same_auto]) (simp_all add: setAutoReconnect_def)
  then show ?thesis using api_auto user_step.calls [OF client_calls.call_auto [OF client_calls.nothing]] by auto
qed

lemma owner_step_sim:
  assumes h: "stands_for h c" and step: "owner_step C h (Inr h')"
  shows "\<exists>d. user_step c (Inr d) \<and> stands_for h' d"
proof -
  have "user_step c (Inr (connect c))" by (intro user_step.calls client_calls.call_connect client_calls.nothing)
  moreover have "stands_for (on_hub connect (refreshed h)) (connect c)" using stands_operation [OF h, of connect] same_connect by simp
  ultimately show ?thesis using step owner_event_sim [OF h] unfolding owner_step_iff by blast
qed

end

lemma owner_start_stands:
  assumes "owner_start h"
  shows "\<exists>c. client_start c \<and> stands_for h c"
proof -
  obtain name i sts where c: "hub_client h = TCPClient_new name i sts" and p: "peers h = (\<lambda>_. None)"
    using assms by (auto simp: owner_start_def client_start_def)
  have s: "peer_statuses h = (\<lambda>_. kDisconnected)" "peer_closes h = (\<lambda>_. 0)" "peer_world j h = None" for j
    using p by (simp_all add: fun_eq_iff peer_statuses_def peer_status_def peer_closes_def peer_world_def)
  have "seen_events [] (\<lambda>_. 0) e = 0" for e by (cases e) simp_all
  then have "stands_for h (TCPClient_new name i (\<lambda>_. kDisconnected))"
    using c p s by (simp add: stands_for_def owner_ok_def hub_client_refreshed same_client_def TCPClient_new_def)
  then show ?thesis unfolding client_start_def by blast
qed

sublocale client_owner < owner: forward_simulation owner_start "owner_step C" client_start user_step stands_for
proof (rule forward_simulation.intro)
  show "\<exists>d. (\<lambda>a b. user_step a (Inr b))\<^sup>*\<^sup>* c d \<and> stands_for h' d" if "stands_for h c" "owner_step C h (Inr h')" for c h h'
    using owner_step_sim [OF that] by (auto intro: r_into_rtranclp)
qed (rule owner_start_stands)

end
