(* ===== verification/Client_Plain.thy ===== *)
theory Client_Plain
  imports Client_Run
begin

text \<open>
  Users of a client whose callbacks know only connections, and what holds of the client with its connections: for every
  user that it has one attempt at a time and does not give up, and for these users that it has one connection
  at a time.
\<close>

section \<open>Users that know only connections\<close>

text \<open>A callback over the user's own state, given to a connection of a client.\<close>

definition owner_part :: "'v owner world \<Rightarrow> 'v world" where
  "owner_part w = \<lparr>conn = conn w, cmem = cmem w, pending = pending w, calls = calls w, user = snd (user w)\<rparr>"

definition owned_by :: "tcp_client \<Rightarrow> 'v world \<Rightarrow> 'v owner world" where
  "owned_by c w = \<lparr>conn = conn w, cmem = cmem w, pending = pending w, calls = calls w, user = (c, user w)\<rparr>"

definition plain_callback :: "'v callback \<Rightarrow> 'v owner callback" where
  "plain_callback f w = rbind (f (owner_part w)) (\<lambda>t. Inr (owned_by (fst (user w)) t))"

definition plain_callbacks :: "'v client_callbacks \<Rightarrow> 'v owner client_callbacks" where
  "plain_callbacks c = \<lparr>client_connection_cb = map_option plain_callback (client_connection_cb c),
     client_message_cb = map_option plain_callback (client_message_cb c)\<rparr>"

lemma owned_by_part [simp]: "owned_by (fst (user w)) (owner_part w) = w"
  by (cases w) (simp add: owned_by_def owner_part_def)

lemma owned_by_sel [simp]:
  "conn (owned_by c w) = conn w" "cmem (owned_by c w) = cmem w" "user (owned_by c w) = (c, user w)"
  by (simp_all add: owned_by_def)

lemma owned_by_upd [simp]:
  "upd_conn f (owned_by c w) = owned_by c (upd_conn f w)" "(owned_by c w)\<lparr>cmem := m\<rparr> = owned_by c (w\<lparr>cmem := m\<rparr>)"
  "request r (owned_by c w) = owned_by c (request r w)" "(owned_by c w)\<lparr>user := (c, u)\<rparr> = owned_by c (w\<lparr>user := u\<rparr>)"
  by (simp_all add: owned_by_def upd_conn_def request_def)

text \<open>The interface of a connection does not look at the user's state.\<close>

lemma async_send_owned: "async_send p (owned_by c s) = rbind (async_send p s) (\<lambda>t. Inr (owned_by c t))"
  by (simp add: async_send_def rbind_def split: option.splits sum.splits)

lemma sendInLoop_owned: "sendInLoop p (owned_by c s) = rbind (sendInLoop p s) (\<lambda>t. Inr (owned_by c t))"
  by (simp add: sendInLoop_def Let_def async_send_owned rbind_def split: sum.splits prod.splits)

lemma send_owned: "TCPConn_send in_loop d (owned_by c s) = rbind (TCPConn_send in_loop d s) (\<lambda>t. Inr (owned_by c t))"
  by (simp add: TCPConn_send_def Buffer_moveToQueueHead_def Let_def sendInLoop_owned rbind_def split: sum.splits prod.splits)

lemma send_buffer_owned: "TCPConn_send_buffer in_loop b (owned_by c s) = rbind (TCPConn_send_buffer in_loop b s) (\<lambda>(b', t). Inr (b', owned_by c t))"
  by (simp add: TCPConn_send_buffer_def Let_def sendInLoop_owned rbind_def split: sum.splits prod.splits)

lemma api_calls_owned: "api_calls s t \<Longrightarrow> owner_calls i (owned_by c s) (owned_by c t)"
proof (induction rule: api_calls.induct)
  case (own_state s t b u m)
  then show ?case using owner_calls.own_state [of i "owned_by c s" "owned_by c t" b u m] by simp
next
  case (send s t in_loop d t')
  then have "TCPConn_send in_loop d (owned_by c t) = Inr (owned_by c t')" by (simp add: send_owned)
  then show ?case by (rule owner_calls.send [OF send.IH])
next
  case (send_buffer s t in_loop b b' t')
  then have "TCPConn_send_buffer in_loop b (owned_by c t) = Inr (b', owned_by c t')" by (simp add: send_buffer_owned)
  then show ?case by (rule owner_calls.send_buffer [OF send_buffer.IH])
next
  case (close s t)
  have "owned_by c (TCPConn_close t) = TCPConn_close (owned_by c t)" by (simp add: TCPConn_close_def)
  then show ?case using owner_calls.close [OF close.IH] by simp
next
  case (close_delay s t)
  have "owned_by c (closeWithDelay t) = closeWithDelay (owned_by c t)" by (simp add: closeWithDelay_def)
  then show ?case using owner_calls.close_delay [OF close_delay.IH] by simp
qed (rule owner_calls.nothing)

lemma plain_callback_calls:
  assumes "\<And>s t. f s = Inr t \<Longrightarrow> api_calls s t" and "plain_callback f w = Inr t"
  shows "owner_calls i w t" "fst (user t) = fst (user w)"
  using assms api_calls_owned [of "owner_part w" _ i "fst (user w)"] by (auto simp: plain_callback_def rbind_eq_Inr_iff)

text \<open>The contract of such a user, and that it is one of the contracts of theory \<open>Client_Site\<close>.\<close>

definition plain_callbacks_ok :: "'v client_callbacks \<Rightarrow> bool" where
  "plain_callbacks_ok U \<longleftrightarrow> (\<forall>f s t. (client_connection_cb U = Some f \<or> client_message_cb U = Some f) \<and> f s = Inr t \<longrightarrow> api_calls s t)"

locale plain_user =
  fixes U :: "'v client_callbacks"
  assumes plain_ok: "plain_callbacks_ok U"
begin

lemma plain_connection: "client_connection_cb U = Some f \<Longrightarrow> f s = Inr t \<Longrightarrow> api_calls s t"
  and plain_message: "client_message_cb U = Some f \<Longrightarrow> f s = Inr t \<Longrightarrow> api_calls s t"
  using plain_ok unfolding plain_callbacks_ok_def by blast+

abbreviation C :: "uint64 \<Rightarrow> 'v owner client_callbacks" where
  "C \<equiv> \<lambda>_. plain_callbacks U"

lemma plain_calls:
  assumes "call_function (client_connection_cb (plain_callbacks U)) s = Inr t \<or> call_function (client_message_cb (plain_callbacks U)) s = Inr t"
  shows "owner_calls i s t" "fst (user t) = fst (user s)"
  using assms plain_callback_calls plain_connection plain_message
  by (auto simp: call_function_def plain_callbacks_def split: option.splits) (metis plain_callback_calls plain_connection plain_message)+

end

sublocale plain_user < client_owner C
  by unfold_locales (use plain_calls(1) in \<open>auto simp: owner_callbacks_ok_def call_function_def\<close>)

section \<open>One connection at a time\<close>

definition one_at_a_time :: "'v owner hub \<Rightarrow> bool" where
  "one_at_a_time h \<longleftrightarrow> count_list (events (hub_client h)) AsyncConnect + count_list (events (hub_client h)) ReconnectTimer
       + (if conn_ptr (hub_client h) = None then 0 else 1) \<le> 1
     \<and> (\<forall>i. (peer_statuses h i \<noteq> kDisconnected) = (conn_ptr (hub_client h) = Some i))"

lemma one_live: "one_at_a_time h \<Longrightarrow> (peer_statuses h i \<noteq> kDisconnected) = (conn_ptr (hub_client h) = Some i)"
  unfolding one_at_a_time_def by blast

lemma one_kept:
  assumes "one_at_a_time h" and "events (hub_client h') = events (hub_client h)" "conn_ptr (hub_client h') = conn_ptr (hub_client h)"
    and "\<And>i. (peer_statuses h' i = kDisconnected) = (peer_statuses h i = kDisconnected)"
  shows "one_at_a_time h'"
  using assms unfolding one_at_a_time_def by simp

text \<open>The user has called \<open>connect\<close> once, on a new client.\<close>

definition connecting_start :: "'v owner hub \<Rightarrow> bool" where
  "connecting_start h \<longleftrightarrow> (\<exists>g. owner_start g \<and> h = on_hub connect (refreshed g))"

lemma connecting_start_one: "connecting_start h \<Longrightarrow> one_at_a_time h"
  by (auto simp: connecting_start_def one_at_a_time_def owner_start_def client_start_def hub_client_refreshed TCPClient_new_def connect_def
      ptr_status_def peer_on_hub peer_statuses_def peer_status_def peer_world_def refreshed_def)

text \<open>\<open>removeConnection\<close> and \<open>connect\<close> on a client with nothing else under way.\<close>

lemma connect_counts:
  "count_list (events (connect c)) AsyncConnect \<le> Suc (count_list (events c) AsyncConnect)"
  "count_list (events (connect c)) ReconnectTimer = count_list (events c) ReconnectTimer" "conn_ptr (connect c) = conn_ptr c"
  by (simp_all add: connect_def)

lemma removed_counts:
  assumes "TCPClient_removeConnection i c = Inr d"
  shows "conn_ptr c = Some i" "conn_ptr d = None" "count_list (events d) AsyncConnect \<le> Suc (count_list (events c) AsyncConnect)"
    "count_list (events d) ReconnectTimer = count_list (events c) ReconnectTimer"
  using assms connect_counts [of "c\<lparr>conn_ptr := None\<rparr>"]
  by (auto simp: TCPClient_removeConnection_def Let_def reconnect_def rbind_eq_Inr_iff cassert_def split: if_splits)

lemma disconnect_one:
  assumes h: "one_at_a_time h" and run: "owner_disconnect (refreshed h) = Inr h'"
  shows "one_at_a_time h'"
proof -
  define g where "g = on_hub (setAutoReconnect False) (refreshed h)"
  have g: "one_at_a_time g"
    by (rule one_kept [OF h]) (simp_all add: g_def peer_on_hub setAutoReconnect_def hub_client_refreshed, simp add: refreshed_def peer_on_hub)
  show ?thesis
  proof (cases "conn_ptr (hub_client g)")
    case None
    then have "h' = g" using run by (simp add: owner_disconnect_def g_def)
    then show ?thesis using g by simp
  next
    case (Some i)
    then obtain w where w: "peer_world i g = Some w" "\<not> isDisconnected (conn w)" "h' = put_peer i (TCPConn_close w) g"
      using run by (auto simp: owner_disconnect_def g_def Let_def rbind_eq_Inr_iff cassert_def split: option.splits if_splits)
    have "peer_statuses g i = status (conn w)" "hub_user g = user w" using w(1) by (auto simp: peer_statuses_def peer_status_def peer_world_def)
    then show ?thesis using w(2)
      by (intro one_kept [OF g]) (simp_all add: w(3) hub_client_def isDisconnected_def TCPConn_close_def)
  qed
qed

context plain_user
begin

lemma plain_kept:
  "connection_cb (owned_callbacks C i) s = Inr t \<Longrightarrow> fst (user t) = fst (user s)" "message_cb (owned_callbacks C i) s = Inr t \<Longrightarrow> fst (user t) = fst (user s)"
  by (rule plain_calls(2), simp add: owned_callbacks_def TCPClient_conn_callbacks_def)+

lemma plain_moved:
  assumes "conn_step (owned_callbacks C i) w (Inr w')"
  shows "fst (user w') = fst (user w) \<and> (status (conn w') = kDisconnected) = (status (conn w) = kDisconnected)
    \<or> status (conn w) \<noteq> kDisconnected \<and> status (conn w') = kDisconnected
      \<and> (\<exists>f. TCPClient_removeConnection i ((fst (user w))\<lparr>statuses := f\<rparr>) = Inr (fst (user w')))"
  using conn_step_parts [OF assms refl]
proof (elim disjE)
  assume "closing_from (owned_callbacks C i) w w'"
  then obtain u where u: "handleClose (owned_callbacks C i) u = Inr w'" "user u = user w" "status (conn w) \<noteq> kDisconnected"
    unfolding closing_from_def by force
  obtain s1 s2 s3 where p: "user s1 = user u" "connection_cb (owned_callbacks C i) s1 = Inr s2"
    "close_cb (owned_callbacks C i) (s2\<lparr>calls := calls s2 @ [CloseCb]\<rparr>) = Inr s3" "w' = upd_conn (status_update (\<lambda>_. kDisconnected)) s3"
    by (rule handleClose_parts [OF u(1)]) blast
  have "fst (user s2) = fst (user w)" using plain_kept(1) [OF p(2)] p(1) u(2) by simp
  then show ?thesis using p(3,4) u(3)
    by (auto simp: owned_callbacks_def TCPClient_conn_callbacks_def removed_from_def rbind_eq_Inr_iff client_view_def)
next
  assume "message_from (owned_callbacks C i) w w'"
  then obtain u v where m: "same_view w u" "message_cb (owned_callbacks C i) u = Inr v" "same_view v w'" unfolding message_from_def by blast
  have "fst (user v) = fst (user u)" by (rule plain_kept(2) [OF m(2)])
  moreover have "public_effect u v" using api_calls_effect [OF owner_calls_api [OF owned_calls(2) [OF m(2)]]] .
  ultimately show ?thesis using m(1,3) by (auto simp: same_view_def public_effect_def)
qed (auto simp: same_view_def TCPConn_close_def closeWithDelay_def)

lemma moved_one:
  assumes h: "one_at_a_time h" and w: "peer_world i (refreshed h) = Some w" and step: "conn_step (owned_callbacks C i) w (Inr w')"
  shows "one_at_a_time (put_peer i w' h)"
proof -
  have "peers (refreshed h) = peers h" by (simp add: refreshed_def)
  then obtain v where v: "peer_world i h = Some v" "w = v\<lparr>cmem := hub_mem (refreshed h), user := hub_user (refreshed h)\<rparr>"
    using w by (rule peer_world_same)
  have st: "peer_statuses h i = status (conn w)" using v by (simp add: peer_statuses_def peer_status_def)
  have c: "fst (user w) = (hub_client h)\<lparr>statuses := peer_statuses h\<rparr>" using v(2) hub_client_refreshed [of h] by (simp add: hub_client_def)
  have c': "hub_client (put_peer i w' h) = fst (user w')" by (simp add: hub_client_def)
  show ?thesis using plain_moved [OF step]
  proof (elim disjE conjE exE)
    assume e: "fst (user w') = fst (user w)" "(status (conn w') = kDisconnected) = (status (conn w) = kDisconnected)"
    show ?thesis by (rule one_kept [OF h]) (use e st c c' in simp_all)
  next
    fix f assume l: "status (conn w) \<noteq> kDisconnected" "status (conn w') = kDisconnected"
      and r: "TCPClient_removeConnection i ((fst (user w))\<lparr>statuses := f\<rparr>) = Inr (fst (user w'))"
    have i: "conn_ptr (hub_client h) = Some i" "\<And>j. j \<noteq> i \<Longrightarrow> peer_statuses h j = kDisconnected" using one_live [OF h] l(1) st by (metis option.inject)+
    then have "peer_statuses (put_peer i w' h) j = kDisconnected" for j using l(2) by simp
    then show ?thesis using removed_counts [OF r] h i(1) unfolding one_at_a_time_def c' c by simp
  qed
qed

lemma new_one:
  assumes h: "one_at_a_time h" and e: "AsyncConnect \<in> set (events (hub_client h))"
    and run: "owner_newConnection C eps ec (on_hub (taken_event AsyncConnect) (refreshed h)) = Inr h'"
  shows "one_at_a_time h'"
proof -
  define g where "g = on_hub (is_connecting_update (\<lambda>_. False)) (on_hub (taken_event AsyncConnect) (refreshed h))"
  have "0 < count_list (events (hub_client h)) AsyncConnect" using e by (metis count_list_0_iff gr0I)
  then have n: "conn_ptr (hub_client h) = None" "count_list (events (hub_client h)) AsyncConnect = 1" "count_list (events (hub_client h)) ReconnectTimer = 0"
    using h unfolding one_at_a_time_def by (auto split: if_splits)
  then have st: "peer_statuses h j = kDisconnected" for j using one_live [OF h, of j] by simp
  have g: "conn_ptr (hub_client g) = None" "count_list (events (hub_client g)) AsyncConnect = 0" "count_list (events (hub_client g)) ReconnectTimer = 0"
    "\<And>j. peer_statuses g j = kDisconnected"
    using n st count_taken [OF e] by (simp_all add: g_def peer_on_hub hub_client_refreshed taken_event_def) (simp_all add: refreshed_def peer_on_hub)
  show ?thesis
  proof (cases "ec = Success")
    case True
    let ?i = "id_counter (hub_client g)"
    let ?h = "on_hub (id_counter_update (\<lambda>_. ?i + 1)) g"
    obtain w where w: "connectEstablished (owned_callbacks C ?i) (new_peer ?i eps ?h) = Inr w" "h' = on_hub (conn_ptr_update (\<lambda>_. Some ?i)) (put_peer ?i w ?h)"
      using run True by (auto simp: owner_newConnection_def Let_def rbind_eq_Inr_iff g_def)
    obtain s1 s2 where p: "user s1 = hub_user ?h" "connection_cb (owned_callbacks C ?i) s1 = Inr s2" "unmoved s2 w"
      by (rule connectEstablished_parts [OF w(1)]) (simp add: new_peer_def)
    have c: "hub_client (put_peer ?i w ?h) = hub_client ?h" using plain_kept(1) [OF p(2)] p(1,3) by (simp add: hub_client_def unmoved_def)
    have "status (conn w) \<noteq> kDisconnected" using connectEstablished_effect(1) [OF owned_ok w(1)] by auto
    then show ?thesis using g unfolding w(2) one_at_a_time_def by (simp add: c peer_on_hub)
  next
    case False
    obtain w w1 where w: "call_function (client_connection_cb (plain_callbacks U)) (new_peer 0 eps g) = Inr w" "TCPConn_delete w = Inr w1"
      "h' = (let h2 = g\<lparr>hub_mem := cmem w1, hub_user := user w1\<rparr> in
        if auto_reconnect (hub_client h2) then on_hub (\<lambda>c. c\<lparr>events := events c @ [ReconnectTimer]\<rparr>) h2 else h2)"
      using run False by (auto simp: owner_newConnection_def Let_def rbind_eq_Inr_iff g_def)
    let ?h2 = "g\<lparr>hub_mem := cmem w1, hub_user := user w1\<rparr>"
    have "user w1 = user w" using w(2) by (auto simp: TCPConn_delete_def rbind_eq_Inr_iff)
    then have c: "hub_client ?h2 = hub_client g" using plain_calls(2) [OF disjI1 [OF w(1)]] by (simp add: hub_client_def new_peer_def)
    have "peer_statuses ?h2 = peer_statuses g" using peer_same [of ?h2 g] by (simp add: peer_statuses_def fun_eq_iff)
    then show ?thesis using g unfolding w(3) Let_def one_at_a_time_def by (simp add: c peer_on_hub)
  qed
qed

lemma event_one:
  assumes h: "one_at_a_time h" and step: "owner_event C h (Inr h')"
  shows "one_at_a_time h'"
  using step
proof (cases rule: owner_event.cases)
  case (connected eps ec)
  then show ?thesis using new_one [OF h connected(2), of eps ec h'] by simp
next
  case timer
  have "0 < count_list (events (hub_client h)) ReconnectTimer" using timer(2) by (metis count_list_0_iff gr0I)
  then have "conn_ptr (hub_client h) = None" "count_list (events (hub_client h)) ReconnectTimer = 1" "count_list (events (hub_client h)) AsyncConnect = 0"
    using h unfolding one_at_a_time_def by (auto split: if_splits)
  then show ?thesis using h count_taken [OF timer(2)] connect_counts [of "taken_event ReconnectTimer (hub_client (refreshed h))"]
    unfolding timer(1) one_at_a_time_def by (simp add: reconnect_def peer_on_hub hub_client_refreshed taken_event_def) (simp add: refreshed_def peer_on_hub)
next
  case (moved i w r)
  then obtain w' where "r = Inr w'" "h' = put_peer i w' h" by (auto simp: Inr_eq_rbind_iff)
  then show ?thesis using moved_one [OF h moved(2)] moved(3) by blast
next
  case api_disconnect
  then show ?thesis by (intro disconnect_one [OF h]) simp
next
  case (api_auto v)
  show ?thesis by (rule one_kept [OF h]) (simp_all add: api_auto peer_on_hub setAutoReconnect_def)
qed

end

sublocale plain_user < one: inductive_invariant connecting_start "owner_event C" one_at_a_time
  by unfold_locales (auto intro: connecting_start_one event_one)

context plain_user
begin

lemma one_run: "reach connecting_start (owner_event C) h \<Longrightarrow> one_at_a_time h"
  by (rule one.reach_inv)

end

section \<open>Properties\<close>

context client_owner
begin

lemma refines: "owner_run C h \<Longrightarrow> \<exists>c. reach client_start user_step c \<and> stands_for h c"
  by (rule owner.reach_matches)

lemma keeps_connecting:
  assumes "(\<lambda>g g'. owner_step C g (Inr g') \<and> auto_reconnect (hub_client g'))\<^sup>*\<^sup>* g h" and "stands_for g c" and "client_inv c" and "pursuing c"
  shows "\<exists>d. stands_for h d \<and> client_inv d \<and> pursuing d"
  using assms
proof (induction rule: rtranclp_induct)
  case (step h h')
  then obtain d where d: "stands_for h d" "client_inv d" "pursuing d" by blast
  obtain e where e: "user_step d (Inr e)" "stands_for h' e" using owner_step_sim [OF d(1)] step.hyps(2) by blast
  have "auto_reconnect e = auto_reconnect (hub_client h')"
    using e(2) same_client_fields(5) unfolding stands_for_def by (fastforce simp: hub_client_refreshed)
  then show ?case using e user_step_inv [OF d(2) e(1)] user_step_pursues [OF d(2,3) e(1)] step.hyps(2) by blast
qed blast

end

text \<open>
  C6. The client with its real connections refines the client alone: every reachable state of the composition, with all handlers of all
  \<open>TCPConn\<close> objects and with callbacks that use the interfaces of connection and client, is matched by a reachable state of
  the client's own model, in which the statuses are those of the objects and the events have their close tasks and timers. At most one
  \<open>async_connect\<close> is in flight, exactly when \<open>is_connecting_\<close> is set, and every object has the invariant of connections.
\<close>

theorem owner_refines_client:
  assumes "owner_callbacks_ok C" and "owner_run C h"
  shows "\<exists>c. reach client_start user_step c \<and> conn_ptr c = conn_ptr (hub_client h) \<and> auto_reconnect c = auto_reconnect (hub_client h)
    \<and> statuses c = peer_statuses h \<and> (\<forall>i. count_list (events c) (CloseConnTask i) = peer_closes h i)
    \<and> count_list (events (hub_client h)) AsyncConnect = (if is_connecting (hub_client h) then 1 else 0)
    \<and> (\<forall>i w. peer_world i h = Some w \<longrightarrow> conn_inv w)"
proof -
  have "client_owner C" using assms(1) by (rule client_owner.intro)
  then obtain c where c: "reach client_start user_step c" "stands_for h c" using client_owner.refines [OF _ assms(2)] by blast
  then have same: "same_client ((hub_client h)\<lparr>statuses := peer_statuses h\<rparr>) (peer_closes h) c" by (simp add: stands_for_def hub_client_refreshed)
  have n: "count_list (events c) e = seen_events (events (hub_client h)) (peer_closes h) e" for e using same by (simp add: same_client_def)
  have "count_list (events (hub_client h)) AsyncConnect = (if is_connecting (hub_client h) then 1 else 0)"
    using any_user.reach_inv [OF c(1)] n [of AsyncConnect] same_client_fields(3) [OF same]
    by (simp add: client_inv_def connects_def count_list_eq_length_filter)
  then show ?thesis using c n same_client_fields [OF same] by (intro exI [of _ c]) (simp add: stands_for_def owner_ok_def)
qed

text \<open>A client without any callback work, new, connecting and connected.\<close>

definition idle_client :: "unit client_callbacks" where
  "idle_client = \<lparr>client_connection_cb = Some Inr, client_message_cb = Some Inr\<rparr>"

abbreviation idle_owner :: "uint64 \<Rightarrow> unit owner client_callbacks" where
  "idle_owner \<equiv> \<lambda>_. plain_callbacks idle_client"

interpretation idle_plain: plain_user idle_client
  by unfold_locales (auto simp: plain_callbacks_ok_def idle_client_def intro: api_calls.nothing)

definition idle_hub :: "unit owner hub" where
  "idle_hub = \<lparr>peers = (\<lambda>_. None), hub_mem = mem_start, hub_user = (TCPClient_new ''c'' 1 (\<lambda>_. kDisconnected), ())\<rparr>"

lemma idle_hub_start: "owner_start idle_hub" "connecting_start (on_hub connect (refreshed idle_hub))"
proof -
  show "owner_start idle_hub" by (auto simp: owner_start_def client_start_def idle_hub_def hub_client_def)
  then show "connecting_start (on_hub connect (refreshed idle_hub))" unfolding connecting_start_def by blast
qed

lemma idle_established:
  assumes "cmem s = mem_start" and "socket (conn s) \<noteq> None"
  shows "\<exists>w. connectEstablished (owned_callbacks idle_owner i) s = Inr w \<and> user w = user s"
proof -
  have cb: "connection_cb (owned_callbacks idle_owner i) w = Inr w" for w
    by (simp add: owned_callbacks_def TCPClient_conn_callbacks_def plain_callbacks_def idle_client_def call_function_def plain_callback_def)
  obtain p m c where "newPiece mem_start = Inr (Some p, m)" "cells m p = Some c" using newPiece_ok [OF mem_inv_start] by blast
  then show ?thesis using assms by (auto simp: connectEstablished_def call_def cb launchRead_def mem_simps)
qed

lemma idle_connected:
  "\<exists>h. owner_event idle_owner (on_hub connect (refreshed idle_hub)) (Inr h) \<and> conn_ptr (hub_client h) = Some 1 \<and> auto_reconnect (hub_client h)"
proof -
  let ?h = "on_hub connect (refreshed idle_hub)"
  define g where "g = on_hub (is_connecting_update (\<lambda>_. False)) (on_hub (taken_event AsyncConnect) (refreshed ?h))"
  have c: "events (hub_client ?h) = [AsyncConnect]" "id_counter (hub_client ?h) = 1" "auto_reconnect (hub_client ?h)" "peers ?h 1 = None" "hub_mem ?h = mem_start"
    by (simp_all add: hub_client_refreshed connect_def ptr_status_def)
      (simp_all add: idle_hub_def hub_client_def TCPClient_new_def refreshed_def peer_statuses_def on_hub_def)
  then have g: "id_counter (hub_client g) = 1" "auto_reconnect (hub_client g)" "hub_mem g = mem_start"
    by (simp_all add: g_def hub_client_refreshed taken_event_def) (simp add: refreshed_def on_hub_def)
  let ?g = "on_hub (id_counter_update (\<lambda>_. 2)) g"
  obtain w where w: "connectEstablished (owned_callbacks idle_owner 1) (new_peer 1 (7, 8) ?g) = Inr w" "user w = hub_user ?g"
    using idle_established [of "new_peer 1 (7, 8) ?g" 1] g(3) by (auto simp: new_peer_def TCPConn_new_def on_hub_def)
  let ?h' = "on_hub (conn_ptr_update (\<lambda>_. Some 1)) (put_peer 1 w ?g)"
  have "owner_newConnection idle_owner (7, 8) Success (on_hub (taken_event AsyncConnect) (refreshed ?h)) = Inr ?h'"
    using w(1) g(1) unfolding owner_newConnection_def Let_def g_def [symmetric] by simp
  then have "owner_event idle_owner ?h (Inr ?h')"
    using owner_event.connected [of ?h idle_owner "(7, 8)" Success] c by simp
  moreover have "auto_reconnect (hub_client ?h')" using w(2) g(2) by (simp add: hub_client_def on_hub_def)
  ultimately show ?thesis by (intro exI [of _ ?h']) simp
qed

lemma idle_run:
  "\<exists>h. owner_run idle_owner h \<and> reach connecting_start (owner_event idle_owner) h \<and> conn_ptr (hub_client h) = Some 1
    \<and> owner_step idle_owner (on_hub connect (refreshed idle_hub)) (Inr h) \<and> auto_reconnect (hub_client h)"
proof -
  obtain h where h: "owner_event idle_owner (on_hub connect (refreshed idle_hub)) (Inr h)" "conn_ptr (hub_client h) = Some 1" "auto_reconnect (hub_client h)"
    using idle_connected by blast
  have "owner_run idle_owner (on_hub connect (refreshed idle_hub))"
    using reach.init [of owner_start, OF idle_hub_start(1)] owner_step.api_connect by (rule reach.step)
  then have "owner_run idle_owner h" using owner_step.happens [OF h(1)] by (rule reach.step)
  moreover have "reach connecting_start (owner_event idle_owner) h"
    using reach.init [of connecting_start, OF idle_hub_start(2)] h(1) by (rule reach.step)
  ultimately show ?thesis using h owner_step.happens by blast
qed

theorem owner_refines_client_witness:
  "\<exists>h c. owner_run idle_owner h \<and> reach client_start user_step c \<and> conn_ptr c = Some 1 \<and> statuses c = peer_statuses h"
proof -
  obtain h where h: "owner_run idle_owner h" "conn_ptr (hub_client h) = Some 1" using idle_run by blast
  show ?thesis using owner_refines_client [OF idle_plain.calls_ok h(1)] h by auto
qed

text \<open>
  C14. A client that has been told to connect never gives up while \<open>auto_reconnect_\<close> is set, also with its real connections: from
  \<open>connect\<close> on, whatever its connections, its timers and its user do, an attempt or the timer of the next one is pending, or the
  \<open>TCPConn\<close> object of the client is connected, or is closing with its close task or timer pending.
\<close>

theorem owner_keeps_connecting:
  assumes "owner_callbacks_ok C" and "owner_run C g"
    and "(\<lambda>g g'. owner_step C g (Inr g') \<and> auto_reconnect (hub_client g'))\<^sup>*\<^sup>* (on_hub connect (refreshed g)) h"
  shows "AsyncConnect \<in> set (events (hub_client h)) \<or> ReconnectTimer \<in> set (events (hub_client h))
    \<or> (\<exists>i w. conn_ptr (hub_client h) = Some i \<and> peer_world i h = Some w \<and> (isConnected (conn w) \<or> isDisconnecting (conn w) \<and> 0 < close_tasks w))"
proof -
  have o: "client_owner C" using assms(1) by (rule client_owner.intro)
  then obtain c where c: "reach client_start user_step c" "stands_for g c" using client_owner.refines [OF _ assms(2)] by blast
  have inv: "client_inv c" by (rule any_user.reach_inv [OF c(1)])
  have "stands_for (on_hub connect (refreshed g)) (connect c)" using stands_operation [OF c(2), of connect] same_connect by simp
  then obtain d where d: "stands_for h d" "pursuing d"
    using client_owner.keeps_connecting [OF o assms(3) _ connect_inv [OF inv] connect_pursues [OF inv]] by blast
  have same: "same_client ((hub_client h)\<lparr>statuses := peer_statuses h\<rparr>) (peer_closes h) d" using d(1) by (simp add: stands_for_def hub_client_refreshed)
  have n: "e \<in> set (events d) \<longleftrightarrow> seen_events (events (hub_client h)) (peer_closes h) e \<noteq> 0" for e
    using same count_list_0_iff [of "events d" e] by (simp add: same_client_def)
  have k: "conn_ptr d = conn_ptr (hub_client h)" "statuses d = peer_statuses h" using same_client_fields [OF same] by simp_all
  have "AsyncConnect \<in> set (events d) \<longleftrightarrow> AsyncConnect \<in> set (events (hub_client h))" "ReconnectTimer \<in> set (events d) \<longleftrightarrow> ReconnectTimer \<in> set (events (hub_client h))"
    unfolding n by (simp_all add: count_list_0_iff)
  moreover have "\<exists>w. peer_world i h = Some w \<and> (isConnected (conn w) \<or> isDisconnecting (conn w) \<and> 0 < close_tasks w)" if "Tcp_Client.live d i" for i
    using that unfolding Tcp_Client.live_def n k
    by (auto simp: peer_statuses_def peer_status_def peer_closes_def isConnected_def isDisconnecting_def split: option.splits)
  ultimately show ?thesis using d(2) unfolding pursuing_def k by blast
qed

theorem owner_keeps_connecting_witness:
  "\<exists>h. owner_run idle_owner h \<and> conn_ptr (hub_client h) = Some 1
    \<and> (AsyncConnect \<in> set (events (hub_client h)) \<or> ReconnectTimer \<in> set (events (hub_client h))
      \<or> (\<exists>i w. conn_ptr (hub_client h) = Some i \<and> peer_world i h = Some w \<and> (isConnected (conn w) \<or> isDisconnecting (conn w) \<and> 0 < close_tasks w)))"
proof -
  obtain h where h: "owner_run idle_owner h" "conn_ptr (hub_client h) = Some 1" "owner_step idle_owner (on_hub connect (refreshed idle_hub)) (Inr h)"
    "auto_reconnect (hub_client h)"
    using idle_run by blast
  have start: "owner_run idle_owner idle_hub" using idle_hub_start(1) by (rule reach.init)
  have "(\<lambda>g g'. owner_step idle_owner g (Inr g') \<and> auto_reconnect (hub_client g'))\<^sup>*\<^sup>* (on_hub connect (refreshed idle_hub)) h"
    using h(3,4) by (intro r_into_rtranclp) simp
  from owner_keeps_connecting [OF idle_plain.calls_ok start this] show ?thesis using h(1,2) by blast
qed

text \<open>
  C15. A client whose user calls \<open>connect\<close> once, and whose callbacks use only the connection they get, has one connection at a
  time: in every state its pointer \<open>conn_\<close> is exactly the connection that is not yet disconnected, an attempt, a
  reconnect timer and a connection exclude each other, and the assertion of \<open>removeConnection\<close>, that the
  connection which closes is the client's own, never fails.
\<close>

theorem client_one_connection:
  assumes "plain_callbacks_ok U" and "reach connecting_start (owner_event (\<lambda>_. plain_callbacks U)) h"
  shows "(\<forall>i. (peer_statuses h i \<noteq> kDisconnected) = (conn_ptr (hub_client h) = Some i))
    \<and> count_list (events (hub_client h)) AsyncConnect + count_list (events (hub_client h)) ReconnectTimer
      + (if conn_ptr (hub_client h) = None then 0 else 1) \<le> 1
    \<and> (\<forall>i. peer_statuses h i \<noteq> kDisconnected \<longrightarrow> (\<exists>d. TCPClient_removeConnection i (hub_client h) = Inr d))"
proof -
  have "one_at_a_time h" using plain_user.one_run [OF plain_user.intro [OF assms(1)] assms(2)] .
  then show ?thesis unfolding one_at_a_time_def by (auto simp: TCPClient_removeConnection_def Let_def)
qed

theorem client_one_connection_witness:
  "\<exists>h. reach connecting_start (owner_event idle_owner) h \<and> conn_ptr (hub_client h) = Some 1 \<and> peer_statuses h 1 \<noteq> kDisconnected
    \<and> (\<exists>d. TCPClient_removeConnection 1 (hub_client h) = Inr d)"
proof -
  obtain h where h: "reach connecting_start (owner_event idle_owner) h" "conn_ptr (hub_client h) = Some 1" using idle_run by blast
  show ?thesis using client_one_connection [OF idle_plain.plain_ok h(1)] h by blast
qed

end
