(* ===== verification/Echo_Client.thy ===== *)
theory Echo_Client
  imports Echo_Run Client_Plain
begin

text \<open>
  The echo client on the client with its connections: its callbacks use only the connection they get, so one of its
  clients has one connection at a time, reconnects, and is counted while it has a connection.
\<close>

section \<open>The callbacks\<close>

lemma client_message_api:
  assumes "onProtobufMessage (pb_descriptor pb) (EchoClient_dispatcher n pb) (Some msg) s = Inr s'"
  shows "api_calls s s' \<and> client_connection_cnt (user s') = client_connection_cnt (user s)"
proof -
  have "f = EchoClient_onResponse pb" if "map_of (replicate n (response_descriptor pb, EchoClient_onResponse pb)) d = Some f" for f d
    using map_of_SomeD [OF that] by (auto split: if_splits)
  then consider "EchoClient_onResponse pb msg s = Inr s'" | "EchoClient_onUnknownMessage msg s = Inr s'"
    using assms by (auto simp: onProtobufMessage_def EchoClient_dispatcher_def register_all_callbacks ProtobufDispatcher_new_def
        CallbackT_onMessage_def map_add_def split: option.splits)
  then show ?thesis
  proof cases
    case 1
    then obtain f reply where r: "ProtobufCodec_send True (pb_api pb) reply (upd_user f s) = Inr s'" "\<And>u. client_connection_cnt (f u) = client_connection_cnt u"
      by (auto simp: EchoClient_onResponse_def Let_def next_request_def upd_user_def split: echo_message.splits)
    then show ?thesis using ProtobufCodec_send_user [OF r(1)] api_calls_trans [OF ProtobufCodec_send_api [OF r(1)] api_calls_own(3)]
      by (simp add: upd_user_def)
  next
    case 2
    then show ?thesis by (auto simp: EchoClient_onUnknownMessage_def intro: api_calls.close api_calls.nothing)
  qed
qed

interpretation client_api_relation: codec_relation "\<lambda>s s'. api_calls s s' \<and> client_connection_cnt (user s') = client_connection_cnt (user s)"
  "\<lambda>msg. onProtobufMessage (pb_descriptor pb) (EchoClient_dispatcher n pb) (Some msg)" "errorCallback (EchoClient_codec n pb)" for n pb
  by unfold_locales (auto intro: api_calls.nothing api_calls_trans api_calls_own simp: EchoClient_codec_def dest: default_error_api client_message_api)

lemma echo_client_message:
  assumes "client_message_cb (EchoClient_callbacks n pb) = Some f" and "f s = Inr t"
  shows "api_calls s t \<and> client_connection_cnt (user t) = client_connection_cnt (user s)"
  using assms client_api_relation.onMessage [of "pb_api pb" pb n s t]
  by (auto simp: EchoClient_callbacks_def TCPClient_setMessageCallback_def codec_onMessage_def EchoClient_codec_def ProtobufCodec_new_def)

text \<open>The connection callback: one more, one less, or a failed attempt, which does not count.\<close>

definition count_after :: "StateE \<Rightarrow> uint32 \<Rightarrow> uint32" where
  "count_after x n = (case x of kConnected \<Rightarrow> n + 1 | kDisconnecting \<Rightarrow> n - 1 | kDisconnected \<Rightarrow> n)"

lemma echo_client_connection:
  assumes "client_connection_cb (EchoClient_callbacks n pb) = Some f" and "f s = Inr t"
  shows "api_calls s t \<and> client_connection_cnt (user t) = count_after (status (conn s)) (client_connection_cnt (user s))"
proof -
  have f: "EchoClient_onConnectionCallback pb s = Inr t"
    using assms by (auto simp: EchoClient_callbacks_def TCPClient_setMessageCallback_def TCPClient_setConnectionCallback_def)
  show ?thesis
  proof (cases "status (conn s)")
    case kConnected
    obtain g msg where r: "ProtobufCodec_send True (pb_api pb) msg (upd_user g s) = Inr t" "\<And>u. client_connection_cnt (g u) = client_connection_cnt u + 1"
      using f kConnected by (auto simp: EchoClient_onConnectionCallback_def isConnected_def Let_def next_request_def upd_user_def)
    then show ?thesis using kConnected ProtobufCodec_send_user [OF r(1)] api_calls_trans [OF ProtobufCodec_send_api [OF r(1)] api_calls_own(3)]
      by (simp add: upd_user_def count_after_def)
  next
    case kDisconnecting
    then show ?thesis using f api_calls_own(3)
      by (auto simp: EchoClient_onConnectionCallback_def isConnected_def isDisconnecting_def count_after_def) (simp add: upd_user_def)
  next
    case kDisconnected
    then show ?thesis using f api_calls.nothing
      by (auto simp: EchoClient_onConnectionCallback_def isConnected_def isDisconnecting_def count_after_def)
  qed
qed

interpretation echo_plain: plain_user "EchoClient_callbacks n pb" for n pb
  by unfold_locales (use echo_client_connection echo_client_message in \<open>fastforce simp: plain_callbacks_ok_def\<close>)

section \<open>The counter\<close>

text \<open>The number of connections the program has on account of this client: one while it has a connection.\<close>

definition other_count :: "echo_client owner hub \<Rightarrow> uint32" where
  "other_count h = client_connection_cnt (snd (hub_user h)) - (if conn_ptr (hub_client h) = None then 0 else 1)"

abbreviation echo_owner :: "nat \<Rightarrow> 'd echo_pb \<Rightarrow> uint64 \<Rightarrow> echo_client owner client_callbacks" where
  "echo_owner n pb \<equiv> \<lambda>_. plain_callbacks (EchoClient_callbacks n pb)"

lemma plain_callback_parts:
  assumes "call_function (map_option plain_callback cb) s = Inr t"
  obtains f u where "cb = Some f" "f (owner_part s) = Inr u" "user t = (fst (user s), user u)"
  using assms by (cases cb) (auto simp: call_function_def plain_callback_def rbind_eq_Inr_iff)

lemma owned_connection:
  assumes "call_function (client_connection_cb (plain_callbacks (EchoClient_callbacks n pb))) s = Inr t"
  shows "client_connection_cnt (snd (user t)) = count_after (status (conn s)) (client_connection_cnt (snd (user s)))"
  by (rule plain_callback_parts [OF assms [unfolded plain_callbacks_def, simplified]])
    (use echo_client_connection [of n pb] in \<open>fastforce simp: owner_part_def\<close>)

lemma owned_message:
  assumes "call_function (client_message_cb (plain_callbacks (EchoClient_callbacks n pb))) s = Inr t"
  shows "client_connection_cnt (snd (user t)) = client_connection_cnt (snd (user s))"
  by (rule plain_callback_parts [OF assms [unfolded plain_callbacks_def, simplified]])
    (use echo_client_message [of n pb] in \<open>fastforce simp: owner_part_def\<close>)

text \<open>What a step of a connection does to the counter.\<close>

lemma moved_counted:
  assumes step: "conn_step (owned_callbacks (echo_owner n pb) i) w (Inr w')"
  shows "client_connection_cnt (snd (user w')) - (if status (conn w') = kDisconnected then 0 else 1)
    = client_connection_cnt (snd (user w)) - (if status (conn w) = kDisconnected then 0 else 1)"
  using conn_step_parts [OF step refl]
proof (elim disjE)
  assume "closing_from (owned_callbacks (echo_owner n pb) i) w w'"
  then obtain u where u: "handleClose (owned_callbacks (echo_owner n pb) i) u = Inr w'" "user u = user w" "status (conn w) \<noteq> kDisconnected"
    unfolding closing_from_def by force
  obtain s1 s2 s3 where p: "status (conn s1) = kDisconnecting" "user s1 = user u" "connection_cb (owned_callbacks (echo_owner n pb) i) s1 = Inr s2"
    "close_cb (owned_callbacks (echo_owner n pb) i) (s2\<lparr>calls := calls s2 @ [CloseCb]\<rparr>) = Inr s3" "w' = upd_conn (status_update (\<lambda>_. kDisconnected)) s3"
    by (rule handleClose_parts [OF u(1)]) blast
  have "client_connection_cnt (snd (user s2)) = client_connection_cnt (snd (user w)) - 1"
    using owned_connection [of n pb s1 s2] p(1-3) u(2) by (simp add: owned_callbacks_def TCPClient_conn_callbacks_def count_after_def)
  then show ?thesis using p(4,5) u(3)
    by (auto simp: owned_callbacks_def TCPClient_conn_callbacks_def removed_from_def rbind_eq_Inr_iff)
next
  assume "message_from (owned_callbacks (echo_owner n pb) i) w w'"
  then obtain u v where m: "same_view w u" "message_cb (owned_callbacks (echo_owner n pb) i) u = Inr v" "same_view v w'" unfolding message_from_def by blast
  have "client_connection_cnt (snd (user v)) = client_connection_cnt (snd (user u))"
    using owned_message [of n pb u v] m(2) by (simp add: owned_callbacks_def TCPClient_conn_callbacks_def)
  moreover have "public_effect u v" using api_calls_effect [OF owner_calls_api [OF echo_plain.owned_calls(2) [OF m(2)]]] .
  ultimately show ?thesis using m(1,3) by (auto simp: same_view_def public_effect_def)
qed (auto simp: same_view_def TCPConn_close_def closeWithDelay_def)

lemma other_count_on_hub: "conn_ptr (f (hub_client h)) = conn_ptr (hub_client h) \<Longrightarrow> other_count (on_hub f h) = other_count h"
  by (simp add: other_count_def) (simp add: on_hub_def)

lemma other_count_refreshed [simp]: "other_count (refreshed h) = other_count h"
  unfolding refreshed_def by (rule other_count_on_hub) simp

lemma peer_count:
  assumes step: "conn_step (owned_callbacks (echo_owner n pb) i) w (Inr w')" and w: "peer_world i (refreshed h) = Some w"
  shows "other_count (put_peer i w' h) = other_count h"
proof -
  have u: "user w = hub_user (refreshed h)" using w by (auto simp: peer_world_def)
  then have c: "conn_ptr (fst (user w)) = conn_ptr (hub_client h)" "snd (user w) = snd (hub_user h)"
    using hub_client_refreshed [of h] by (simp_all add: hub_client_def) (simp add: refreshed_def on_hub_def)
  have h': "other_count (put_peer i w' h) = client_connection_cnt (snd (user w')) - (if conn_ptr (fst (user w')) = None then 0 else 1)"
    by (simp add: other_count_def hub_client_def)
  note m = moved_counted [OF step]
  show ?thesis using echo_plain.plain_moved [OF step]
  proof (elim disjE conjE exE)
    assume "fst (user w') = fst (user w)" "(status (conn w') = kDisconnected) = (status (conn w) = kDisconnected)"
    then show ?thesis using m c h' by (simp add: other_count_def split: if_splits)
  next
    fix f assume "status (conn w) \<noteq> kDisconnected" "status (conn w') = kDisconnected"
      and r: "TCPClient_removeConnection i ((fst (user w))\<lparr>statuses := f\<rparr>) = Inr (fst (user w'))"
    then show ?thesis using m c h' removed_counts(1,2) [OF r] by (simp add: other_count_def)
  qed
qed

lemma new_count:
  assumes n: "conn_ptr (hub_client h) = None" and run: "owner_newConnection (echo_owner n pb) eps ec h = Inr h'"
  shows "other_count h' = other_count h"
proof -
  define g where "g = on_hub (is_connecting_update (\<lambda>_. False)) h"
  have g: "other_count h = client_connection_cnt (snd (hub_user g))" "conn_ptr (hub_client g) = None" using n by (simp_all add: g_def other_count_def) (simp add: on_hub_def)
  show ?thesis
  proof (cases "ec = Success")
    case True
    let ?i = "id_counter (hub_client g)"
    let ?h = "on_hub (id_counter_update (\<lambda>_. ?i + 1)) g"
    obtain w where w: "connectEstablished (owned_callbacks (echo_owner n pb) ?i) (new_peer ?i eps ?h) = Inr w" "h' = on_hub (conn_ptr_update (\<lambda>_. Some ?i)) (put_peer ?i w ?h)"
      using run True by (auto simp: owner_newConnection_def Let_def rbind_eq_Inr_iff g_def)
    obtain s1 s2 where p: "status (conn s1) = kConnected" "user s1 = hub_user ?h" "connection_cb (owned_callbacks (echo_owner n pb) ?i) s1 = Inr s2" "unmoved s2 w"
      by (rule connectEstablished_parts [OF w(1)]) (simp add: new_peer_def)
    have "client_connection_cnt (snd (user w)) = client_connection_cnt (snd (hub_user g)) + 1"
      using owned_connection [of n pb s1 s2] p by (simp add: owned_callbacks_def TCPClient_conn_callbacks_def count_after_def unmoved_def) (simp add: on_hub_def)
    then show ?thesis using g by (simp add: w(2) other_count_def) (simp add: on_hub_def)
  next
    case False
    obtain w w1 where w: "call_function (client_connection_cb (plain_callbacks (EchoClient_callbacks n pb))) (new_peer 0 eps g) = Inr w" "TCPConn_delete w = Inr w1"
      "h' = (let h2 = g\<lparr>hub_mem := cmem w1, hub_user := user w1\<rparr> in
        if auto_reconnect (hub_client h2) then on_hub (\<lambda>c. c\<lparr>events := events c @ [ReconnectTimer]\<rparr>) h2 else h2)"
      using run False by (auto simp: owner_newConnection_def Let_def rbind_eq_Inr_iff g_def)
    let ?h2 = "g\<lparr>hub_mem := cmem w1, hub_user := user w1\<rparr>"
    have u: "user w1 = user w" using w(2) by (auto simp: TCPConn_delete_def rbind_eq_Inr_iff)
    have "client_connection_cnt (snd (user w)) = client_connection_cnt (snd (hub_user g))" "fst (user w) = hub_client g"
      using owned_connection [OF w(1)] echo_plain.plain_calls(2) [OF disjI1 [OF w(1)]] by (simp_all add: new_peer_def TCPConn_new_def count_after_def hub_client_def)
    then have "other_count ?h2 = other_count h" using g u by (simp add: other_count_def hub_client_def)
    then show ?thesis unfolding w(3) Let_def by (simp add: other_count_on_hub)
  qed
qed

lemma disconnect_count:
  assumes "owner_disconnect h = Inr h'"
  shows "other_count h' = other_count h"
proof -
  define g where "g = on_hub (setAutoReconnect False) h"
  have g: "other_count g = other_count h" unfolding g_def by (rule other_count_on_hub) (simp add: setAutoReconnect_def)
  have "other_count (put_peer i (TCPConn_close w) g) = other_count g" if "peer_world i g = Some w" for i w
    using that by (auto simp: other_count_def hub_client_def peer_world_def)
  then show ?thesis using assms g by (auto simp: owner_disconnect_def g_def [symmetric] Let_def rbind_eq_Inr_iff split: option.splits)
qed

lemma event_count:
  assumes h: "one_at_a_time h" and step: "owner_event (echo_owner n pb) h (Inr h')"
  shows "other_count h' = other_count h"
  using step
proof (cases rule: owner_event.cases)
  case (connected eps ec)
  let ?g = "on_hub (taken_event AsyncConnect) (refreshed h)"
  have "0 < count_list (events (hub_client h)) AsyncConnect" using connected(2) by (metis count_list_0_iff gr0I)
  then have "conn_ptr (hub_client h) = None" using h unfolding one_at_a_time_def by (auto split: if_splits)
  then have "conn_ptr (hub_client ?g) = None" "other_count ?g = other_count h"
    using other_count_on_hub [of "taken_event AsyncConnect" "refreshed h"] by (simp_all add: hub_client_refreshed taken_event_def)
  then show ?thesis using new_count [of ?g n pb eps ec h'] connected(1) by simp
next
  case timer
  have "conn_ptr (reconnect c) = conn_ptr c" "conn_ptr (taken_event e c) = conn_ptr c" for c e by (simp_all add: reconnect_def connect_def taken_event_def)
  then show ?thesis unfolding timer(1) by (simp add: other_count_on_hub)
next
  case (moved i w r)
  then obtain w' where w': "r = Inr w'" "h' = put_peer i w' h" by (auto simp: Inr_eq_rbind_iff)
  then show ?thesis using peer_count [of n pb i w w' h] moved(2,3) by simp
next
  case api_disconnect
  then show ?thesis using disconnect_count [of "refreshed h" h'] by simp
next
  case (api_auto v)
  then show ?thesis using other_count_on_hub [of "setAutoReconnect v" h] by (simp add: setAutoReconnect_def)
qed

definition counted_start :: "uint32 \<Rightarrow> echo_client owner hub \<Rightarrow> bool" where
  "counted_start k h \<longleftrightarrow> connecting_start h \<and> client_connection_cnt (snd (hub_user h)) = k"

lemma counted_start_count: "counted_start k h \<Longrightarrow> other_count h = k"
  by (auto simp: counted_start_def connecting_start_def owner_start_def client_start_def other_count_def hub_client_refreshed TCPClient_new_def connect_def)

interpretation client_counted: inductive_invariant "counted_start k" "owner_event (echo_owner n pb)" "\<lambda>h. one_at_a_time h \<and> other_count h = k" for k n pb
proof unfold_locales
  show "one_at_a_time h \<and> other_count h = k" if "counted_start k h" for h
    using that connecting_start_one counted_start_count by (auto simp: counted_start_def)
  show "one_at_a_time h' \<and> other_count h' = k" if "one_at_a_time h \<and> other_count h = k" "owner_event (echo_owner n pb) h (Inr h')" for h h'
    using that echo_plain.event_one event_count by blast
qed

section \<open>Properties\<close>

text \<open>
  C18. The echo client counts its connections: in every reachable state of one of its clients with all its \<open>TCPConn\<close> objects, through failed
  attempts, lost connections, closes and reconnects, the counter is the number of the other clients' connections, plus one exactly while this
  client has a connection, and this connection is its only one that is not disconnected.
\<close>

theorem echo_client_counted:
  assumes "reach (counted_start k) (owner_event (\<lambda>_. plain_callbacks (EchoClient_callbacks n pb))) h"
  shows "client_connection_cnt (snd (hub_user h)) = k + (if \<exists>i. peer_statuses h i \<noteq> kDisconnected then 1 else 0)
    \<and> (\<forall>i. (peer_statuses h i \<noteq> kDisconnected) = (conn_ptr (hub_client h) = Some i))"
proof -
  have one: "one_at_a_time h" and k: "other_count h = k" using client_counted.reach_inv [OF assms] by simp_all
  have live: "(peer_statuses h i \<noteq> kDisconnected) = (conn_ptr (hub_client h) = Some i)" for i by (rule one_live [OF one])
  then have "(\<exists>i. peer_statuses h i \<noteq> kDisconnected) = (conn_ptr (hub_client h) \<noteq> None)" by simp
  then show ?thesis using k live by (auto simp: other_count_def diff_eq_eq)
qed

text \<open>A first attempt that fails.\<close>

definition echo_hub :: "echo_client owner hub" where
  "echo_hub = \<lparr>peers = (\<lambda>_. None), hub_mem = mem_start, hub_user = (TCPClient_new ''TcpClientTest'' 1 (\<lambda>_. kDisconnected), EchoClient_new)\<rparr>"

lemma echo_refused:
  "\<exists>h. owner_event (echo_owner n pb) (on_hub connect (refreshed echo_hub)) (Inr h) \<and> ReconnectTimer \<in> set (events (hub_client h))"
proof -
  let ?h = "on_hub connect (refreshed echo_hub)"
  define g where "g = on_hub (is_connecting_update (\<lambda>_. False)) (on_hub (taken_event AsyncConnect) (refreshed ?h))"
  have c: "events (hub_client ?h) = [AsyncConnect]" "id_counter (hub_client ?h) = 1" "auto_reconnect (hub_client ?h)" "peers ?h 1 = None"
    by (simp_all add: hub_client_refreshed connect_def ptr_status_def)
      (simp_all add: echo_hub_def hub_client_def TCPClient_new_def refreshed_def peer_statuses_def on_hub_def)
  then have g: "auto_reconnect (hub_client g)" by (simp add: g_def hub_client_refreshed taken_event_def)
  let ?w = "new_peer 0 (7, 8) g" and ?g = "g\<lparr>hub_mem := hub_mem g, hub_user := hub_user g\<rparr>"
  have "EchoClient_onConnectionCallback pb (owner_part ?w) = Inr (owner_part ?w)"
    by (simp add: EchoClient_onConnectionCallback_def owner_part_def new_peer_def TCPConn_new_def isConnected_def isDisconnecting_def)
  then have cb: "call_function (client_connection_cb (plain_callbacks (EchoClient_callbacks n pb))) ?w = Inr ?w"
    by (simp add: plain_callbacks_def EchoClient_callbacks_def TCPClient_setMessageCallback_def TCPClient_setConnectionCallback_def call_function_def
        plain_callback_def)
  have del: "TCPConn_delete ?w = Inr ?w" by (simp add: TCPConn_delete_def Buffer_delete_def new_peer_def TCPConn_new_def)
  have "owner_newConnection (echo_owner n pb) (7, 8) Failure (on_hub (taken_event AsyncConnect) (refreshed ?h))
    = Inr (on_hub (\<lambda>c. c\<lparr>events := events c @ [ReconnectTimer]\<rparr>) ?g)"
    using cb del g unfolding owner_newConnection_def Let_def g_def [symmetric] by (simp add: new_peer_def)
  then have "owner_event (echo_owner n pb) ?h (Inr (on_hub (\<lambda>c. c\<lparr>events := events c @ [ReconnectTimer]\<rparr>) ?g))"
    using owner_event.connected [of ?h "echo_owner n pb" "(7, 8)" Failure] c by simp
  then show ?thesis by (intro exI [of _ "on_hub (\<lambda>c. c\<lparr>events := events c @ [ReconnectTimer]\<rparr>) ?g"]) simp
qed

theorem echo_client_counted_witness:
  "\<exists>h. reach (counted_start 0) (owner_event (echo_owner 1 wire_pb)) h \<and> ReconnectTimer \<in> set (events (hub_client h))
    \<and> client_connection_cnt (snd (hub_user h)) = 0 + (if \<exists>i. peer_statuses h i \<noteq> kDisconnected then 1 else 0)"
proof -
  obtain h where h: "owner_event (echo_owner 1 wire_pb) (on_hub connect (refreshed echo_hub)) (Inr h)" "ReconnectTimer \<in> set (events (hub_client h))"
    using echo_refused by blast
  have "owner_start echo_hub" by (auto simp: owner_start_def client_start_def echo_hub_def hub_client_def)
  then have "counted_start 0 (on_hub connect (refreshed echo_hub))"
    by (auto simp: counted_start_def connecting_start_def) (simp add: echo_hub_def refreshed_def on_hub_def EchoClient_new_def)
  then have r: "reach (counted_start 0) (owner_event (echo_owner 1 wire_pb)) h" using h(1) by (rule reach.step [OF reach.init])
  show ?thesis using echo_client_counted [OF r] r h(2) by blast
qed

end
