(* ===== verification/Spec2Isabelle.thy ===== *)
theory Spec2Isabelle
  imports Buffer_Run Conn_Stream Dispatcher Logging Echo_Many Echo_Site Echo_Talk Echo_Client
begin

text \<open>
  \<^bold>\<open>A verification of libnetpp.\<close>

  libnetpp is a TCP library over boost asio: byte buffers made of 4096-byte pieces from a global
  pool, connections that read and write through such buffers, event loops with their threads, a
  server and a client, and a codec that frames protobuf messages. Two example programs, an echo server and
  an echo client, put the parts together.

  \<^bold>\<open>The parts and where they are modelled.\<close> Paths are relative to \<^verbatim>\<open>src/netpp/\<close>; a definition has the
  name of the function it translates, with the class first where names clash.

  \<^item> \<open>Prelude\<close>: errors as values (\<open>error\<close>, the result type \<open>error + 'a\<close> and its \<open>rbind\<close>), assertions, bytes of
    words and \<open>htonl\<close>, and the reachability predicate \<open>reach\<close> with the locales \<open>inductive_invariant\<close>, which
    the step relations below interpret, and \<open>forward_simulation\<close>, by which a relation refines another.
  \<^item> \<open>Piece_Heap\<close>, \<open>Piece_Queue\<close>, \<open>Piece_Pool\<close> (\<^verbatim>\<open>net/piece/\<close>): pieces in an explicit heap, so that
    aliasing, use after free and null are visible; the intrusive queue; the pool with its cache and its
    32-bit counters. One call is one critical section of the pool's mutex.
  \<^item> \<open>Net_Buffer\<close>, \<open>Buffer_Laws\<close>, \<open>Buffer_Run\<close> (\<^verbatim>\<open>net/buffer.h\<close>, \<^verbatim>\<open>net/buffer.cpp\<close>): every operation of
    \<open>Buffer\<close>; \<open>holds m b bs F\<close> says that the buffer \<open>b\<close> carries the bytes \<open>bs\<close> and that the pieces \<open>F\<close> belong to others. The locale
    \<open>byte_stream\<close> is the contract of a buffer; \<open>Buffer_Run\<close> compares sequences of operations with the same operations on a list.
  \<^item> \<open>Conn_Buffer\<close> (\<^verbatim>\<open>net/tcp_conn.cpp\<close>, lines 5 to 58): the input and output buffers of a connection.
  \<^item> \<open>Zero_Copy\<close> (\<^verbatim>\<open>net/protobuf/buffer_input_stream.h\<close>, \<^verbatim>\<open>buffer_output_stream.h\<close>, and the path of the vendored
    \<^verbatim>\<open>CodedOutputStream\<close> that serialisation takes): the two streams; what reads from the input stream is a
    tree of \<open>Next\<close> and \<open>BackUp\<close> calls.
  \<^item> \<open>Codec\<close>, \<open>Dispatcher\<close> (\<^verbatim>\<open>net/protobuf/codec.cpp\<close>, \<^verbatim>\<open>dispatcher.h\<close>): frames, parsing, error codes, dispatch by descriptor.
  \<^item> \<open>Tcp_Conn\<close>, \<open>Conn_Control\<close>, \<open>Conn_Data\<close>, \<open>Conn_Status\<close> (\<^verbatim>\<open>net/tcp_conn.cpp\<close>): a world of the connection, the memory,
    the requests asio has pending, the callbacks called so far and the user's state. \<open>conn_step\<close> lets completions, tasks,
    timers and calls of the interface happen in any order; the user's callbacks are any functions that use the connection through
    its interface (\<open>callbacks_ok\<close>, locale \<open>connection_user\<close>).
  \<^item> \<open>Conn_Stream\<close>, \<open>Conn_Effect\<close>, \<open>Conn_Hub\<close>: sends from any thread, their queued tasks and completed writes as sequences of
    actions, beside a reference queue of bytes; what one step of a connection does to its status and its close
    callback; several connections over one memory, each step taken in the world of one of them.
  \<^item> \<open>Codec_Conn\<close>: the codec as the message callback of a connection.
  \<^item> \<open>Event_Loop\<close>, \<open>Loop_Pool\<close> (\<^verbatim>\<open>net/event_loop.cpp\<close>, \<^verbatim>\<open>event_loop_thread.cpp\<close>, \<^verbatim>\<open>event_loop_thread_pool.cpp\<close>,
    \<^verbatim>\<open>server_status.h\<close>): loops over a parameter record for the io service, split at the blocking \<open>run()\<close>; what asio will call later is
    a value of the datatype \<open>handler\<close>, and \<open>run_handler\<close> calls it.
  \<^item> \<open>Tcp_Server\<close>, \<open>Tcp_Client\<close> (\<^verbatim>\<open>net/tcp_server.cpp\<close>, \<^verbatim>\<open>net/tcp_client.cpp\<close>, \<^verbatim>\<open>net/tcp_callbacks.h\<close>): step relations over the
    tasks the handlers post; the server owns a pool of \<open>Loop_Pool\<close>, its connections are known by their ids.
  \<^item> \<open>Server_Site\<close>: the server together with the connection objects it makes, closes and drops. The connections
    move as \<open>conn_step\<close> lets them, and the whole simulates the server of \<open>Tcp_Server\<close>.
  \<^item> \<open>Client_Site\<close>, \<open>Client_Run\<close>, \<open>Client_Plain\<close>: the client together with its connection objects, its callbacks
    (locale \<open>client_owner\<close>) working on the connection and on the client at once. The whole simulates the client of \<open>Tcp_Client\<close> among any
    users (\<open>user_step\<close>); users that know only connections (locale \<open>plain_user\<close>) have one connection at a time.
  \<^item> \<open>Logging\<close> (\<^verbatim>\<open>base/logging.cpp\<close>, \<^verbatim>\<open>base/logging.h\<close>): the double-checked initialisation as interleaved
    threads, and what a log statement writes to the sinks.
  \<^item> \<open>Echo_App\<close>, \<open>Echo_Wire\<close>, \<open>Echo_Run\<close> (\<^verbatim>\<open>src/examples/echo\<close>): both programs, their runs on one connection, and the proto3
    wire format of the two messages as an instance of the contract \<open>echo_messages\<close> of the generated code. The contract
    fixes what a parser leaves in the message and not its verdict, because proto3 reports text that is not UTF-8.
  \<^item> \<open>Echo_Many\<close>, \<open>Echo_Site\<close>, \<open>Echo_Talk\<close>: the echo server with any number of clients at once, with its counter
    across the life of the server's connections, and in conversation with the echo client; there, what one side
    has written arrives at the other in one read. \<open>Echo_Client\<close>: the callbacks of the echo client as a \<open>plain_user\<close>, and its counter.

  \<^bold>\<open>What is shown.\<close>
  \<^item> Memory and buffers: a \<open>Buffer\<close> behaves as a list of bytes under every sequence of its reads, writes and
    skips of at least one byte, and touches no memory it does not own (C3); the pool's cache is bounded, also when
    buffers delete pieces past the pool (C24).
  \<^item> Connections: at most one read and one write in flight, one close callback, a status that only moves
    forward, a closed connection that stays closed (C7, C25, C30); what is sent from any thread is handed to the socket in order and
    completely (C2, C13), and what arrives is appended in order (C19).
  \<^item> Frames: a message within the codec's limits that is alone in the buffer is delivered once and equal to what was
    sent, in one read or in many (C1, C9, C20, C21, C22); what is reported and what is waited for (C28, C29); dispatch (C31).
  \<^item> The server and its threads: invariants over all interleavings and the completion of a stop by its own tasks (C10, C11, C26);
    the server with its connection objects refines the server that knows only their ids, and leaves nothing behind when it has
    stopped (C5, C12); the log is initialised once (C27).
  \<^item> The client with its connection objects refines the client alone, goes on connecting until it is told to stop,
    recovers by its own pending events, and has one connection at a time (C6, C14, C15, C16).
  \<^item> The echo programs answer the messages of every client in order, talk to each other, and count
    their connections (C4, C8, C17, C18, C23).
  \<^item> Where the code does not do what it means to: C32 to C40 and lemmas beside them.

  \<^bold>\<open>Conditions that recur.\<close> A completed write carries the number of bytes the socket has taken; the code ignores it, so
    the properties of streams speak of what is handed to the socket, of the wire only when every write is complete, and C33 shows
    what a short write loses. The codec is right about one frame at a time: two frames in one piece break the connection (C32), a
    length header that straddles two pieces is written out of bounds (C35), and payloads of fewer than ten bytes are never
    delivered; the echo properties therefore let every read bring one whole frame. A read that is merged into the
    last piece needs room in the pool's cache (C37). Messages longer than a piece lose their rest (C36). A parser is
    assumed to read exactly the bytes of one message to the end (\<open>reads_all\<close>), or to stop at a zero byte and back up the rest
    (\<open>stops_at_zero\<close>), as \<^verbatim>\<open>CodedInputStream\<close> does. The flag of the log is read and written sequentially consistently.

  \<^bold>\<open>Loops and fuel.\<close> Loops over a chain of pieces run with fuel \<open>Suc (brk m)\<close>: a chain has no more pieces than
    were ever allocated (\<open>bchain_few\<close>). \<open>Buffer_write\<close> has \<open>Suc (length d)\<close>, \<open>WriteRaw\<close> \<open>Suc (Suc (length d))\<close>, \<open>onMessage\<close>
    \<open>Suc (Buffer_length b)\<close>: each round consumes the four bytes of a header. Running out is the error \<open>Diverges\<close>, and
    the theorems give the results of the operations under their conditions, so that they return.

  \<^bold>\<open>Parameters.\<close> asio is the record \<open>io_api\<close> and the lists of pending requests and tasks, with completions in
    any order; new thread ids come from \<open>pool_env\<close>; protobuf's descriptor pool, factory, parsers and
    serialisers are \<open>protobuf_api\<close>, the generated echo classes \<open>echo_pb\<close>. Callbacks of the user are arguments.

  \<^bold>\<open>Not modelled.\<close> The vendored protobuf and boost beyond the path named above, the generated
    \<^verbatim>\<open>echo.pb.cc\<close> (its contract is \<open>echo_messages\<close>), precompiled headers, socket options and addresses
    beyond their identity, log files with their rotation and time stamps. Pointers to loops
    are values: two threads never race on one field, except where the steps of a relation say so. A wait in the
    code (the latch, the sleeping loops of the pool) is a point at which the awaited thread has made its steps.
\<close>

end
